(* ===== verification/Prelude.thy ===== *)
theory Prelude
  imports Main "HOL-Library.Word" "HOL-Library.Sublist"
begin

text \<open>
  Shared vocabulary of the development: the names of the machine types, the exceptions of the
  C++ code as a value type, the \<^verbatim>\<open>std::string\<close> searches the components use, and the generic
  lemmas on lists and words that carry the component proofs. The collection \<open>wire_simps\<close> holds
  the facts about single octets and big-endian fields, \<open>eval_simps\<close> the defining equations used
  to evaluate closed instances.
\<close>

unbundle bit_operations_syntax

named_theorems wire_simps \<open>facts about octets and big-endian fields\<close>
named_theorems eval_simps \<open>definitions unfolded when a closed instance is evaluated\<close>

section \<open>Machine types and exceptions\<close>

type_synonym byte = "8 word"
type_synonym u16 = "16 word"
type_synonym u32 = "32 word"
type_synonym bytes = "byte list"

text \<open>
  The exception classes the sources throw, each with its message. \<open>SystemError\<close> stands for
  \<^verbatim>\<open>std::system_error\<close>, which the Asio and socket calls raise.
\<close>

datatype exn =
    ParseError string
  | InvalidArgument string
  | RuntimeError string
  | ConfigError string
  | SystemError string

type_synonym 'a result = "exn + 'a"

fun what :: "exn \<Rightarrow> string" where
  "what (ParseError m) = m"
| "what (InvalidArgument m) = m"
| "what (RuntimeError m) = m"
| "what (ConfigError m) = m"
| "what (SystemError m) = m"

text \<open>
  \<open>bind_result m f\<close> is the code \<^verbatim>\<open>x = m(); f(x)\<close> where \<open>m\<close> may throw.
\<close>

fun bind_result :: "'a result \<Rightarrow> ('a \<Rightarrow> 'b result) \<Rightarrow> 'b result" where
  "bind_result (Inl e) f = Inl e"
| "bind_result (Inr x) f = f x"

lemma bind_result_eq_Inr [simp]: "bind_result m f = Inr y \<longleftrightarrow> (\<exists>x. m = Inr x \<and> f x = Inr y)"
  by (cases m) auto

lemma bind_result_cong [fundef_cong]:
  "m = m' \<Longrightarrow> (\<And>x. m' = Inr x \<Longrightarrow> f x = f' x) \<Longrightarrow> bind_result m f = bind_result m' f'"
  by (cases m') auto

section \<open>Octets and characters\<close>

text \<open>
  A C++ \<^verbatim>\<open>char\<close> and a \<^verbatim>\<open>std::byte\<close> are both eight bits; \<open>byte_char\<close> and \<open>char_byte\<close>
  are the two \<^verbatim>\<open>static_cast\<close> directions. \<open>lower_char\<close> is the ASCII case fold
  \<^verbatim>\<open>if (c >= 'A' && c <= 'Z') c += 'a' - 'A'\<close>, which the parser and the blocklist share.
\<close>

definition byte_char :: "byte \<Rightarrow> char" where
  [eval_simps]: "byte_char b = char_of (unat b)"

definition char_byte :: "char \<Rightarrow> byte" where
  [eval_simps]: "char_byte c = word_of_nat (of_char c)"

definition lower_char :: "char \<Rightarrow> char" where
  [eval_simps]: "lower_char c =
     (if 65 \<le> (of_char c :: nat) \<and> (of_char c :: nat) \<le> 90 then char_of (of_char c + 32 :: nat) else c)"

lemma of_char_less_256 [simp]: "(of_char c :: nat) < 256"
  by (metis char_of_char of_char_of mod_less_divisor zero_less_numeral)

lemma byte_char_char_byte [simp]: "byte_char (char_byte c) = c"
  by (simp add: byte_char_def char_byte_def unat_of_nat take_bit_eq_mod)

lemma char_byte_byte_char [simp]: "char_byte (byte_char b) = b"
proof -
  have "unat b mod 256 = unat b"
    using unsigned_less [of b, where 'a = nat] by simp
  then show ?thesis by (simp add: byte_char_def char_byte_def)
qed

lemma lower_char_idem [simp]: "lower_char (lower_char c) = lower_char c"
  by (auto simp: lower_char_def)

lemma lower_char_dot_iff [simp]: "lower_char c = CHR ''.'' \<longleftrightarrow> c = CHR ''.''"
proof -
  have "char_of (of_char c + 32 :: nat) \<noteq> CHR ''.''"
    if "65 \<le> (of_char c :: nat)" "(of_char c :: nat) \<le> 90"
  proof
    assume "char_of (of_char c + 32 :: nat) = CHR ''.''"
    then have "(of_char (char_of (of_char c + 32 :: nat)) :: nat) = of_char (CHR ''.'')" by simp
    with that show False by simp
  qed
  then show ?thesis by (auto simp: lower_char_def)
qed

lemma lower_char_dot [simp]: "lower_char (CHR ''.'') = CHR ''.''"
  by simp

section \<open>Searches in a string\<close>

text \<open>
  \<open>find_char c s pos\<close> is \<^verbatim>\<open>s.find(c, pos)\<close> and \<open>rfind_char c s pos\<close> is \<^verbatim>\<open>s.rfind(c, pos)\<close>,
  with \<open>None\<close> for \<^verbatim>\<open>npos\<close>.
\<close>

primrec index_of :: "'a \<Rightarrow> 'a list \<Rightarrow> nat option" where
  "index_of c [] = None"
| "index_of c (x # xs) = (if x = c then Some 0 else map_option Suc (index_of c xs))"

definition find_char :: "char \<Rightarrow> string \<Rightarrow> nat \<Rightarrow> nat option" where
  [eval_simps]: "find_char c s pos = map_option (\<lambda>i. i + pos) (index_of c (drop pos s))"

definition rfind_char :: "char \<Rightarrow> string \<Rightarrow> nat \<Rightarrow> nat option" where
  [eval_simps]: "rfind_char c s pos =
     map_option (\<lambda>i. min (Suc pos) (length s) - 1 - i) (index_of c (rev (take (Suc pos) s)))"

lemma index_of_None [simp]: "index_of c xs = None \<longleftrightarrow> c \<notin> set xs"
  by (induction xs) auto

lemma index_of_SomeD:
  "index_of c xs = Some i \<Longrightarrow> i < length xs \<and> xs ! i = c \<and> c \<notin> set (take i xs)"
  by (induction xs arbitrary: i) (auto split: if_splits)

lemma index_of_split:
  assumes "index_of c xs = Some i"
  shows "xs = take i xs @ c # drop (Suc i) xs" "c \<notin> set (take i xs)" "i < length xs"
  using index_of_SomeD [OF assms] by (auto simp: id_take_nth_drop)

lemma find_char_Some_bounds:
  "find_char c s pos = Some i \<Longrightarrow> pos \<le> i \<and> i < length s"
  by (auto simp: find_char_def dest!: index_of_SomeD)

lemma find_char_None: "find_char c s pos = None \<longleftrightarrow> c \<notin> set (drop pos s)"
  by (simp add: find_char_def)

lemma find_char_SomeD:
  assumes "find_char c s pos = Some i"
  shows "pos \<le> i" "i < length s" "s ! i = c" "c \<notin> set (take (i - pos) (drop pos s))"
  using assms by (auto simp: find_char_def add.commute dest!: index_of_SomeD)

lemma rfind_char_None: "rfind_char c s pos = None \<longleftrightarrow> c \<notin> set (take (Suc pos) s)"
  by (simp add: rfind_char_def)

lemma rfind_char_SomeD:
  assumes "rfind_char c s pos = Some i"
  shows "i \<le> pos" "i < length s" "s ! i = c" "c \<notin> set (take (pos - i) (drop (Suc i) s))"
proof -
  let ?t = "take (Suc pos) s"
  from assms obtain k where k: "index_of c (rev ?t) = Some k" and i: "i = length ?t - 1 - k"
    by (auto simp: rfind_char_def min.commute)
  from index_of_SomeD [OF k] have kl: "k < length ?t" and kc: "rev ?t ! k = c"
    and kn: "c \<notin> set (take k (rev ?t))" by auto
  show "i \<le> pos" "i < length s" using kl i by auto
  from kc kl i have "?t ! i = c" by (simp add: rev_nth)
  then show "s ! i = c" using \<open>i \<le> pos\<close> by simp
  have "length ?t - k = Suc i" using kl i by linarith
  then have "take k (rev ?t) = rev (drop (Suc i) ?t)" by (simp only: take_rev)
  with kn have "c \<notin> set (drop (Suc i) ?t)" by simp
  then show "c \<notin> set (take (pos - i) (drop (Suc i) s))" by (simp add: drop_take)
qed

section \<open>Label-aligned suffixes\<close>

text \<open>
  \<open>label_suffix d q\<close>: the domain \<open>d\<close> is \<open>q\<close> itself or what follows one of its dots. Blocklist rules
  and registrable domains are both stated with it.
\<close>

definition label_suffix :: "string \<Rightarrow> string \<Rightarrow> bool" where
  [eval_simps]: "label_suffix d q \<longleftrightarrow> d = q \<or> suffix (CHR ''.'' # d) q"

lemma label_suffix_refl [simp, intro]: "label_suffix q q"
  by (simp add: label_suffix_def)

lemma label_suffix_drop: "i < length q \<Longrightarrow> q ! i = CHR ''.'' \<Longrightarrow> label_suffix (drop (Suc i) q) q"
  by (metis Cons_nth_drop_Suc label_suffix_def suffix_drop)

lemma label_suffix_length: "label_suffix d q \<Longrightarrow> length d \<le> length q"
  by (auto simp: label_suffix_def suffix_def)

lemma label_suffix_suffix: "label_suffix d q \<Longrightarrow> suffix d q"
  by (auto simp: label_suffix_def intro: suffix_ConsD)

lemma label_suffix_trans [trans]: "label_suffix d e \<Longrightarrow> label_suffix e q \<Longrightarrow> label_suffix d q"
  unfolding label_suffix_def by (metis suffix_ConsD suffix_order.trans)

lemma label_suffix_eq_length: "label_suffix d q \<Longrightarrow> label_suffix e q \<Longrightarrow> length d = length e \<Longrightarrow> d = e"
  by (metis label_suffix_suffix suffix_length_suffix suffix_order.order_antisym order_refl)

lemma label_suffix_no_dot: "CHR ''.'' \<notin> set t \<Longrightarrow> label_suffix e t \<longleftrightarrow> e = t"
  by (auto simp: label_suffix_def suffix_def)

lemma dot_suffix_append: "CHR ''.'' \<notin> set pre \<Longrightarrow> suffix (CHR ''.'' # e) (pre @ t) \<longleftrightarrow> suffix (CHR ''.'' # e) t"
  by (induction pre) (auto simp: suffix_Cons)

lemma label_suffix_first_dot:
  "CHR ''.'' \<notin> set pre \<Longrightarrow> label_suffix e (pre @ CHR ''.'' # rest) \<longleftrightarrow> e = pre @ CHR ''.'' # rest \<or> label_suffix e rest"
  by (simp add: label_suffix_def dot_suffix_append suffix_Cons)

lemma find_char_split:
  assumes "find_char c s pos = Some i"
  shows "drop pos s = take (i - pos) (drop pos s) @ c # drop (Suc i) s"
proof -
  obtain k where k: "index_of c (drop pos s) = Some k" "i = k + pos"
    using assms by (auto simp: find_char_def)
  then show ?thesis using index_of_split(1) [OF k(1)] by (simp add: add.commute)
qed

section \<open>Lists\<close>

lemma nth_append_left [simp]: "i < length xs \<Longrightarrow> (xs @ ys) ! i = xs ! i"
  by (simp add: nth_append)

lemma apfst_eq_Pair [simp]: "apfst f x = (a, b) \<longleftrightarrow> a = f (fst x) \<and> b = snd x"
  by (cases x) auto

lemma list_4_cases:
  assumes "4 \<le> length xs"
  obtains a b c d ys where "xs = a # b # c # d # ys"
  using assms by (auto simp: numeral_eq_Suc Suc_le_length_iff)

lemma list_12_cases:
  assumes "12 \<le> length xs"
  obtains a b c d e f g h i j k l ys where "xs = a # b # c # d # e # f # g # h # i # j # k # l # ys"
  using assms by (auto simp: numeral_eq_Suc Suc_le_length_iff)

section \<open>Runs of labelled steps\<close>

text \<open>\<open>run_steps step c evs c'\<close>: the events \<open>evs\<close> lead from the state \<open>c\<close> to \<open>c'\<close>, one step each.\<close>

inductive run_steps :: "('c \<Rightarrow> 'ev \<Rightarrow> 'c \<Rightarrow> bool) \<Rightarrow> 'c \<Rightarrow> 'ev list \<Rightarrow> 'c \<Rightarrow> bool"
  for step :: "'c \<Rightarrow> 'ev \<Rightarrow> 'c \<Rightarrow> bool" and c0 :: 'c where
  run_Nil: "run_steps step c0 [] c0"
| run_snoc: "run_steps step c0 evs c \<Longrightarrow> step c ev c' \<Longrightarrow> run_steps step c0 (evs @ [ev]) c'"

lemma run_front: "run_steps step s' evs s'' \<Longrightarrow> step s ev s' \<Longrightarrow> run_steps step s (ev # evs) s''"
proof (induction rule: run_steps.induct)
  case run_Nil
  then show ?case using run_snoc [where evs = "[]", OF run_steps.run_Nil, of step s ev s'] by simp
next
  case (run_snoc evs c e c')
  then show ?case using run_steps.run_snoc [where evs = "ev # evs"] by simp
qed

lemma run_one: "step s ev s' \<Longrightarrow> run_steps step s [ev] s'"
  by (rule run_front [OF run_Nil])

lemma run_trans:
  assumes "run_steps step c0 xs c1" "run_steps step c1 ys c2"
  shows "run_steps step c0 (xs @ ys) c2"
  using assms(2) by (induction rule: run_steps.induct) (auto simp: assms(1) simp flip: append_assoc intro: run_snoc)

subsection \<open>Threads that are stopped and joined\<close>

text \<open>
  A destructor that ends a worker thread sets a flag, notifies everybody who waits, and joins. \<open>Alive\<close> is
  before the destructor, and the other stages are named by what comes next.
\<close>

datatype owner_pc = Alive | StopNotify | Joining | Destroyed

text \<open>
  What such a thread has to keep for the join to return: once the owner waits for it (\<open>awaited\<close>) it is not
  asleep, and each of its turns brings it nearer to its end.
\<close>

locale stoppable =
  fixes step :: "'s \<Rightarrow> 'ev \<Rightarrow> 's \<Rightarrow> bool" and awaited :: "'s \<Rightarrow> bool" and asleep :: "'s \<Rightarrow> bool"
    and left :: "'s \<Rightarrow> nat" and turn :: 'ev
  assumes stays_awake: "step s ev s' \<Longrightarrow> awaited s' \<Longrightarrow> (awaited s \<Longrightarrow> \<not> asleep s) \<Longrightarrow> \<not> asleep s'"
    and turn_nearer: "awaited s \<Longrightarrow> \<not> asleep s \<Longrightarrow> 0 < left s \<Longrightarrow> \<exists>s'. step s turn s' \<and> awaited s' \<and> left s' < left s"
begin

lemma never_asleep: "run_steps step s0 evs s \<Longrightarrow> \<not> awaited s0 \<Longrightarrow> awaited s \<Longrightarrow> \<not> asleep s"
  by (induction rule: run_steps.induct) (blast dest: stays_awake)+

lemma ends_when_awake:
  assumes "awaited s" "\<not> asleep s"
  shows "\<exists>n s'. n \<le> left s \<and> run_steps step s (replicate n turn) s' \<and> awaited s' \<and> left s' = 0"
  using assms
proof (induction "left s" arbitrary: s rule: less_induct)
  case less
  show ?case
  proof (cases "left s = 0")
    case False
    with turn_nearer less.prems obtain s1 where s1: "step s turn s1" "awaited s1" "left s1 < left s" by blast
    then have "\<not> asleep s1" using stays_awake less.prems by blast
    with less.hyps s1 obtain n s' where n: "n \<le> left s1" "run_steps step s1 (replicate n turn) s'" "awaited s'" "left s' = 0" by blast
    have "run_steps step s (replicate (Suc n) turn) s'" using run_front [OF n(2) s1(1)] by simp
    with n s1(3) show ?thesis by (intro exI [of _ "Suc n"] exI [of _ s']) simp
  qed (use less.prems run_Nil [of step s] in \<open>intro exI [of _ 0] exI [of _ s]; simp\<close>)
qed

lemma join_returns:
  assumes "run_steps step s0 evs s" "\<not> awaited s0" "awaited s"
  shows "\<exists>n s'. n \<le> left s \<and> run_steps step s (replicate n turn) s' \<and> awaited s' \<and> left s' = 0"
  using ends_when_awake [OF assms(3)] never_asleep [OF assms] by blast

end

subsection \<open>Stores\<close>

text \<open>
  A store in which a step either writes one key or can only forget: what is found under a key was put
  there by the latest write of that key.
\<close>

locale written_store =
  fixes step :: "'c \<Rightarrow> 'ev \<Rightarrow> 'c \<Rightarrow> bool"
    and inv :: "'c \<Rightarrow> bool"
    and view :: "'c \<Rightarrow> 'k \<Rightarrow> 'v option"
    and writes :: "'ev \<Rightarrow> ('k \<times> 'v) option"
  assumes inv_step: "inv c \<Longrightarrow> step c ev c' \<Longrightarrow> inv c'"
    and view_write: "inv c \<Longrightarrow> step c ev c' \<Longrightarrow> writes ev = Some (k, v) \<Longrightarrow> view c' k = Some v"
    and view_other: "inv c \<Longrightarrow> step c ev c' \<Longrightarrow> \<forall>v. writes ev \<noteq> Some (k, v) \<Longrightarrow> view c' k = None \<or> view c' k = view c k"
begin

lemma inv_run: "run_steps step c0 evs c \<Longrightarrow> inv c0 \<Longrightarrow> inv c"
  by (induction rule: run_steps.induct) (auto intro: inv_step)

lemma latest_write:
  assumes "run_steps step c0 evs c" "inv c0" "view c0 k = None" "view c k = Some v"
  shows "\<exists>pre ev post. evs = pre @ ev # post \<and> writes ev = Some (k, v) \<and> (\<forall>e \<in> set post. \<forall>u. writes e \<noteq> Some (k, u))"
  using assms
proof (induction arbitrary: v rule: run_steps.induct)
  case (run_snoc evs c ev c')
  have inv: "inv c" using inv_run [OF run_snoc.hyps(1) run_snoc.prems(1)] .
  show ?case
  proof (cases "\<exists>u. writes ev = Some (k, u)")
    case True
    then have "writes ev = Some (k, v)" using view_write [OF inv run_snoc.hyps(2)] run_snoc.prems(3) by fastforce
    then show ?thesis by (intro exI [of _ evs] exI [of _ ev] exI [of _ "[]"]) simp
  next
    case False
    then have "view c k = Some v" using view_other [OF inv run_snoc.hyps(2)] run_snoc.prems(3) by fastforce
    from run_snoc.IH [OF run_snoc.prems(1,2) this] obtain pre e post where
      "evs = pre @ e # post" "writes e = Some (k, v)" "\<forall>e \<in> set post. \<forall>u. writes e \<noteq> Some (k, u)" by blast
    with False show ?thesis by (intro exI [of _ pre] exI [of _ e] exI [of _ "post @ [ev]"]) auto
  qed
qed simp

end

end
