(* ===== verification/Wire.thy ===== *)
theory Wire
  imports Prelude
begin

text \<open>
  The big-endian field accessors of \<^verbatim>\<open>wire_endian.hpp\<close> (repeated in \<^verbatim>\<open>dns_writer.cpp\<close>,
  \<^verbatim>\<open>edns_padding.cpp\<close> and \<^verbatim>\<open>ech_bootstrap.cpp\<close>) and the message types of \<^verbatim>\<open>dns_message.hpp\<close>.
  A \<^verbatim>\<open>span<const byte>\<close> into the packet is the pair of its offset from the start of the packet
  and its octets, so the pointer differences the sources compute are the offsets themselves.
\<close>

section \<open>Big-endian fields\<close>

definition u16_of :: "byte \<Rightarrow> byte \<Rightarrow> u16" where
  [eval_simps]: "u16_of hi lo = push_bit 8 (ucast hi) OR ucast lo"

definition u32_of :: "byte \<Rightarrow> byte \<Rightarrow> byte \<Rightarrow> byte \<Rightarrow> u32" where
  [eval_simps]: "u32_of b0 b1 b2 b3 =
     push_bit 24 (ucast b0) OR push_bit 16 (ucast b1) OR push_bit 8 (ucast b2) OR ucast b3"

text \<open>The two octets \<^verbatim>\<open>(v >> 8) & 0xff\<close> and \<^verbatim>\<open>v & 0xff\<close> of a 16-bit value, and the four of a 32-bit value.\<close>

definition u16_hi :: "u16 \<Rightarrow> byte" where
  [eval_simps]: "u16_hi v = ucast (drop_bit 8 v AND 255)"

definition u16_lo :: "u16 \<Rightarrow> byte" where
  [eval_simps]: "u16_lo v = ucast (v AND 255)"

definition u32_byte :: "nat \<Rightarrow> u32 \<Rightarrow> byte" where
  [eval_simps]: "u32_byte n v = ucast (drop_bit n v AND 255)"

definition read_u16_be :: "bytes \<Rightarrow> nat \<Rightarrow> u16" where
  [eval_simps]: "read_u16_be b off = u16_of (b ! off) (b ! (off + 1))"

definition write_u16_be :: "bytes \<Rightarrow> nat \<Rightarrow> u16 \<Rightarrow> bytes" where
  [eval_simps]: "write_u16_be b off v = (b[off := u16_hi v])[off + 1 := u16_lo v]"

lemma bit_255_iff: "bit (255 :: int) n \<longleftrightarrow> n < 8" "bit (255 :: nat) n \<longleftrightarrow> n < 8"
proof -
  have "(255 :: int) = mask 8" by (simp add: mask_eq_exp_minus_1)
  then show "bit (255 :: int) n \<longleftrightarrow> n < 8" by (simp only: bit_mask_iff) simp
  have "(255 :: nat) = mask 8" by (simp add: mask_eq_exp_minus_1)
  then show "bit (255 :: nat) n \<longleftrightarrow> n < 8" by (simp only: bit_mask_iff) simp
qed

lemma unat_ucast_u16 [wire_simps]: "unat (ucast (b :: byte) :: u16) = unat b"
proof -
  have "unat b < 2 ^ 16" using unsigned_less [of b, where 'a = nat] by simp
  then show ?thesis by (simp add: unsigned_ucast_eq take_bit_nat_eq_self_iff)
qed

lemma u16_of_hi_lo [simp, wire_simps]: "u16_of (u16_hi v) (u16_lo v) = v"
  unfolding u16_of_def u16_hi_def u16_lo_def
  by (rule bit_word_eqI) (auto simp: bit_simps bit_255_iff dest: bit_imp_le_length)

lemma u16_hi_of [simp, wire_simps]: "u16_hi (u16_of hi lo) = hi"
  unfolding u16_of_def u16_hi_def
  by (rule bit_word_eqI) (auto simp: bit_simps bit_255_iff dest: bit_imp_le_length)

lemma u16_lo_of [simp, wire_simps]: "u16_lo (u16_of hi lo) = lo"
  unfolding u16_of_def u16_lo_def
  by (rule bit_word_eqI) (auto simp: bit_simps bit_255_iff dest: bit_imp_le_length)

lemma bit_u32_byte: "bit (u32_byte k v) n \<longleftrightarrow> n < 8 \<and> bit v (k + n)"
  by (auto simp: u32_byte_def bit_simps bit_255_iff dest: bit_imp_le_length)

lemma bit_u32_of:
  "bit (u32_of b0 b1 b2 b3) n \<longleftrightarrow> n < 32 \<and>
     (if n < 8 then bit b3 n else if n < 16 then bit b2 (n - 8)
      else if n < 24 then bit b1 (n - 16) else bit b0 (n - 24))"
proof -
  have beyond: "\<not> bit b m" if "8 \<le> m" for b :: byte and m
    using that bit_imp_le_length [of b m] by auto
  show ?thesis
    by (simp add: u32_of_def bit_simps not_less beyond) (auto simp: beyond)
qed

lemma u32_of_bytes [simp, wire_simps]:
  "u32_of (u32_byte 24 v) (u32_byte 16 v) (u32_byte 8 v) (u32_byte 0 v) = v"
  by (rule bit_word_eqI) (auto simp: bit_u32_of bit_u32_byte)

lemma length_write_u16_be [simp, wire_simps]: "length (write_u16_be b off v) = length b"
  by (simp add: write_u16_be_def)

lemma read_write_u16_same [wire_simps]:
  "off + 1 < length b \<Longrightarrow> read_u16_be (write_u16_be b off v) off = v"
  by (simp add: read_u16_be_def write_u16_be_def)

lemma read_write_u16_other [wire_simps]:
  "off + 1 < off' \<or> off' + 1 < off \<Longrightarrow> read_u16_be (write_u16_be b off v) off' = read_u16_be b off'"
  by (auto simp: read_u16_be_def write_u16_be_def)

lemma nth_write_u16_other [wire_simps]:
  "i \<noteq> off \<Longrightarrow> i \<noteq> off + 1 \<Longrightarrow> write_u16_be b off v ! i = b ! i"
  by (simp add: write_u16_be_def)

lemma read_u16_be_append [wire_simps]:
  "off + 1 < length b \<Longrightarrow> read_u16_be (b @ c) off = read_u16_be b off"
  by (simp add: read_u16_be_def)

lemma read_u16_be_prefix [wire_simps]: "read_u16_be (pre @ b) (length pre + k) = read_u16_be b k"
  by (simp add: read_u16_be_def nth_append)

lemma write_u16_be_append [wire_simps]:
  "off + 1 < length b \<Longrightarrow> write_u16_be (b @ c) off v = write_u16_be b off v @ c"
  by (simp add: write_u16_be_def list_update_append)

lemma write_u16_be_read_same [wire_simps]:
  "off + 1 < length b \<Longrightarrow> write_u16_be b off (read_u16_be b off) = b"
  by (simp add: read_u16_be_def write_u16_be_def list_update_same_conv)

section \<open>The DNS message\<close>

text \<open>The record types named in \<^verbatim>\<open>namespace dns_type\<close>.\<close>

definition dns_type_A :: u16 where [eval_simps]: "dns_type_A = 1"
definition dns_type_CNAME :: u16 where [eval_simps]: "dns_type_CNAME = 5"
definition dns_type_AAAA :: u16 where [eval_simps]: "dns_type_AAAA = 28"
definition dns_type_OPT :: u16 where [eval_simps]: "dns_type_OPT = 41"

record header =
  hdr_id :: u16
  hdr_qr :: bool
  hdr_aa :: bool
  hdr_tc :: bool
  hdr_rd :: bool
  hdr_ra :: bool
  hdr_opcode :: byte
  hdr_rcode :: byte
  hdr_qdcount :: u16
  hdr_ancount :: u16
  hdr_nscount :: u16
  hdr_arcount :: u16

record question =
  q_name :: string
  q_type :: u16
  q_class :: u16

text \<open>
  \<open>rr_off\<close> is \<^verbatim>\<open>rdata.data() - packet.data()\<close>; \<open>rr_rdata\<close> the octets the span shows.
\<close>

record resource_record =
  rr_name :: string
  rr_type :: u16
  rr_class :: u16
  rr_ttl :: u32
  rr_off :: nat
  rr_rdata :: bytes

record dns_message =
  msg_header :: header
  questions :: "question list"
  answers :: "resource_record list"
  authority :: "resource_record list"
  additional :: "resource_record list"
  question_section_end :: nat

end
