(* ===== verification/Parser.thy ===== *)
theory Parser
  imports Wire
begin

text \<open>
  \<^verbatim>\<open>dns_parser.cpp\<close>: the bounds-checked decoder of DNS packets. \<open>decode_name_loop\<close> is the
  \<^verbatim>\<open>for (;;)\<close> of \<^verbatim>\<open>decode_name\<close> with its local variables as arguments; its termination proof is the
  argument that the hop counter and the buffer length bound the walk. \<open>parse_to\<close> is the body of
  \<^verbatim>\<open>parse\<close> together with the final value of its local \<^verbatim>\<open>cursor\<close>.
\<close>

section \<open>Definitions\<close>

definition kHeaderSize :: nat where [eval_simps]: "kHeaderSize = 12"
definition kMaxNameSize :: nat where [eval_simps]: "kMaxNameSize = 255"
definition kMaxPointerHops :: nat where [eval_simps]: "kMaxPointerHops = 16"

text \<open>The parser's own accessors check the range and throw.\<close>

definition checked_u16 :: "bytes \<Rightarrow> nat \<Rightarrow> u16 result" where
  [eval_simps]: "checked_u16 b off =
     (if off + 2 > length b then Inl (ParseError ''u16 out of bounds'')
      else Inr (read_u16_be b off))"

definition read_u32_be :: "bytes \<Rightarrow> nat \<Rightarrow> u32" where
  [eval_simps]: "read_u32_be b off = u32_of (b ! off) (b ! (off + 1)) (b ! (off + 2)) (b ! (off + 3))"

definition checked_u32 :: "bytes \<Rightarrow> nat \<Rightarrow> u32 result" where
  [eval_simps]: "checked_u32 b off =
     (if off + 4 > length b then Inl (ParseError ''u32 out of bounds'')
      else Inr (read_u32_be b off))"

text \<open>The 14-bit target of a compression pointer whose octets are \<open>len\<close> and \<open>lo\<close>.\<close>

definition pointer_target :: "byte \<Rightarrow> byte \<Rightarrow> nat" where
  [eval_simps]: "pointer_target len lo = unat (u16_of (len AND 0x3F) lo)"

text \<open>
  Appending a label to the text read so far: a dot unless it is the first, then the octets
  folded to lower case.
\<close>

definition append_label :: "string \<Rightarrow> bytes \<Rightarrow> string" where
  [eval_simps]: "append_label out lab = (if out = [] then [] else out @ ''.'') @ map (lower_char \<circ> byte_char) lab"

function decode_name_loop ::
    "bytes \<Rightarrow> nat \<Rightarrow> nat \<Rightarrow> string \<Rightarrow> bool \<Rightarrow> nat \<Rightarrow> (string \<times> nat) result" where
  "decode_name_loop pkt cursor hops out after_pointer cursor_inout =
     (if cursor \<ge> length pkt then Inl (ParseError ''name: offset out of bounds'')
      else let len = pkt ! cursor; top = len AND 0xC0 in
      if top = 0xC0 then
        (if hops + 1 > kMaxPointerHops
         then Inl (ParseError ''name: pointer loop exceeded 16 hops'')
         else if cursor + 1 \<ge> length pkt then Inl (ParseError ''name: pointer truncated'')
         else let target = pointer_target len (pkt ! (cursor + 1)) in
           if target \<ge> length pkt then Inl (ParseError ''name: pointer target out of bounds'')
           else decode_name_loop pkt target (hops + 1) out True
                  (if \<not> after_pointer then cursor + 2 else cursor_inout))
      else if top \<noteq> 0 then Inl (ParseError ''name: reserved label bits'')
      else if len = 0 then Inr (out, if \<not> after_pointer then cursor + 1 else cursor_inout)
      else if cursor + 1 + unat len > length pkt then Inl (ParseError ''name: label out of bounds'')
      else let out' = append_label out (take (unat len) (drop (cursor + 1) pkt)) in
        if length out' > kMaxNameSize then Inl (ParseError ''name: exceeds 255 bytes'')
        else decode_name_loop pkt (cursor + 1 + unat len) hops out' after_pointer cursor_inout)"
  by pat_completeness auto
termination
  by (relation "measures [\<lambda>(pkt, cursor, hops, _). kMaxPointerHops - hops,
                          \<lambda>(pkt, cursor, hops, _). length pkt - cursor]")
     (auto simp: kMaxPointerHops_def)

declare decode_name_loop.simps [simp del]

definition decode_name :: "bytes \<Rightarrow> nat \<Rightarrow> (string \<times> nat) result" where
  [eval_simps]: "decode_name pkt cursor = decode_name_loop pkt cursor 0 [] False cursor"

definition decode_name_at :: "bytes \<Rightarrow> nat \<Rightarrow> string result" where
  [eval_simps]: "decode_name_at pkt offset = bind_result (decode_name pkt offset) (\<lambda>(name, _). Inr name)"

text \<open>One iteration of the loop of \<^verbatim>\<open>parse_rr_section\<close>, and the loop.\<close>

definition parse_rr :: "bytes \<Rightarrow> nat \<Rightarrow> (resource_record \<times> nat) result" where
  [eval_simps]: "parse_rr pkt cursor =
     bind_result (decode_name pkt cursor) (\<lambda>(name, cursor).
     if cursor + 10 > length pkt then Inl (ParseError ''truncated resource record header'') else
     bind_result (checked_u16 pkt cursor) (\<lambda>type.
     bind_result (checked_u16 pkt (cursor + 2)) (\<lambda>rclass.
     bind_result (checked_u32 pkt (cursor + 4)) (\<lambda>ttl.
     bind_result (checked_u16 pkt (cursor + 8)) (\<lambda>rdlen.
     let cursor = cursor + 10 in
     if cursor + unat rdlen > length pkt then Inl (ParseError ''truncated RDATA'') else
     Inr (\<lparr>rr_name = name, rr_type = type, rr_class = rclass, rr_ttl = ttl,
           rr_off = cursor, rr_rdata = take (unat rdlen) (drop cursor pkt)\<rparr>,
          cursor + unat rdlen))))))"

fun parse_rr_section :: "bytes \<Rightarrow> nat \<Rightarrow> nat \<Rightarrow> (resource_record list \<times> nat) result" where
  "parse_rr_section pkt cursor 0 = Inr ([], cursor)"
| "parse_rr_section pkt cursor (Suc count) =
     bind_result (parse_rr pkt cursor) (\<lambda>(rr, cursor).
     bind_result (parse_rr_section pkt cursor count) (\<lambda>(rrs, cursor). Inr (rr # rrs, cursor)))"

definition parse_question :: "bytes \<Rightarrow> nat \<Rightarrow> (question \<times> nat) result" where
  [eval_simps]: "parse_question pkt cursor =
     bind_result (decode_name pkt cursor) (\<lambda>(name, cursor).
     if cursor + 4 > length pkt then Inl (ParseError ''truncated question'') else
     bind_result (checked_u16 pkt cursor) (\<lambda>qt.
     bind_result (checked_u16 pkt (cursor + 2)) (\<lambda>qc.
     Inr (\<lparr>q_name = name, q_type = qt, q_class = qc\<rparr>, cursor + 4))))"

fun parse_questions :: "bytes \<Rightarrow> nat \<Rightarrow> nat \<Rightarrow> (question list \<times> nat) result" where
  "parse_questions pkt cursor 0 = Inr ([], cursor)"
| "parse_questions pkt cursor (Suc count) =
     bind_result (parse_question pkt cursor) (\<lambda>(q, cursor).
     bind_result (parse_questions pkt cursor count) (\<lambda>(qs, cursor). Inr (q # qs, cursor)))"

text \<open>The header fields, in the order the code unpacks the flag word.\<close>

definition header_of_flags :: "u16 \<Rightarrow> u16 \<Rightarrow> u16 \<Rightarrow> u16 \<Rightarrow> u16 \<Rightarrow> u16 \<Rightarrow> header" where
  [eval_simps]: "header_of_flags i flags qd an ns ar =
     \<lparr>hdr_id = i,
      hdr_qr = drop_bit 15 flags AND 1 \<noteq> 0,
      hdr_aa = drop_bit 10 flags AND 1 \<noteq> 0,
      hdr_tc = drop_bit 9 flags AND 1 \<noteq> 0,
      hdr_rd = drop_bit 8 flags AND 1 \<noteq> 0,
      hdr_ra = drop_bit 7 flags AND 1 \<noteq> 0,
      hdr_opcode = ucast (drop_bit 11 flags AND 0x0F),
      hdr_rcode = ucast (flags AND 0x0F),
      hdr_qdcount = qd, hdr_ancount = an, hdr_nscount = ns, hdr_arcount = ar\<rparr>"

definition parse_header :: "bytes \<Rightarrow> header result" where
  [eval_simps]: "parse_header pkt =
     (if length pkt < kHeaderSize then Inl (ParseError ''truncated header'') else
      bind_result (checked_u16 pkt 0) (\<lambda>i.
      bind_result (checked_u16 pkt 2) (\<lambda>flags.
      bind_result (checked_u16 pkt 4) (\<lambda>qd.
      bind_result (checked_u16 pkt 6) (\<lambda>an.
      bind_result (checked_u16 pkt 8) (\<lambda>ns.
      bind_result (checked_u16 pkt 10) (\<lambda>ar.
      Inr (header_of_flags i flags qd an ns ar))))))))"

definition parse_to :: "bytes \<Rightarrow> (dns_message \<times> nat) result" where
  [eval_simps]: "parse_to packet =
     bind_result (parse_header packet) (\<lambda>h.
     bind_result (parse_questions packet kHeaderSize (unat (hdr_qdcount h))) (\<lambda>(qs, q_end).
     bind_result (parse_rr_section packet q_end (unat (hdr_ancount h))) (\<lambda>(an, c1).
     bind_result (parse_rr_section packet c1 (unat (hdr_nscount h))) (\<lambda>(ns, c2).
     bind_result (parse_rr_section packet c2 (unat (hdr_arcount h))) (\<lambda>(ar, c3).
     Inr (\<lparr>msg_header = h, questions = qs, answers = an, authority = ns, additional = ar,
           question_section_end = q_end\<rparr>, c3))))))"

definition parse :: "bytes \<Rightarrow> dns_message result" where
  [eval_simps]: "parse packet = bind_result (parse_to packet) (\<lambda>(msg, _). Inr msg)"

section \<open>Names\<close>

text \<open>
  Induction over a successful walk: the last octet reached is the root label, and every earlier
  step follows a pointer or consumes a label. The facts below are all instances of it.
\<close>

abbreviation target_at :: "bytes \<Rightarrow> nat \<Rightarrow> nat" where
  "target_at pkt cursor \<equiv> pointer_target (pkt ! cursor) (pkt ! (cursor + 1))"

abbreviation label_at :: "bytes \<Rightarrow> nat \<Rightarrow> bytes" where
  "label_at pkt cursor \<equiv> take (unat (pkt ! cursor)) (drop (cursor + 1) pkt)"

lemma decode_pointer:
  assumes "cursor + 1 < length pkt" "pkt ! cursor AND 0xC0 = 0xC0" "hops < kMaxPointerHops"
    "target_at pkt cursor < length pkt"
  shows "decode_name_loop pkt cursor hops out ap ci =
     decode_name_loop pkt (target_at pkt cursor) (hops + 1) out True (if \<not> ap then cursor + 2 else ci)"
  using assms by (subst decode_name_loop.simps) (simp add: Let_def)

lemma decode_root:
  assumes "cursor < length pkt" "pkt ! cursor = 0"
  shows "decode_name_loop pkt cursor hops out ap ci = Inr (out, if \<not> ap then cursor + 1 else ci)"
  using assms by (subst decode_name_loop.simps) (simp add: Let_def)

lemma decode_label:
  assumes "pkt ! cursor AND 0xC0 = 0" "pkt ! cursor \<noteq> 0" "cursor + 1 + unat (pkt ! cursor) \<le> length pkt"
    "length (append_label out (label_at pkt cursor)) \<le> kMaxNameSize"
  shows "decode_name_loop pkt cursor hops out ap ci =
     decode_name_loop pkt (cursor + 1 + unat (pkt ! cursor)) hops
       (append_label out (label_at pkt cursor)) ap ci"
  using assms by (subst decode_name_loop.simps) (auto simp: Let_def)

lemmas decode_steps = decode_pointer decode_root decode_label

lemma decode_success_cases:
  assumes "decode_name_loop pkt cursor hops out ap ci = Inr r"
  obtains
    (Pointer) "cursor + 1 < length pkt" "pkt ! cursor AND 0xC0 = 0xC0" "hops < kMaxPointerHops"
      "target_at pkt cursor < length pkt"
      "decode_name_loop pkt (target_at pkt cursor) (hops + 1) out True
         (if \<not> ap then cursor + 2 else ci) = Inr r"
  | (Root) "cursor < length pkt" "pkt ! cursor = 0" "r = (out, if \<not> ap then cursor + 1 else ci)"
  | (Label) "pkt ! cursor AND 0xC0 = 0" "pkt ! cursor \<noteq> 0"
      "cursor + 1 + unat (pkt ! cursor) \<le> length pkt"
      "length (append_label out (label_at pkt cursor)) \<le> kMaxNameSize"
      "decode_name_loop pkt (cursor + 1 + unat (pkt ! cursor)) hops
         (append_label out (label_at pkt cursor)) ap ci = Inr r"
  using assms
  by (subst (asm) (2) decode_name_loop.simps)
     (auto simp: Let_def not_less not_le less_eq_Suc_le split: if_splits)

lemma decode_success_induct [consumes 1, case_names Pointer Root Label]:
  assumes ok: "decode_name_loop pkt cursor hops out ap ci = Inr r"
    and Pointer: "\<And>cursor hops out ap ci. cursor + 1 < length pkt \<Longrightarrow> pkt ! cursor AND 0xC0 = 0xC0 \<Longrightarrow>
      hops < kMaxPointerHops \<Longrightarrow> target_at pkt cursor < length pkt \<Longrightarrow>
      P (target_at pkt cursor) (hops + 1) out True (if \<not> ap then cursor + 2 else ci) \<Longrightarrow>
      P cursor hops out ap ci"
    and Root: "\<And>cursor hops out ap ci. cursor < length pkt \<Longrightarrow> pkt ! cursor = 0 \<Longrightarrow>
      r = (out, if \<not> ap then cursor + 1 else ci) \<Longrightarrow> P cursor hops out ap ci"
    and Label: "\<And>cursor hops out ap ci. pkt ! cursor AND 0xC0 = 0 \<Longrightarrow> pkt ! cursor \<noteq> 0 \<Longrightarrow>
      cursor + 1 + unat (pkt ! cursor) \<le> length pkt \<Longrightarrow>
      length (append_label out (label_at pkt cursor)) \<le> kMaxNameSize \<Longrightarrow>
      P (cursor + 1 + unat (pkt ! cursor)) hops (append_label out (label_at pkt cursor)) ap ci \<Longrightarrow>
      P cursor hops out ap ci"
  shows "P cursor hops out ap ci"
  using ok Pointer Root Label
proof (induction pkt cursor hops out ap ci rule: decode_name_loop.induct)
  case (1 pkt cursor hops out ap ci)
  note rules = "1.prems"(2-)
  from "1.prems"(1) show ?case
  proof (cases rule: decode_success_cases)
    case Pointer
    have "P (target_at pkt cursor) (hops + 1) out True (if \<not> ap then cursor + 2 else ci)"
      by (rule "1.IH"(1) [OF _ refl refl _ _ _ refl _ Pointer(5) rules]) (use Pointer in auto)
    then show ?thesis by (rule rules(1) [OF Pointer(1-4)])
  next
    case Root
    then show ?thesis by (rule rules(2))
  next
    case Label
    have "P (cursor + 1 + unat (pkt ! cursor)) hops (append_label out (label_at pkt cursor)) ap ci"
      by (rule "1.IH"(2) [OF _ refl refl _ _ _ _ refl _ Label(5) rules]) (use Label in auto)
    then show ?thesis by (rule rules(3) [OF Label(1-4)])
  qed
qed

lemma decode_name_loop_cursor:
  "decode_name_loop pkt cursor hops out ap ci = Inr r \<Longrightarrow>
     (if ap then snd r = ci else cursor < snd r \<and> snd r \<le> length pkt)"
  by (induction rule: decode_success_induct) (auto split: if_splits)

lemma decode_name_loop_length:
  "decode_name_loop pkt cursor hops out ap ci = Inr r \<Longrightarrow> length out \<le> kMaxNameSize \<Longrightarrow>
     length (fst r) \<le> kMaxNameSize"
  by (induction rule: decode_success_induct) auto

lemma append_label_lower:
  "(\<forall>x \<in> set out. lower_char x = x) \<Longrightarrow> \<forall>x \<in> set (append_label out lab). lower_char x = x"
  by (auto simp: append_label_def)

lemma decode_name_loop_lower:
  "decode_name_loop pkt cursor hops out ap ci = Inr r \<Longrightarrow> \<forall>x \<in> set out. lower_char x = x \<Longrightarrow>
     \<forall>x \<in> set (fst r). lower_char x = x"
  by (induction rule: decode_success_induct) (auto dest: append_label_lower)

lemma decode_name_loop_append:
  "decode_name_loop pkt cursor hops out ap ci = Inr r \<Longrightarrow>
     decode_name_loop (pkt @ ext) cursor hops out ap ci = Inr r"
proof (induction rule: decode_success_induct)
  case (Pointer cursor hops out ap ci)
  then show ?case by (subst decode_pointer) auto
next
  case (Root cursor hops out ap ci)
  then show ?case by (subst decode_root) auto
next
  case (Label cursor hops out ap ci)
  then have "label_at (pkt @ ext) cursor = label_at pkt cursor" by auto
  with Label show ?case by (subst decode_label) auto
qed

lemma decode_name_bounds:
  assumes "decode_name pkt cursor = Inr (nm, c)"
  shows "cursor < c" "c \<le> length pkt" "length nm \<le> kMaxNameSize" "\<forall>x \<in> set nm. lower_char x = x"
  using assms decode_name_loop_cursor [of pkt cursor 0 "[]" False cursor "(nm, c)"]
    decode_name_loop_length [of pkt cursor 0 "[]" False cursor "(nm, c)"]
    decode_name_loop_lower [of pkt cursor 0 "[]" False cursor "(nm, c)"]
  by (auto simp: decode_name_def)

lemma decode_name_append:
  "decode_name pkt cursor = Inr r \<Longrightarrow> decode_name (pkt @ ext) cursor = Inr r"
  by (simp add: decode_name_def decode_name_loop_append)

section \<open>Uncompressed names\<close>

text \<open>
  The wire form of a sequence of labels and the text it stands for. A label has 1 to 63 octets,
  so its length octet has the top bits clear.
\<close>

definition label_ok :: "bytes \<Rightarrow> bool" where
  [eval_simps]: "label_ok lab \<longleftrightarrow> 0 < length lab \<and> length lab \<le> 63"

definition enc_labels :: "bytes list \<Rightarrow> bytes" where
  [eval_simps]: "enc_labels ls = concat (map (\<lambda>l. word_of_nat (length l) # l) ls)"

abbreviation labels_text :: "bytes list \<Rightarrow> string" where
  "labels_text ls \<equiv> foldl append_label [] ls"

lemma enc_labels_simps [simp]:
  "enc_labels [] = []" "enc_labels (l # ls) = word_of_nat (length l) # l @ enc_labels ls"
  by (simp_all add: enc_labels_def)

lemma bit_C0_iff: "bit (0xC0 :: byte) k \<longleftrightarrow> k = 6 \<or> k = 7"
proof -
  have "(0xC0 :: byte) = push_bit 6 3" by simp
  also have "bit (push_bit 6 3 :: byte) k \<longleftrightarrow> k = 6 \<or> k = 7"
    by (auto simp: bit_simps bit_numeral_rec split: nat.splits)
  finally show ?thesis .
qed

lemma small_length_top_bits:
  assumes "n < 64"
  shows "(word_of_nat n :: byte) AND 0xC0 = 0"
proof (rule bit_word_eqI)
  fix k assume "k < LENGTH(8)"
  have "\<not> bit n k" if "6 \<le> k"
  proof -
    have "n < 2 ^ k" using assms power_increasing [OF that, of "2::nat"] by simp
    then show ?thesis by (simp add: bit_iff_odd)
  qed
  then show "bit ((word_of_nat n :: byte) AND 0xC0) k = bit 0 k"
    by (simp only: bit_and_iff bit_C0_iff bit_of_nat_iff bit_0_eq) auto
qed

lemma label_ok_length_byte:
  assumes "label_ok l"
  shows "(word_of_nat (length l) :: byte) AND 0xC0 = 0" "(word_of_nat (length l) :: byte) \<noteq> 0"
    "unat (word_of_nat (length l) :: byte) = length l"
proof -
  show u: "unat (word_of_nat (length l) :: byte) = length l"
    using assms by (simp add: label_ok_def unat_of_nat take_bit_eq_mod)
  show "(word_of_nat (length l) :: byte) AND 0xC0 = 0"
    using assms by (intro small_length_top_bits) (simp add: label_ok_def)
  show "(word_of_nat (length l) :: byte) \<noteq> 0"
    using u assms by (auto simp: label_ok_def)
qed

lemma length_append_label_ge: "length out \<le> length (append_label out l)"
  by (simp add: append_label_def)

lemma length_foldl_append_label_ge: "length out \<le> length (foldl append_label out ls)"
  by (induction ls arbitrary: out) (auto intro: order_trans [OF length_append_label_ge])

lemma decode_enc_labels:
  assumes "list_all label_ok ls" "length (foldl append_label out ls) \<le> kMaxNameSize"
  shows "decode_name_loop (pre @ enc_labels ls @ 0 # post) (length pre) hops out ap ci =
     Inr (foldl append_label out ls, if \<not> ap then length pre + length (enc_labels ls) + 1 else ci)"
  using assms
proof (induction ls arbitrary: pre out)
  case Nil
  then show ?case by (simp add: decode_root)
next
  case (Cons l ls)
  let ?pkt = "pre @ enc_labels (l # ls) @ 0 # post"
  let ?c = "length pre"
  have l: "label_ok l" using Cons.prems by simp
  have here: "?pkt ! ?c = word_of_nat (length l)" by (simp add: nth_append)
  have lab: "label_at ?pkt ?c = l" by (simp add: label_ok_length_byte(3) [OF l])
  have fits: "length (append_label out l) \<le> kMaxNameSize"
    using Cons.prems(2) length_foldl_append_label_ge [of "append_label out l" ls] by simp
  have "decode_name_loop ?pkt ?c hops out ap ci =
      decode_name_loop ?pkt (?c + 1 + length l) hops (append_label out l) ap ci"
    using decode_label [of ?pkt ?c out hops ap ci] fits lab
    by (simp add: label_ok_length_byte [OF l])
  also have "\<dots> = Inr (foldl append_label (append_label out l) ls,
      if \<not> ap then ?c + 1 + length l + length (enc_labels ls) + 1 else ci)"
    using Cons.IH [of "append_label out l" "pre @ word_of_nat (length l) # l"] Cons.prems by simp
  finally show ?case by simp
qed

lemma decode_name_enc_labels:
  assumes "list_all label_ok ls" "length (labels_text ls) \<le> kMaxNameSize"
  shows "decode_name (pre @ enc_labels ls @ 0 # post) (length pre) =
     Inr (labels_text ls, length pre + length (enc_labels ls) + 1)"
  using decode_enc_labels [OF assms, of pre post 0 False] by (simp add: decode_name_def)

section \<open>Records, questions and whole packets\<close>

lemma checked_u16_eq_Inr [simp]: "checked_u16 b off = Inr v \<longleftrightarrow> off + 2 \<le> length b \<and> v = read_u16_be b off"
  by (auto simp: checked_u16_def)

lemma checked_u32_eq_Inr [simp]: "checked_u32 b off = Inr v \<longleftrightarrow> off + 4 \<le> length b \<and> v = read_u32_be b off"
  by (auto simp: checked_u32_def)

lemma read_u32_be_append [wire_simps]:
  "off + 3 < length b \<Longrightarrow> read_u32_be (b @ c) off = read_u32_be b off"
  by (simp add: read_u32_be_def)

lemma read_u32_be_prefix [wire_simps]: "read_u32_be (pre @ b) (length pre + k) = read_u32_be b k"
  by (simp add: read_u32_be_def nth_append)

lemma parse_rr_eq_Inr:
  "parse_rr pkt cursor = Inr (rr, c') \<longleftrightarrow>
     (\<exists>name c. decode_name pkt cursor = Inr (name, c) \<and>
        c + 10 + unat (read_u16_be pkt (c + 8)) \<le> length pkt \<and>
        c' = c + 10 + unat (read_u16_be pkt (c + 8)) \<and>
        rr = \<lparr>rr_name = name, rr_type = read_u16_be pkt c, rr_class = read_u16_be pkt (c + 2),
              rr_ttl = read_u32_be pkt (c + 4), rr_off = c + 10,
              rr_rdata = take (unat (read_u16_be pkt (c + 8))) (drop (c + 10) pkt)\<rparr>)"
  by (cases "decode_name pkt cursor") (auto simp: parse_rr_def Let_def split: if_splits)

lemma parse_question_eq_Inr:
  "parse_question pkt cursor = Inr (q, c') \<longleftrightarrow>
     (\<exists>name c. decode_name pkt cursor = Inr (name, c) \<and> c + 4 \<le> length pkt \<and> c' = c + 4 \<and>
        q = \<lparr>q_name = name, q_type = read_u16_be pkt c, q_class = read_u16_be pkt (c + 2)\<rparr>)"
  by (cases "decode_name pkt cursor") (auto simp: parse_question_def split: if_splits)

lemma parse_rr_append:
  assumes "parse_rr pkt cursor = Inr r"
  shows "parse_rr (pkt @ ext) cursor = Inr r"
proof -
  obtain rr c' where r: "r = (rr, c')" by (cases r)
  with assms obtain name c where d: "decode_name pkt cursor = Inr (name, c)"
    and "c + 10 + unat (read_u16_be pkt (c + 8)) \<le> length pkt"
    and "c' = c + 10 + unat (read_u16_be pkt (c + 8))"
    and "rr = \<lparr>rr_name = name, rr_type = read_u16_be pkt c, rr_class = read_u16_be pkt (c + 2),
              rr_ttl = read_u32_be pkt (c + 4), rr_off = c + 10,
              rr_rdata = take (unat (read_u16_be pkt (c + 8))) (drop (c + 10) pkt)\<rparr>"
    by (auto simp: parse_rr_eq_Inr)
  with decode_name_append [OF d, of ext] show ?thesis
    by (simp add: r parse_rr_eq_Inr wire_simps)
qed

lemma parse_rr_section_append:
  "parse_rr_section pkt cursor n = Inr r \<Longrightarrow> parse_rr_section (pkt @ ext) cursor n = Inr r"
proof (induction n arbitrary: cursor r)
  case (Suc n)
  then obtain rr c rrs c' where "parse_rr pkt cursor = Inr (rr, c)"
    and "parse_rr_section pkt c n = Inr (rrs, c')" and "r = (rr # rrs, c')" by auto
  with Suc.IH show ?case by (simp add: parse_rr_append)
qed simp

lemma parse_question_append:
  assumes "parse_question pkt cursor = Inr r"
  shows "parse_question (pkt @ ext) cursor = Inr r"
proof -
  obtain q c' where r: "r = (q, c')" by (cases r)
  with assms obtain name c where d: "decode_name pkt cursor = Inr (name, c)"
    and "c + 4 \<le> length pkt" "c' = c + 4"
    and "q = \<lparr>q_name = name, q_type = read_u16_be pkt c, q_class = read_u16_be pkt (c + 2)\<rparr>"
    by (auto simp: parse_question_eq_Inr)
  with decode_name_append [OF d, of ext] show ?thesis
    by (simp add: r parse_question_eq_Inr wire_simps)
qed

lemma parse_questions_append:
  "parse_questions pkt cursor n = Inr r \<Longrightarrow> parse_questions (pkt @ ext) cursor n = Inr r"
proof (induction n arbitrary: cursor r)
  case (Suc n)
  then obtain q c qs c' where q: "parse_question pkt cursor = Inr (q, c)"
    and "parse_questions pkt c n = Inr (qs, c')" and "r = (q # qs, c')" by auto
  moreover from q have "parse_question (pkt @ ext) cursor = Inr (q, c)"
    by (rule parse_question_append)
  ultimately show ?case using Suc.IH by simp
qed simp

lemma parse_header_eq_Inr:
  "parse_header pkt = Inr h \<longleftrightarrow> kHeaderSize \<le> length pkt \<and>
     h = header_of_flags (read_u16_be pkt 0) (read_u16_be pkt 2) (read_u16_be pkt 4)
           (read_u16_be pkt 6) (read_u16_be pkt 8) (read_u16_be pkt 10)"
  by (auto simp: parse_header_def kHeaderSize_def)

lemma parse_header_append: "parse_header pkt = Inr h \<Longrightarrow> parse_header (pkt @ ext) = Inr h"
  by (auto simp: parse_header_eq_Inr kHeaderSize_def wire_simps)

lemma parse_to_eq_Inr:
  "parse_to pkt = Inr (m, e) \<longleftrightarrow>
     (\<exists>c1 c2. parse_header pkt = Inr (msg_header m) \<and>
        parse_questions pkt kHeaderSize (unat (hdr_qdcount (msg_header m)))
          = Inr (questions m, question_section_end m) \<and>
        parse_rr_section pkt (question_section_end m) (unat (hdr_ancount (msg_header m)))
          = Inr (answers m, c1) \<and>
        parse_rr_section pkt c1 (unat (hdr_nscount (msg_header m))) = Inr (authority m, c2) \<and>
        parse_rr_section pkt c2 (unat (hdr_arcount (msg_header m))) = Inr (additional m, e))"
  by (cases m) (auto simp: parse_to_def)

lemma parse_eq_Inr: "parse pkt = Inr m \<longleftrightarrow> (\<exists>e. parse_to pkt = Inr (m, e))"
  by (auto simp: parse_def)

lemma parse_to_append: "parse_to pkt = Inr r \<Longrightarrow> parse_to (pkt @ ext) = Inr r"
  by (cases r)
     (auto simp: parse_to_eq_Inr intro: parse_header_append parse_questions_append parse_rr_section_append)

section \<open>Well-formed messages\<close>

text \<open>
  \<open>rr_wf pkt rr\<close>: the record's span lies inside the packet, shows the octets there, and the ten
  octets before it hold the fields. \<open>rr_chain c rrs e\<close>: the records lie one after the other between
  the offsets \<open>c\<close> and \<open>e\<close>, each with a name of at least one octet and its fixed fields before its data.
\<close>

definition name_wf :: "string \<Rightarrow> bool" where
  [eval_simps]: "name_wf nm \<longleftrightarrow> length nm \<le> kMaxNameSize \<and> list_all (\<lambda>c. lower_char c = c) nm"

definition rr_wf :: "bytes \<Rightarrow> resource_record \<Rightarrow> bool" where
  "rr_wf pkt rr \<longleftrightarrow> name_wf (rr_name rr) \<and>
     11 \<le> rr_off rr \<and> rr_off rr + length (rr_rdata rr) \<le> length pkt \<and>
     rr_rdata rr = take (length (rr_rdata rr)) (drop (rr_off rr) pkt) \<and>
     rr_type rr = read_u16_be pkt (rr_off rr - 10) \<and> rr_class rr = read_u16_be pkt (rr_off rr - 8) \<and>
     rr_ttl rr = read_u32_be pkt (rr_off rr - 6) \<and>
     length (rr_rdata rr) = unat (read_u16_be pkt (rr_off rr - 2))"

fun rr_chain :: "nat \<Rightarrow> resource_record list \<Rightarrow> nat \<Rightarrow> bool" where
  "rr_chain c [] e \<longleftrightarrow> c = e"
| "rr_chain c (rr # rrs) e \<longleftrightarrow> c + 11 \<le> rr_off rr \<and> rr_chain (rr_off rr + length (rr_rdata rr)) rrs e"

definition msg_wf :: "bytes \<Rightarrow> dns_message \<Rightarrow> bool" where
  "msg_wf pkt m \<longleftrightarrow>
     length (questions m) = unat (hdr_qdcount (msg_header m)) \<and>
     length (answers m) = unat (hdr_ancount (msg_header m)) \<and>
     length (authority m) = unat (hdr_nscount (msg_header m)) \<and>
     length (additional m) = unat (hdr_arcount (msg_header m)) \<and>
     list_all (\<lambda>q. name_wf (q_name q)) (questions m) \<and>
     list_all (rr_wf pkt) (answers m @ authority m @ additional m) \<and>
     kHeaderSize \<le> question_section_end m \<and> question_section_end m \<le> length pkt \<and>
     (\<exists>e \<le> length pkt. rr_chain (question_section_end m) (answers m @ authority m @ additional m) e)"

lemma decode_name_wf: "decode_name pkt cursor = Inr (nm, c) \<Longrightarrow> name_wf nm"
  by (auto simp: name_wf_def list_all_iff dest: decode_name_bounds)

lemma parse_rr_wf:
  assumes "parse_rr pkt cursor = Inr (rr, c)"
  shows "rr_wf pkt rr" "cursor + 11 \<le> rr_off rr" "c = rr_off rr + length (rr_rdata rr)" "c \<le> length pkt"
proof -
  from assms obtain name c0 where d: "decode_name pkt cursor = Inr (name, c0)"
    and *: "c0 + 10 + unat (read_u16_be pkt (c0 + 8)) \<le> length pkt"
      "c = c0 + 10 + unat (read_u16_be pkt (c0 + 8))"
      "rr = \<lparr>rr_name = name, rr_type = read_u16_be pkt c0, rr_class = read_u16_be pkt (c0 + 2),
              rr_ttl = read_u32_be pkt (c0 + 4), rr_off = c0 + 10,
              rr_rdata = take (unat (read_u16_be pkt (c0 + 8))) (drop (c0 + 10) pkt)\<rparr>"
    by (auto simp: parse_rr_eq_Inr)
  note b = decode_name_bounds [OF d] decode_name_wf [OF d]
  have len: "length (rr_rdata rr) = unat (read_u16_be pkt (c0 + 8))" using * by simp
  then show "c = rr_off rr + length (rr_rdata rr)" using * by simp
  show "cursor + 11 \<le> rr_off rr" "c \<le> length pkt" using b * by simp_all
  show "rr_wf pkt rr" unfolding rr_wf_def len using b * by (simp add: add.commute)
qed

lemma parse_rr_section_wf:
  assumes "parse_rr_section pkt c n = Inr (rrs, e)"
  shows "length rrs = n \<and> list_all (rr_wf pkt) rrs \<and> rr_chain c rrs e \<and> (c \<le> length pkt \<longrightarrow> e \<le> length pkt)"
  using assms
proof (induction n arbitrary: c rrs)
  case (Suc n)
  then obtain rr c1 rrs' where rr: "parse_rr pkt c = Inr (rr, c1)"
    and rrs': "parse_rr_section pkt c1 n = Inr (rrs', e)" and "rrs = rr # rrs'" by auto
  with Suc.IH [OF rrs'] parse_rr_wf [OF rr] show ?case by simp
qed simp

lemma parse_questions_wf:
  assumes "parse_questions pkt c n = Inr (qs, e)"
  shows "length qs = n \<and> list_all (\<lambda>q. name_wf (q_name q)) qs \<and> c \<le> e \<and> (c \<le> length pkt \<longrightarrow> e \<le> length pkt)"
  using assms
proof (induction n arbitrary: c qs)
  case (Suc n)
  then obtain q c1 qs' where q: "parse_question pkt c = Inr (q, c1)"
    and qs': "parse_questions pkt c1 n = Inr (qs', e)" and qs: "qs = q # qs'" by auto
  from q obtain c0 where d: "decode_name pkt c = Inr (q_name q, c0)" and "c1 = c0 + 4" "c1 \<le> length pkt"
    by (auto simp: parse_question_eq_Inr)
  with Suc.IH [OF qs'] qs decode_name_wf [OF d] decode_name_bounds [OF d] show ?case by simp
qed simp

lemma rr_chain_append: "rr_chain c xs d \<Longrightarrow> rr_chain d ys e \<Longrightarrow> rr_chain c (xs @ ys) e"
  by (induction xs arbitrary: c) auto

lemma parse_to_wf:
  assumes "parse_to pkt = Inr (m, e)"
  shows "msg_wf pkt m" "e \<le> length pkt"
    "rr_chain (question_section_end m) (answers m @ authority m @ additional m) e"
proof -
  from assms obtain c1 c2 where h: "parse_header pkt = Inr (msg_header m)"
    and q: "parse_questions pkt kHeaderSize (unat (hdr_qdcount (msg_header m)))
          = Inr (questions m, question_section_end m)"
    and s: "parse_rr_section pkt (question_section_end m) (unat (hdr_ancount (msg_header m)))
          = Inr (answers m, c1)"
      "parse_rr_section pkt c1 (unat (hdr_nscount (msg_header m))) = Inr (authority m, c2)"
      "parse_rr_section pkt c2 (unat (hdr_arcount (msg_header m))) = Inr (additional m, e)"
    by (auto simp: parse_to_eq_Inr)
  note wfs = parse_questions_wf [OF q] parse_rr_section_wf [OF s(1)]
    parse_rr_section_wf [OF s(2)] parse_rr_section_wf [OF s(3)]
  have len: "kHeaderSize \<le> length pkt" using h by (simp add: parse_header_eq_Inr)
  show chain: "rr_chain (question_section_end m) (answers m @ authority m @ additional m) e"
    using wfs by (blast intro: rr_chain_append)
  show e: "e \<le> length pkt" using wfs len by simp
  show "msg_wf pkt m" unfolding msg_wf_def
    using wfs len chain e by (auto simp: list_all_iff)
qed

section \<open>Sample packets\<close>

text \<open>
  A query for \<^verbatim>\<open>A IN Ad.X\<close> (id \<^verbatim>\<open>0x1234\<close>, RD set) and a response carrying the CNAME record
  \<^verbatim>\<open>ad.x -> t.y\<close> whose owner name is a compression pointer; the instances below evaluate on them.
\<close>

definition sample_query :: bytes where
  [eval_simps]: "sample_query =
     [0x12, 0x34, 0x01, 0x00, 0, 1, 0, 0, 0, 0, 0, 0, 2, 0x41, 0x64, 1, 0x58, 0, 0, 1, 0, 1]"

definition sample_response :: bytes where
  [eval_simps]: "sample_response =
     [0x12, 0x34, 0x81, 0x80, 0, 1, 0, 1, 0, 0, 0, 0, 2, 0x41, 0x64, 1, 0x58, 0, 0, 1, 0, 1,
      0xC0, 0x0C, 0, 5, 0, 1, 0, 0, 1, 0x2C, 0, 5, 1, 0x74, 1, 0x79, 0]"

lemma parse_sample_query:
  "parse sample_query = Inr
     \<lparr>msg_header = \<lparr>hdr_id = 0x1234, hdr_qr = False, hdr_aa = False, hdr_tc = False, hdr_rd = True,
        hdr_ra = False, hdr_opcode = 0, hdr_rcode = 0, hdr_qdcount = 1, hdr_ancount = 0,
        hdr_nscount = 0, hdr_arcount = 0\<rparr>,
      questions = [\<lparr>q_name = ''ad.x'', q_type = 1, q_class = 1\<rparr>],
      answers = [], authority = [], additional = [], question_section_end = 22\<rparr>"
  by (simp add: eval_simps decode_name_loop.simps char_of_eq_iff)

lemma parse_sample_response:
  "parse sample_response = Inr
     \<lparr>msg_header = \<lparr>hdr_id = 0x1234, hdr_qr = True, hdr_aa = False, hdr_tc = False, hdr_rd = True,
        hdr_ra = True, hdr_opcode = 0, hdr_rcode = 0, hdr_qdcount = 1, hdr_ancount = 1,
        hdr_nscount = 0, hdr_arcount = 0\<rparr>,
      questions = [\<lparr>q_name = ''ad.x'', q_type = 1, q_class = 1\<rparr>],
      answers = [\<lparr>rr_name = ''ad.x'', rr_type = 5, rr_class = 1, rr_ttl = 300, rr_off = 34,
                   rr_rdata = [1, 0x74, 1, 0x79, 0]\<rparr>],
      authority = [], additional = [], question_section_end = 22\<rparr>"
  by (simp add: eval_simps decode_name_loop.simps char_of_eq_iff)

section \<open>Properties\<close>

text \<open>C26: Parser soundness. Whenever \<^verbatim>\<open>parse\<close> accepts a packet, the section sizes are the header counts,
  every name is at most 255 octets of lower-case text, every record's data span lies inside the
  packet and shows exactly the octets there, the type, class, TTL and length fields sit in the ten
  octets before the span, and the records lie one after the other after the question section. No
  accepted packet lets a consumer read outside the buffer.
\<close>

theorem parse_sound: "parse pkt = Inr m \<Longrightarrow> msg_wf pkt m"
  by (auto simp: parse_eq_Inr dest: parse_to_wf)

theorem parse_sound_witness: "\<exists>m. parse sample_response = Inr m \<and> msg_wf sample_response m"
  using parse_sound [OF parse_sample_response] parse_sample_response by blast

text \<open>Octets after the last record are never looked at: a packet that parses still parses to the same
  message whatever is appended to it.
\<close>

theorem parse_ignores_trailing: "parse pkt = Inr m \<Longrightarrow> parse (pkt @ ext) = Inr m"
  by (auto simp: parse_eq_Inr dest: parse_to_append [of _ _ ext])

theorem parse_ignores_trailing_witness: "\<exists>m. parse sample_query = Inr m \<and> parse (sample_query @ [1, 2, 3]) = Inr m"
  using parse_ignores_trailing [OF parse_sample_query, of "[1, 2, 3]"] parse_sample_query by blast

end
