(* ===== verification/Cache.thy ===== *)
theory Cache
  imports Parser "HOL-Library.Multiset"
begin

text \<open>
  \<^verbatim>\<open>cache.cpp\<close>: the TTL cache with LRU eviction. Times are nanoseconds of the steady clock, read by the
  caller and passed as \<open>now\<close>. The \<^verbatim>\<open>unordered_map\<close> is an association list, the \<^verbatim>\<open>std::list\<close> a list of
  nodes, each with an identity; the iterator an entry keeps is the identity of its node, so that
  erasing or splicing through a stored iterator acts on that node only. That the node an entry points
  to carries the entry's own key is an invariant, not a modelling assumption. Every operation runs
  under the exclusive lock and is one atomic step; the statistics counters are natural numbers.
\<close>

section \<open>Definitions\<close>

subsection \<open>TTLs of a response\<close>

definition kTypeSOA :: u16 where [eval_simps]: "kTypeSOA = 6"
definition kRcodeServFail :: byte where [eval_simps]: "kRcodeServFail = 2"
definition kRcodeNotImp :: byte where [eval_simps]: "kRcodeNotImp = 4"
definition kRcodeNxDomain :: byte where [eval_simps]: "kRcodeNxDomain = 3"
definition kTtlBackOffset :: nat where [eval_simps]: "kTtlBackOffset = 6"

definition collect_section_offsets :: "resource_record list \<Rightarrow> nat list" where
  [eval_simps]: "collect_section_offsets section =
     map (\<lambda>rr. rr_off rr - kTtlBackOffset) (filter (\<lambda>rr. rr_type rr \<noteq> dns_type_OPT) section)"

definition read_soa_minimum :: "resource_record \<Rightarrow> u32 option" where
  [eval_simps]: "read_soa_minimum soa =
     (if length (rr_rdata soa) < 4 then None
      else Some (read_u32_be (rr_rdata soa) (length (rr_rdata soa) - 4)))"

record cache_key =
  key_qname :: string
  key_qtype :: u16
  key_qclass :: u16

definition make_cache_key :: "dns_message \<Rightarrow> cache_key option" where
  [eval_simps]: "make_cache_key msg =
     (if length (questions msg) \<noteq> 1 then None
      else let q = questions msg ! 0 in
        Some \<lparr>key_qname = q_name q, key_qtype = q_type q, key_qclass = q_class q\<rparr>)"

text \<open>The lambda \<^verbatim>\<open>scan\<close> on its captured variables \<^verbatim>\<open>min_ttl\<close> and \<^verbatim>\<open>saw_any\<close>.\<close>

definition scan_ttls :: "resource_record list \<Rightarrow> u32 \<times> bool \<Rightarrow> u32 \<times> bool" where
  [eval_simps]: "scan_ttls section st =
     foldl (\<lambda>(min_ttl, saw_any) rr.
       if rr_type rr = dns_type_OPT then (min_ttl, saw_any) else (min min_ttl (rr_ttl rr), True)) st section"

text \<open>The loop over the authority section that clamps by the first SOA record.\<close>

fun clamp_soa :: "resource_record list \<Rightarrow> u32 \<Rightarrow> u32" where
  "clamp_soa [] min_ttl = min_ttl"
| "clamp_soa (rr # rrs) min_ttl =
     (if rr_type rr \<noteq> kTypeSOA then clamp_soa rrs min_ttl
      else case read_soa_minimum rr of None \<Rightarrow> min_ttl | Some minimum \<Rightarrow> min min_ttl minimum)"

definition is_negative :: "dns_message \<Rightarrow> bool" where
  [eval_simps]: "is_negative response \<longleftrightarrow>
     hdr_rcode (msg_header response) = kRcodeNxDomain \<or> answers response = [] \<and> authority response \<noteq> []"

definition compute_cache_ttl :: "dns_message \<Rightarrow> int" where
  [eval_simps]: "compute_cache_ttl response =
     (if hdr_rcode (msg_header response) = kRcodeServFail \<or> hdr_rcode (msg_header response) = kRcodeNotImp then 0
      else let (min_ttl, saw_any) = scan_ttls (authority response) (scan_ttls (answers response) (- 1, False)) in
        if \<not> saw_any \<or> min_ttl = 0 then 0
        else if is_negative response then
          let min_ttl = min (clamp_soa (authority response) min_ttl) 86400 in
          if min_ttl = 0 then 0 else uint min_ttl
        else uint min_ttl)"

definition collect_ttl_offsets :: "dns_message \<Rightarrow> nat list" where
  [eval_simps]: "collect_ttl_offsets parsed =
     collect_section_offsets (answers parsed) @ collect_section_offsets (authority parsed)
     @ collect_section_offsets (additional parsed)"

definition rewrite_ttls :: "bytes \<Rightarrow> nat list \<Rightarrow> u32 \<Rightarrow> bytes" where
  [eval_simps]: "rewrite_ttls response_bytes offsets ttl =
     foldl (\<lambda>b off. if off + 4 > length b then b
        else b[off := u32_byte 24 ttl, off + 1 := u32_byte 16 ttl, off + 2 := u32_byte 8 ttl, off + 3 := u32_byte 0 ttl])
       response_bytes offsets"

text \<open>The delay \<^verbatim>\<open>apply_jitter\<close> sleeps for; \<open>dist\<close> is the draw of the uniform distribution over its bounds.\<close>

definition apply_jitter :: "(int \<Rightarrow> int \<Rightarrow> int) \<Rightarrow> int \<Rightarrow> int" where
  [eval_simps]: "apply_jitter dist max_jitter = (if max_jitter \<le> 0 then 0 else dist 0 (signed_take_bit 31 max_jitter))"

subsection \<open>The cache\<close>

record cache_config =
  jitter_max :: int
  sweep_interval :: int
  max_entries :: nat

record entry =
  entry_response :: bytes
  expires_at :: int
  ttl_offsets :: "nat list"
  lru_it :: nat

record dns_cache =
  cache_cfg :: cache_config
  cmap :: "(cache_key \<times> entry) list"
  lru :: "(nat \<times> cache_key) list"
  next_node :: nat
  cache_hits :: nat
  cache_misses :: nat
  cache_inserts :: nat
  lru_evictions :: nat
  expired_sweeps :: nat

definition empty_cache :: "cache_config \<Rightarrow> dns_cache" where
  [eval_simps]: "empty_cache c = \<lparr>cache_cfg = c, cmap = [], lru = [], next_node = 0,
     cache_hits = 0, cache_misses = 0, cache_inserts = 0, lru_evictions = 0, expired_sweeps = 0\<rparr>"

text \<open>\<^verbatim>\<open>map_.erase(it)\<close> for the entry of a key, \<^verbatim>\<open>lru_.erase(it)\<close> for a node.\<close>

definition map_erase :: "cache_key \<Rightarrow> (cache_key \<times> entry) list \<Rightarrow> (cache_key \<times> entry) list" where
  [eval_simps]: "map_erase key kvs = filter (\<lambda>(k, _). k \<noteq> key) kvs"

definition lru_erase :: "nat \<Rightarrow> (nat \<times> cache_key) list \<Rightarrow> (nat \<times> cache_key) list" where
  [eval_simps]: "lru_erase it nodes = filter (\<lambda>(i, _). i \<noteq> it) nodes"

definition lru_splice_back :: "nat \<Rightarrow> (nat \<times> cache_key) list \<Rightarrow> (nat \<times> cache_key) list" where
  [eval_simps]: "lru_splice_back it nodes = lru_erase it nodes @ filter (\<lambda>(i, _). i = it) nodes"

definition map_emplace :: "cache_key \<Rightarrow> entry \<Rightarrow> (cache_key \<times> entry) list \<Rightarrow> (cache_key \<times> entry) list" where
  [eval_simps]: "map_emplace key e kvs = (if map_of kvs key = None then (key, e) # kvs else kvs)"

definition drop_entry :: "cache_key \<Rightarrow> entry \<Rightarrow> dns_cache \<Rightarrow> dns_cache" where
  [eval_simps]: "drop_entry key e c = c\<lparr>lru := lru_erase (lru_it e) (lru c), cmap := map_erase key (cmap c)\<rparr>"

definition evict_one_locked :: "dns_cache \<Rightarrow> dns_cache" where
  [eval_simps]: "evict_one_locked c =
     (case lru c of
        [] \<Rightarrow> c
      | (_, victim) # rest \<Rightarrow>
          c\<lparr>lru := rest, cmap := map_erase victim (cmap c), lru_evictions := lru_evictions c + 1\<rparr>)"

text \<open>The loop \<^verbatim>\<open>while (map_.size() >= cfg_.max_entries) evict_one_locked();\<close>, \<open>None\<close> when it never ends.\<close>

partial_function (option) make_room :: "dns_cache \<Rightarrow> dns_cache option" where
  "make_room c = (if length (cmap c) \<ge> max_entries (cache_cfg c) then make_room (evict_one_locked c) else Some c)"

definition cache_insert :: "int \<Rightarrow> cache_key \<Rightarrow> bytes \<Rightarrow> dns_message \<Rightarrow> int \<Rightarrow> dns_cache \<Rightarrow> dns_cache option" where
  [eval_simps]: "cache_insert now key resp parsed ttl c =
     (if ttl \<le> 0 then Some c
      else
        let c = (case map_of (cmap c) key of None \<Rightarrow> c | Some old \<Rightarrow> drop_entry key old c) in
        case make_room c of
          None \<Rightarrow> None
        | Some c \<Rightarrow>
            let e = \<lparr>entry_response = resp, expires_at = now + ttl * 1000000000,
                     ttl_offsets = collect_ttl_offsets parsed, lru_it = next_node c\<rparr> in
            Some (c\<lparr>lru := lru c @ [(next_node c, key)], next_node := next_node c + 1,
                    cmap := map_emplace key e (cmap c), cache_inserts := cache_inserts c + 1\<rparr>))"

definition set_id :: "bytes \<Rightarrow> u16 \<Rightarrow> bytes" where
  [eval_simps]: "set_id b client_id = (if length b \<ge> 2 then write_u16_be b 0 client_id else b)"

text \<open>The bytes a hit returns: a copy with the remaining seconds in its TTL fields and the client's id.\<close>

definition serve_entry :: "int \<Rightarrow> u16 \<Rightarrow> entry \<Rightarrow> bytes" where
  [eval_simps]: "serve_entry now client_id e =
     (let remaining = (expires_at e - now) div 1000000000;
          ttl = word_of_int (min remaining (2 ^ 32 - 1))
      in set_id (rewrite_ttls (entry_response e) (ttl_offsets e) ttl) client_id)"

definition cache_lookup :: "int \<Rightarrow> cache_key \<Rightarrow> u16 \<Rightarrow> dns_cache \<Rightarrow> bytes option \<times> dns_cache" where
  [eval_simps]: "cache_lookup now key client_id c =
     (case map_of (cmap c) key of
        None \<Rightarrow> (None, c\<lparr>cache_misses := cache_misses c + 1\<rparr>)
      | Some e \<Rightarrow>
          if expires_at e \<le> now then
            (None, (drop_entry key e c)\<lparr>cache_misses := cache_misses c + 1\<rparr>)
          else
            (Some (serve_entry now client_id e),
             c\<lparr>lru := lru_splice_back (lru_it e) (lru c), cache_hits := cache_hits c + 1\<rparr>))"

text \<open>The sweep visits every entry once, in the order of the table.\<close>

fun sweep_entries :: "int \<Rightarrow> (cache_key \<times> entry) list \<Rightarrow> dns_cache \<times> nat \<Rightarrow> dns_cache \<times> nat" where
  "sweep_entries now [] st = st"
| "sweep_entries now ((key, e) # rest) (c, n) =
     (if expires_at e \<le> now then sweep_entries now rest (drop_entry key e c, n + 1)
      else sweep_entries now rest (c, n))"

definition sweep_expired :: "int \<Rightarrow> dns_cache \<Rightarrow> nat \<times> dns_cache" where
  [eval_simps]: "sweep_expired now c =
     (let (c', n) = sweep_entries now (cmap c) (c, 0) in
      (n, if n \<noteq> 0 then c'\<lparr>expired_sweeps := expired_sweeps c' + n\<rparr> else c'))"

definition cache_size :: "dns_cache \<Rightarrow> nat" where
  [eval_simps]: "cache_size c = length (cmap c)"

record cache_stats =
  st_hits :: nat
  st_misses :: nat
  st_inserts :: nat
  st_lru_evictions :: nat
  st_expired_sweeps :: nat

definition cache_stats_of :: "dns_cache \<Rightarrow> cache_stats" where
  [eval_simps]: "cache_stats_of c = \<lparr>st_hits = cache_hits c, st_misses = cache_misses c, st_inserts = cache_inserts c,
     st_lru_evictions = lru_evictions c, st_expired_sweeps = expired_sweeps c\<rparr>"

text \<open>The background thread: each element is one iteration, with the two reads of \<^verbatim>\<open>stopping_\<close> and the time.\<close>

fun sweeper_loop :: "(bool \<times> bool \<times> int) list \<Rightarrow> dns_cache \<Rightarrow> dns_cache" where
  "sweeper_loop [] c = c"
| "sweeper_loop ((stop_before, stop_after, now) # ws) c =
     (if stop_before \<or> stop_after then c else sweeper_loop ws (snd (sweep_expired now c)))"

section \<open>Rewriting the TTL fields\<close>

abbreviation write_u32_be :: "bytes \<Rightarrow> nat \<Rightarrow> u32 \<Rightarrow> bytes" where
  "write_u32_be b off v \<equiv> b[off := u32_byte 24 v, off + 1 := u32_byte 16 v, off + 2 := u32_byte 8 v, off + 3 := u32_byte 0 v]"

lemma read_write_u32: "off + 4 \<le> length b \<Longrightarrow> read_u32_be (write_u32_be b off v) off = v"
  by (simp add: read_u32_be_def nth_list_update u32_of_bytes)

abbreviation ttl_gap :: "nat \<Rightarrow> nat \<Rightarrow> bool" where
  "ttl_gap a b \<equiv> a + 4 \<le> b"

lemma rewrite_ttls_Nil [simp]: "rewrite_ttls b [] ttl = b"
  by (simp add: rewrite_ttls_def)

lemma rewrite_ttls_Cons:
  "off + 4 \<le> length b \<Longrightarrow> rewrite_ttls b (off # offs) ttl = rewrite_ttls (write_u32_be b off ttl) offs ttl"
  by (simp add: rewrite_ttls_def)

lemma length_rewrite_ttls [simp]: "length (rewrite_ttls b offs ttl) = length b"
  unfolding rewrite_ttls_def by (induction offs arbitrary: b) auto

lemma rewrite_ttls_other:
  assumes "\<forall>off \<in> set offs. off + 4 \<le> length b" "\<forall>off \<in> set offs. i < off \<or> off + 4 \<le> i"
  shows "rewrite_ttls b offs ttl ! i = b ! i"
  using assms
proof (induction offs arbitrary: b)
  case (Cons off offs)
  have "rewrite_ttls b (off # offs) ttl = rewrite_ttls (write_u32_be b off ttl) offs ttl"
    using Cons.prems by (intro rewrite_ttls_Cons) simp
  then show ?case using Cons.IH [of "write_u32_be b off ttl"] Cons.prems by (simp del: list_update.simps) auto
qed simp

lemma rewrite_ttls_at:
  assumes "\<forall>off \<in> set offs. off + 4 \<le> length b" "sorted_wrt ttl_gap offs" "off \<in> set offs"
  shows "read_u32_be (rewrite_ttls b offs ttl) off = ttl"
  using assms
proof (induction offs arbitrary: b)
  case (Cons o1 offs)
  let ?b = "write_u32_be b o1 ttl"
  have step: "rewrite_ttls b (o1 # offs) ttl = rewrite_ttls ?b offs ttl"
    using Cons.prems by (intro rewrite_ttls_Cons) simp
  show ?case
  proof (cases "off \<in> set offs")
    case True
    then show ?thesis unfolding step using Cons.IH [of ?b] Cons.prems by simp
  next
    case False
    then have eq: "off = o1" using Cons.prems by simp
    have "rewrite_ttls ?b offs ttl ! i = ?b ! i" if "i < o1 + 4" for i
      using rewrite_ttls_other [of offs ?b i ttl] that Cons.prems by fastforce
    then have "read_u32_be (rewrite_ttls ?b offs ttl) o1 = read_u32_be ?b o1" by (simp add: read_u32_be_def)
    then show ?thesis unfolding step eq using read_write_u32 [of o1 b ttl] Cons.prems by simp
  qed
qed simp

lemma collect_ttl_offsets_eq:
  "collect_ttl_offsets m = map (\<lambda>rr. rr_off rr - 6)
     (filter (\<lambda>rr. rr_type rr \<noteq> dns_type_OPT) (answers m @ authority m @ additional m))"
  by (simp add: collect_ttl_offsets_def collect_section_offsets_def kTtlBackOffset_def)

lemma rr_chain_offsets:
  "rr_chain c rrs e \<Longrightarrow> sorted_wrt (\<lambda>a b. ttl_gap (rr_off a - 6) (rr_off b - 6)) rrs \<and> (\<forall>rr \<in> set rrs. c + 11 \<le> rr_off rr)"
proof (induction rrs arbitrary: c)
  case (Cons rr rrs)
  then show ?case using Cons.IH [of "rr_off rr + length (rr_rdata rr)"] by force
qed simp

lemma msg_wf_offsets:
  assumes "msg_wf pkt m"
  shows "sorted_wrt ttl_gap (collect_ttl_offsets m)" "\<forall>off \<in> set (collect_ttl_offsets m). 12 \<le> off \<and> off + 4 \<le> length pkt"
proof -
  let ?rrs = "answers m @ authority m @ additional m"
  obtain e where ch: "rr_chain (question_section_end m) ?rrs e" and q: "kHeaderSize \<le> question_section_end m"
    and wf: "list_all (rr_wf pkt) ?rrs" using assms by (auto simp: msg_wf_def)
  note ch = rr_chain_offsets [OF ch]
  show "sorted_wrt ttl_gap (collect_ttl_offsets m)"
    unfolding collect_ttl_offsets_eq sorted_wrt_map using ch by (intro sorted_wrt_filter) simp
  have "12 \<le> rr_off rr - 6 \<and> rr_off rr - 6 + 4 \<le> length pkt" if "rr \<in> set ?rrs" for rr
  proof -
    have "question_section_end m + 11 \<le> rr_off rr" using ch that by blast
    moreover have "rr_off rr + length (rr_rdata rr) \<le> length pkt"
      using wf that unfolding list_all_iff rr_wf_def by blast
    ultimately show ?thesis using q unfolding kHeaderSize_def by linarith
  qed
  then show "\<forall>off \<in> set (collect_ttl_offsets m). 12 \<le> off \<and> off + 4 \<le> length pkt"
    by (auto simp: collect_ttl_offsets_eq)
qed

section \<open>The cache invariant\<close>

text \<open>
  Keys are unique, list nodes are unique in identity and in key, the nodes are exactly the ones the
  entries point to, each carrying the key of its entry, fresh identities are unused, and the size
  never exceeds the configured maximum.
\<close>

abbreviation node_of :: "cache_key \<times> entry \<Rightarrow> nat \<times> cache_key" where
  "node_of ke \<equiv> (lru_it (snd ke), fst ke)"

definition cache_inv :: "dns_cache \<Rightarrow> bool" where
  [eval_simps]: "cache_inv c \<longleftrightarrow>
     distinct (map fst (cmap c)) \<and> distinct (map fst (lru c)) \<and> distinct (map snd (lru c)) \<and>
     set (lru c) = node_of ` set (cmap c) \<and> (\<forall>n \<in> set (lru c). fst n < next_node c) \<and>
     length (cmap c) \<le> max_entries (cache_cfg c)"

lemma empty_cache_inv [simp]: "cache_inv (empty_cache cc)"
  by (simp add: cache_inv_def empty_cache_def)

lemma map_erase_keys: "set (map_erase key kvs) = {ke \<in> set kvs. fst ke \<noteq> key}"
  by (auto simp: map_erase_def)

lemma distinct_map_erase [simp]: "distinct (map fst kvs) \<Longrightarrow> distinct (map fst (map_erase key kvs))"
  by (simp add: map_erase_def distinct_map_filter)

lemma map_of_erase [simp]: "map_of (map_erase key kvs) = (map_of kvs)(key := None)"
  by (auto simp: map_erase_def fun_eq_iff map_of_filter_in) (induction kvs, auto)+

lemma length_map_erase:
  assumes "distinct (map fst kvs)" "map_of kvs key = Some e"
  shows "Suc (length (map_erase key kvs)) = length kvs"
  using assms
proof (induction kvs)
  case (Cons ke kvs)
  show ?case
  proof (cases "fst ke = key")
    case True
    with Cons.prems(1) have "key \<notin> fst ` set kvs" by auto
    then have "map_erase key kvs = kvs" unfolding map_erase_def filter_id_conv by force
    with True show ?thesis by (cases ke) (simp add: map_erase_def)
  next
    case False
    with Cons show ?thesis by (cases ke) (auto simp: map_erase_def)
  qed
qed simp

lemma node_inj:
  assumes "cache_inv c" "(k, e) \<in> set (cmap c)" "(k', e') \<in> set (cmap c)"
  shows "lru_it e = lru_it e' \<longleftrightarrow> k = k'"
proof -
  have n: "(lru_it e, k) \<in> set (lru c)" "(lru_it e', k') \<in> set (lru c)"
    using assms by (auto simp: cache_inv_def image_iff) (metis fst_conv snd_conv)+
  have d: "distinct (map fst (lru c))" "distinct (map fst (cmap c))" using assms(1) by (auto simp: cache_inv_def)
  show ?thesis
    using d(1) n d(2) assms(2,3) by (metis eq_key_imp_eq_value)
qed

lemma drop_entry_inv:
  assumes "cache_inv c" "map_of (cmap c) key = Some e"
  shows "cache_inv (drop_entry key e c)" "Suc (length (cmap (drop_entry key e c))) = length (cmap c)"
    "map_of (cmap (drop_entry key e c)) = (map_of (cmap c))(key := None)"
proof -
  have mem: "(key, e) \<in> set (cmap c)" using assms(2) by (rule map_of_SomeD)
  have inj: "lru_it (snd ke) = lru_it e \<longleftrightarrow> fst ke = key" if "ke \<in> set (cmap c)" for ke
    using node_inj [OF assms(1), of "fst ke" "snd ke" key e] that mem by simp
  have "set (lru_erase (lru_it e) (lru c)) = {n \<in> node_of ` set (cmap c). fst n \<noteq> lru_it e}"
    using assms(1) by (auto simp: lru_erase_def cache_inv_def)
  also have "\<dots> = node_of ` set (map_erase key (cmap c))"
    unfolding map_erase_keys using inj by auto
  finally have "set (lru_erase (lru_it e) (lru c)) = node_of ` set (map_erase key (cmap c))" .
  moreover have len: "Suc (length (map_erase key (cmap c))) = length (cmap c)"
    using assms by (intro length_map_erase) (auto simp: cache_inv_def)
  moreover have "\<forall>n \<in> set (lru_erase (lru_it e) (lru c)). fst n < next_node c"
    using assms(1) unfolding cache_inv_def lru_erase_def by simp
  moreover have "distinct (map fst (lru_erase (lru_it e) (lru c)))" "distinct (map snd (lru_erase (lru_it e) (lru c)))"
    using assms(1) unfolding cache_inv_def lru_erase_def by (simp_all add: distinct_map_filter)
  ultimately show "cache_inv (drop_entry key e c)"
    using assms(1) unfolding cache_inv_def drop_entry_def by simp
  show "Suc (length (cmap (drop_entry key e c))) = length (cmap c)"
    "map_of (cmap (drop_entry key e c)) = (map_of (cmap c))(key := None)"
    using len by (simp_all add: drop_entry_def)
qed

lemma inv_length_lru:
  assumes "cache_inv c"
  shows "length (lru c) = length (cmap c)"
proof -
  have dl: "distinct (map fst (lru c))" and dc: "distinct (map fst (cmap c))" and s: "set (lru c) = node_of ` set (cmap c)"
    using assms by (auto simp: cache_inv_def)
  have "inj_on node_of (set (cmap c))"
    using dc by (auto simp: inj_on_def distinct_map)
  then have "card (set (lru c)) = card (set (cmap c))" unfolding s by (rule card_image)
  moreover have "distinct (lru c)" "distinct (cmap c)" using dl dc by (simp_all add: distinct_map)
  ultimately show ?thesis by (simp add: distinct_card)
qed

lemma inv_front:
  assumes "cache_inv c" "lru c = (i, k) # rest"
  obtains e where "map_of (cmap c) k = Some e" "lru_it e = i" "lru_erase i (lru c) = rest"
proof -
  have "(i, k) \<in> node_of ` set (cmap c)" using assms by (auto simp: cache_inv_def)
  then obtain e where e: "(k, e) \<in> set (cmap c)" "lru_it e = i" by auto
  have "map_of (cmap c) k = Some e" using assms(1) e(1) by (simp add: cache_inv_def)
  moreover have "lru_erase i (lru c) = rest"
  proof -
    have "i \<notin> fst ` set rest" using assms by (simp add: cache_inv_def)
    then have "filter (\<lambda>(j, _). j \<noteq> i) rest = rest" unfolding filter_id_conv by force
    then show ?thesis using assms(2) by (simp add: lru_erase_def)
  qed
  ultimately show ?thesis using that e(2) by blast
qed

text \<open>Evicting is dropping the entry at the front of the list.\<close>

lemma evict_drop:
  assumes "cache_inv c" "lru c = (i, k) # rest" "map_of (cmap c) k = Some e" "lru_it e = i" "lru_erase i (lru c) = rest"
  shows "evict_one_locked c = (drop_entry k e c)\<lparr>lru_evictions := lru_evictions c + 1\<rparr>"
  using assms by (simp add: evict_one_locked_def drop_entry_def)

lemma cache_inv_counters [simp]:
  "cache_inv (c\<lparr>cache_hits := a\<rparr>) = cache_inv c" "cache_inv (c\<lparr>cache_misses := a\<rparr>) = cache_inv c"
  "cache_inv (c\<lparr>cache_inserts := a\<rparr>) = cache_inv c" "cache_inv (c\<lparr>lru_evictions := a\<rparr>) = cache_inv c"
  "cache_inv (c\<lparr>expired_sweeps := a\<rparr>) = cache_inv c"
  by (simp_all add: cache_inv_def)

lemma drop_entry_frame [simp]:
  "cache_cfg (drop_entry k e c) = cache_cfg c" "next_node (drop_entry k e c) = next_node c"
  "cache_hits (drop_entry k e c) = cache_hits c" "cache_misses (drop_entry k e c) = cache_misses c"
  "cache_inserts (drop_entry k e c) = cache_inserts c" "lru_evictions (drop_entry k e c) = lru_evictions c"
  "expired_sweeps (drop_entry k e c) = expired_sweeps c"
  by (simp_all add: drop_entry_def)

lemma evict_spec:
  assumes "cache_inv c" "cmap c \<noteq> []"
  shows "cache_inv (evict_one_locked c)" "Suc (length (cmap (evict_one_locked c))) = length (cmap c)"
    "map_of (cmap (evict_one_locked c)) = (map_of (cmap c))(snd (hd (lru c)) := None)"
    "lru (evict_one_locked c) = tl (lru c)" "lru_evictions (evict_one_locked c) = lru_evictions c + 1"
    "cache_cfg (evict_one_locked c) = cache_cfg c" "cache_inserts (evict_one_locked c) = cache_inserts c"
    "cache_hits (evict_one_locked c) = cache_hits c" "cache_misses (evict_one_locked c) = cache_misses c"
    "next_node (evict_one_locked c) = next_node c"
proof -
  have "lru c \<noteq> []" using inv_length_lru [OF assms(1)] assms(2) by auto
  then obtain i k rest where l: "lru c = (i, k) # rest" by (cases "lru c") auto
  obtain e where e: "map_of (cmap c) k = Some e" "lru_it e = i" "lru_erase i (lru c) = rest"
    by (rule inv_front [OF assms(1) l])
  have eq: "evict_one_locked c = (drop_entry k e c)\<lparr>lru_evictions := lru_evictions c + 1\<rparr>"
    by (rule evict_drop [OF assms(1) l e])
  show "cache_inv (evict_one_locked c)" "Suc (length (cmap (evict_one_locked c))) = length (cmap c)"
    "map_of (cmap (evict_one_locked c)) = (map_of (cmap c))(snd (hd (lru c)) := None)"
    unfolding eq using drop_entry_inv [OF assms(1) e(1)] l by simp_all
  show "lru (evict_one_locked c) = tl (lru c)" "lru_evictions (evict_one_locked c) = lru_evictions c + 1"
    "cache_cfg (evict_one_locked c) = cache_cfg c" "cache_inserts (evict_one_locked c) = cache_inserts c"
    "cache_hits (evict_one_locked c) = cache_hits c" "cache_misses (evict_one_locked c) = cache_misses c"
    "next_node (evict_one_locked c) = next_node c"
    by (simp_all add: evict_one_locked_def l)
qed

text \<open>Within the invariant the eviction loop runs at most once, so it ends whenever the limit is positive.\<close>

lemma make_room_eq:
  assumes "cache_inv c" "0 < max_entries (cache_cfg c)"
  shows "make_room c = Some (if length (cmap c) < max_entries (cache_cfg c) then c else evict_one_locked c)"
proof (cases "length (cmap c) < max_entries (cache_cfg c)")
  case True
  then show ?thesis by (subst make_room.simps) simp
next
  case False
  then have ne: "cmap c \<noteq> []" using assms(2) by auto
  note ev = evict_spec [OF assms(1) ne]
  have "length (cmap (evict_one_locked c)) < max_entries (cache_cfg (evict_one_locked c))"
    using ev(2,6) assms(1) by (simp add: cache_inv_def)
  then have "make_room (evict_one_locked c) = Some (evict_one_locked c)" by (subst make_room.simps) simp
  with False show ?thesis by (subst make_room.simps) simp
qed

lemma evict_cfg: "cache_cfg (evict_one_locked c) = cache_cfg c"
  by (auto simp: evict_one_locked_def split: list.split)

lemma make_room_zero:
  assumes "max_entries (cache_cfg c) = 0"
  shows "make_room c = None"
proof (rule ccontr)
  assume "make_room c \<noteq> None"
  then obtain c' where "make_room c = Some c'" by blast
  then have "max_entries (cache_cfg c) \<noteq> 0"
  proof (rule make_room.raw_induct [of "\<lambda>c c'. max_entries (cache_cfg c) \<noteq> 0", rotated])
    fix rec c c'
    assume IH: "\<And>c c'. rec c = Some c' \<Longrightarrow> max_entries (cache_cfg c) \<noteq> 0"
      and run: "(if max_entries (cache_cfg c) \<le> length (cmap c) then rec (evict_one_locked c) else Some c) = Some c'"
    show "max_entries (cache_cfg c) \<noteq> 0"
    proof (cases "max_entries (cache_cfg c) \<le> length (cmap c)")
      case True
      then show ?thesis using run IH [of "evict_one_locked c" c'] by (simp add: evict_cfg)
    qed simp
  qed
  with assms show False by simp
qed

section \<open>Operations\<close>

text \<open>The entry an insertion stores, and the state it starts from once an old entry of the key is gone.\<close>

definition new_entry :: "int \<Rightarrow> bytes \<Rightarrow> dns_message \<Rightarrow> int \<Rightarrow> nat \<Rightarrow> entry" where
  "new_entry now resp parsed ttl it = \<lparr>entry_response = resp, expires_at = now + ttl * 1000000000,
     ttl_offsets = collect_ttl_offsets parsed, lru_it = it\<rparr>"

definition without_key :: "cache_key \<Rightarrow> dns_cache \<Rightarrow> dns_cache" where
  "without_key key c = (case map_of (cmap c) key of None \<Rightarrow> c | Some old \<Rightarrow> drop_entry key old c)"

lemma without_key_spec:
  assumes "cache_inv c"
  shows "cache_inv (without_key key c)" "map_of (cmap (without_key key c)) = (map_of (cmap c))(key := None)"
    "cache_cfg (without_key key c) = cache_cfg c" "cache_inserts (without_key key c) = cache_inserts c"
    "cache_hits (without_key key c) = cache_hits c" "cache_misses (without_key key c) = cache_misses c"
  using assms drop_entry_inv(1,3) [OF assms, of key] by (auto simp: without_key_def fun_eq_iff split: option.split)

definition place :: "cache_key \<Rightarrow> entry \<Rightarrow> dns_cache \<Rightarrow> dns_cache" where
  "place key e c = c\<lparr>lru := lru c @ [(next_node c, key)], next_node := next_node c + 1,
     cmap := map_emplace key e (cmap c), cache_inserts := cache_inserts c + 1\<rparr>"

lemma place_inv:
  assumes "cache_inv c" "map_of (cmap c) key = None" "lru_it e = next_node c"
    and "length (cmap c) < max_entries (cache_cfg c)"
  shows "cache_inv (place key e c)"
proof -
  have nk: "key \<notin> fst ` set (cmap c)" using assms(2) by (simp add: map_of_eq_None_iff)
  have "snd ` set (lru c) = fst ` set (cmap c)" using assms(1) by (auto simp: cache_inv_def image_image)
  with nk have "key \<notin> snd ` set (lru c)" by simp
  moreover have "next_node c \<notin> fst ` set (lru c)" using assms(1) unfolding cache_inv_def by force
  moreover have "\<forall>n \<in> set (lru c). fst n < next_node c + 1"
    using assms(1) unfolding cache_inv_def by (meson less_trans less_add_one)
  moreover have "set (lru c @ [(next_node c, key)]) = node_of ` set (map_emplace key e (cmap c))"
    using assms(1,2,3) unfolding cache_inv_def map_emplace_def by simp
  ultimately show ?thesis
    using assms nk unfolding cache_inv_def place_def map_emplace_def by (simp del: set_append)
qed

lemma cache_insert_eq:
  fixes key :: cache_key
  assumes "cache_inv c" "0 < max_entries (cache_cfg c)" "0 < ttl"
  defines "c1 \<equiv> without_key key c"
  defines "c2 \<equiv> (if length (cmap c1) < max_entries (cache_cfg c) then c1 else evict_one_locked c1)"
  shows "cache_insert now key resp parsed ttl c = Some (place key (new_entry now resp parsed ttl (next_node c2)) c2)"
    "cache_inv c2" "map_of (cmap c2) key = None" "length (cmap c2) < max_entries (cache_cfg c)" "cache_cfg c2 = cache_cfg c"
proof -
  note w = without_key_spec [OF assms(1), of key, folded c1_def]
  have room: "make_room c1 = Some c2" using make_room_eq [OF w(1)] assms(2) w(3) by (simp add: c2_def)
  show "cache_insert now key resp parsed ttl c = Some (place key (new_entry now resp parsed ttl (next_node c2)) c2)"
    using assms(3) room by (simp add: cache_insert_def c1_def without_key_def [symmetric] place_def new_entry_def Let_def)
  have ev: "cmap c1 \<noteq> []" if "\<not> length (cmap c1) < max_entries (cache_cfg c)" using that assms(2) by auto
  have le: "length (cmap c1) \<le> max_entries (cache_cfg c)" using w(1,3) by (simp add: cache_inv_def)
  show "cache_inv c2" "map_of (cmap c2) key = None" "length (cmap c2) < max_entries (cache_cfg c)" "cache_cfg c2 = cache_cfg c"
    using w evict_spec [OF w(1)] ev le by (auto simp: c2_def)
qed

lemma cache_insert_inv:
  assumes "cache_inv c" "0 < max_entries (cache_cfg c)"
  obtains c' where "cache_insert now key resp parsed ttl c = Some c'" "cache_inv c'" "cache_cfg c' = cache_cfg c"
proof (cases "0 < ttl")
  case True
  note i = cache_insert_eq [OF assms True, where key = key]
  show ?thesis using that [OF i(1)] place_inv [OF i(2,3)] i(4,5) by (simp add: new_entry_def place_def)
next
  case False
  then show ?thesis using that [of c] assms(1) by (simp add: cache_insert_def)
qed

text \<open>After an insertion the key maps to the new entry; other keys are untouched or evicted.\<close>

lemma cache_insert_lookup:
  assumes "cache_inv c" "0 < max_entries (cache_cfg c)" "0 < ttl" "cache_insert now key resp parsed ttl c = Some c'"
  shows "\<exists>it. map_of (cmap c') key = Some (new_entry now resp parsed ttl it)"
    "k \<noteq> key \<Longrightarrow> map_of (cmap c') k = None \<or> map_of (cmap c') k = map_of (cmap c) k"
    "cache_inserts c' = cache_inserts c + 1" "cache_hits c' = cache_hits c" "cache_misses c' = cache_misses c"
proof -
  let ?c1 = "without_key key c"
  let ?c2 = "if length (cmap ?c1) < max_entries (cache_cfg c) then ?c1 else evict_one_locked ?c1"
  note i = cache_insert_eq [OF assms(1-3), where key = key]
  have c': "c' = place key (new_entry now resp parsed ttl (next_node ?c2)) ?c2" using i(1) assms(4) by simp
  show "\<exists>it. map_of (cmap c') key = Some (new_entry now resp parsed ttl it)"
    unfolding c' using i(3) by (auto simp: place_def map_emplace_def)
  have ev: "cmap ?c1 \<noteq> []" if "\<not> length (cmap ?c1) < max_entries (cache_cfg c)" using that assms(2) by auto
  note w = without_key_spec [OF assms(1), of key] and e = evict_spec [OF without_key_spec(1) [OF assms(1), of key]]
  have "map_of (cmap ?c2) k = None \<or> map_of (cmap ?c2) k = map_of (cmap c) k" if "k \<noteq> key"
    using w(2) e(3) ev that by auto
  then show "k \<noteq> key \<Longrightarrow> map_of (cmap c') k = None \<or> map_of (cmap c') k = map_of (cmap c) k"
    unfolding c' using i(3) by (simp add: place_def map_emplace_def)
  have "cache_inserts ?c2 = cache_inserts c" "cache_hits ?c2 = cache_hits c" "cache_misses ?c2 = cache_misses c"
    using w(4-6) e(7-9) ev by auto
  then show "cache_inserts c' = cache_inserts c + 1" "cache_hits c' = cache_hits c" "cache_misses c' = cache_misses c"
    unfolding c' place_def by simp_all
qed

lemma lru_splice_back_eq:
  assumes "cache_inv c" "map_of (cmap c) key = Some e"
  shows "lru_splice_back (lru_it e) (lru c) = lru_erase (lru_it e) (lru c) @ [(lru_it e, key)]"
proof -
  have n: "(lru_it e, key) \<in> set (lru c)" and d: "distinct (map fst (lru c))"
    using assms map_of_SomeD [OF assms(2)] unfolding cache_inv_def by force+
  have "filter (\<lambda>(i, _). i = lru_it e) xs = [(lru_it e, key)]"
    if "(lru_it e, key) \<in> set xs" "distinct (map fst xs)" for xs
    using that
  proof (induction xs)
    case (Cons x xs)
    show ?case
    proof (cases "fst x = lru_it e")
      case True
      then have "x = (lru_it e, key)" using Cons.prems by (auto simp: rev_image_eqI)
      moreover have "filter (\<lambda>(i, _). i = lru_it e) xs = []"
        using Cons.prems(2) True unfolding filter_empty_conv by force
      ultimately show ?thesis by simp
    next
      case False
      with Cons show ?thesis by (cases x) auto
    qed
  qed simp
  from this [OF n d] show ?thesis by (simp add: lru_splice_back_def)
qed

lemma mset_splice: "mset (lru_splice_back it nodes) = mset nodes"
  by (induction nodes) (auto simp: lru_splice_back_def lru_erase_def)

lemma cache_lookup_inv:
  assumes "cache_inv c"
  shows "cache_inv (snd (cache_lookup now key i c))"
proof (cases "map_of (cmap c) key")
  case None
  then show ?thesis using assms by (simp add: cache_lookup_def)
next
  case (Some e)
  let ?l = "lru_splice_back (lru_it e) (lru c)"
  have m: "mset ?l = mset (lru c)" by (rule mset_splice)
  have "set ?l = set (lru c)" using m by (metis set_mset_mset)
  moreover have "distinct (map fst ?l) = distinct (map fst (lru c))" "distinct (map snd ?l) = distinct (map snd (lru c))"
    using m by (metis mset_map mset_eq_imp_distinct_iff)+
  ultimately have "cache_inv (c\<lparr>lru := ?l, cache_hits := cache_hits c + 1\<rparr>)" using assms unfolding cache_inv_def by simp
  then show ?thesis using drop_entry_inv(1) [OF assms Some] Some by (simp add: cache_lookup_def)
qed

lemma cache_lookup_result:
  "fst (cache_lookup now key i c) =
     (case map_of (cmap c) key of None \<Rightarrow> None
      | Some e \<Rightarrow> if expires_at e \<le> now then None else Some (serve_entry now i e))"
  by (simp add: cache_lookup_def split: option.splits)

lemma cache_lookup_map:
  assumes "cache_inv c"
  shows "map_of (cmap (snd (cache_lookup now key i c))) =
    (case map_of (cmap c) key of
       Some e \<Rightarrow> if expires_at e \<le> now then (map_of (cmap c))(key := None) else map_of (cmap c)
     | None \<Rightarrow> map_of (cmap c))"
  using drop_entry_inv(3) [OF assms] by (auto simp: cache_lookup_def split: option.splits)

lemma sweep_entries_spec:
  assumes "cache_inv c" "\<forall>ke \<in> set es. map_of (cmap c) (fst ke) = Some (snd ke)" "distinct (map fst es)"
    and "sweep_entries now es (c, n) = (c', n')"
  shows "cache_inv c' \<and> cache_cfg c' = cache_cfg c \<and> n' = n + length (filter (\<lambda>ke. expires_at (snd ke) \<le> now) es) \<and>
    map_of (cmap c') = (\<lambda>k. if \<exists>e. (k, e) \<in> set es \<and> expires_at e \<le> now then None else map_of (cmap c) k) \<and>
    cache_hits c' = cache_hits c \<and> cache_misses c' = cache_misses c \<and> cache_inserts c' = cache_inserts c"
  using assms
proof (induction es arbitrary: c n)
  case (Cons ke es)
  obtain k e where ke: "ke = (k, e)" by (cases ke)
  have m: "map_of (cmap c) k = Some e" and fresh: "k \<notin> fst ` set es" using Cons.prems ke by auto
  have uniq: "(k, e') \<notin> set es" for e' using fresh by force
  show ?case
  proof (cases "expires_at e \<le> now")
    case False
    with Cons.prems ke have "sweep_entries now es (c, n) = (c', n')" by simp
    from Cons.IH [OF Cons.prems(1) _ _ this] Cons.prems False ke uniq show ?thesis by (auto simp: fun_eq_iff)
  next
    case True
    note d = drop_entry_inv [OF Cons.prems(1) m]
    have run: "sweep_entries now es (drop_entry k e c, n + 1) = (c', n')" using Cons.prems True ke by simp
    have "\<forall>ke \<in> set es. map_of (cmap (drop_entry k e c)) (fst ke) = Some (snd ke)"
      using Cons.prems(2) fresh by (auto simp: d(3))
    from Cons.IH [OF d(1) this _ run] Cons.prems(3) True ke uniq show ?thesis by (auto simp: fun_eq_iff d(3))
  qed
qed simp

lemma sweep_expired_spec:
  assumes "cache_inv c" "sweep_expired now c = (n, c')"
  shows "cache_inv c'" "cache_cfg c' = cache_cfg c" "n = length (filter (\<lambda>ke. expires_at (snd ke) \<le> now) (cmap c))"
    "map_of (cmap c') k = (case map_of (cmap c) k of None \<Rightarrow> None | Some e \<Rightarrow> if expires_at e \<le> now then None else Some e)"
    "cache_hits c' = cache_hits c" "cache_misses c' = cache_misses c" "cache_inserts c' = cache_inserts c"
proof -
  have d: "distinct (map fst (cmap c))" using assms(1) by (simp add: cache_inv_def)
  obtain c1 where c1: "sweep_entries now (cmap c) (c, 0) = (c1, n)" and c': "c' = (if n \<noteq> 0 then c1\<lparr>expired_sweeps := expired_sweeps c1 + n\<rparr> else c1)"
    using assms(2) by (auto simp: sweep_expired_def split: prod.splits if_splits)
  note s = sweep_entries_spec [OF assms(1) _ d c1]
  have all: "\<forall>ke \<in> set (cmap c). map_of (cmap c) (fst ke) = Some (snd ke)" using d by auto
  show "cache_inv c'" "cache_cfg c' = cache_cfg c" "n = length (filter (\<lambda>ke. expires_at (snd ke) \<le> now) (cmap c))"
    "cache_hits c' = cache_hits c" "cache_misses c' = cache_misses c" "cache_inserts c' = cache_inserts c"
    using s [OF all] c' by auto
  have "map_of (cmap c') = map_of (cmap c1)" using c' by simp
  then show "map_of (cmap c') k = (case map_of (cmap c) k of None \<Rightarrow> None | Some e \<Rightarrow> if expires_at e \<le> now then None else Some e)"
    using s [OF all] map_of_is_SomeI [OF d, of k] by (auto split: option.split dest: map_of_SomeD)
qed

text \<open>No operation changes the configuration, whatever the state.\<close>

lemma make_room_cfg: "make_room c = Some c' \<Longrightarrow> cache_cfg c' = cache_cfg c"
proof (rule make_room.raw_induct [of "\<lambda>c c'. cache_cfg c' = cache_cfg c", rotated])
  fix rec c c'
  assume IH: "\<And>c c'. rec c = Some c' \<Longrightarrow> cache_cfg c' = cache_cfg c"
    and run: "(if max_entries (cache_cfg c) \<le> length (cmap c) then rec (evict_one_locked c) else Some c) = Some c'"
  then show "cache_cfg c' = cache_cfg c"
    using IH [of "evict_one_locked c" c'] by (simp add: evict_cfg split: if_splits)
qed

lemma cache_insert_cfg: "cache_insert now key resp parsed ttl c = Some c' \<Longrightarrow> cache_cfg c' = cache_cfg c"
  by (auto simp: cache_insert_def drop_entry_def Let_def split: if_splits option.splits dest!: make_room_cfg)

lemma sweep_expired_cfg: "cache_cfg (snd (sweep_expired now c)) = cache_cfg c"
proof -
  have "cache_cfg (fst (sweep_entries now es (c, n))) = cache_cfg c" for es n
    by (induction es arbitrary: c n) (auto simp: drop_entry_def)
  from this [of "cmap c" 0] show ?thesis
    by (cases "sweep_entries now (cmap c) (c, 0)") (simp add: sweep_expired_def)
qed

section \<open>Runs of the cache\<close>

datatype cache_event =
    EvInsert int cache_key bytes dns_message int
  | EvLookup int cache_key u16 "bytes option"
  | EvSweep int nat

inductive cache_step :: "dns_cache \<Rightarrow> cache_event \<Rightarrow> dns_cache \<Rightarrow> bool" where
  step_insert: "cache_insert now key resp parsed ttl c = Some c' \<Longrightarrow> cache_step c (EvInsert now key resp parsed ttl) c'"
| step_lookup: "cache_lookup now key i c = (r, c') \<Longrightarrow> cache_step c (EvLookup now key i r) c'"
| step_sweep: "sweep_expired now c = (n, c') \<Longrightarrow> cache_step c (EvSweep now n) c'"

inductive_cases step_insertE: "cache_step c (EvInsert now key resp parsed ttl) c'"
inductive_cases step_lookupE: "cache_step c (EvLookup now key i r) c'"
inductive_cases step_sweepE: "cache_step c (EvSweep now n) c'"

abbreviation live_cache :: "dns_cache \<Rightarrow> bool" where
  "live_cache c \<equiv> cache_inv c \<and> 0 < max_entries (cache_cfg c)"

type_synonym stored = "bytes \<times> int \<times> nat list"

definition cache_view :: "dns_cache \<Rightarrow> cache_key \<Rightarrow> stored option" where
  "cache_view c k = map_option (\<lambda>e. (entry_response e, expires_at e, ttl_offsets e)) (map_of (cmap c) k)"

fun cache_writes :: "cache_event \<Rightarrow> (cache_key \<times> stored) option" where
  "cache_writes (EvInsert now key resp parsed ttl) =
     (if 0 < ttl then Some (key, (resp, now + ttl * 1000000000, collect_ttl_offsets parsed)) else None)"
| "cache_writes _ = None"

lemma cache_lookup_frame:
  "cache_cfg (snd (cache_lookup now key i c)) = cache_cfg c"
  "cache_inserts (snd (cache_lookup now key i c)) = cache_inserts c"
  "cache_hits (snd (cache_lookup now key i c)) + cache_misses (snd (cache_lookup now key i c)) = cache_hits c + cache_misses c + 1"
  by (simp_all add: cache_lookup_def split: option.split)

lemma cache_step_live: "live_cache c \<Longrightarrow> cache_step c ev c' \<Longrightarrow> live_cache c' \<and> cache_cfg c' = cache_cfg c"
proof (cases ev)
  case (EvInsert now key resp parsed ttl)
  assume live: "live_cache c" and "cache_step c ev c'"
  then have "cache_insert now key resp parsed ttl c = Some c'" using EvInsert by (auto elim: step_insertE)
  then show ?thesis using cache_insert_inv [of c now key resp parsed ttl] live by fastforce
next
  case (EvLookup now key i r)
  assume live: "live_cache c" and "cache_step c ev c'"
  then have "c' = snd (cache_lookup now key i c)" using EvLookup by (auto elim!: step_lookupE)
  then show ?thesis using cache_lookup_inv cache_lookup_frame live by simp
next
  case (EvSweep now n)
  assume live: "live_cache c" and "cache_step c ev c'"
  then have "sweep_expired now c = (n, c')" using EvSweep by (auto elim: step_sweepE)
  then show ?thesis using sweep_expired_spec(1,2) live by fastforce
qed

interpretation cache_store: written_store cache_step live_cache cache_view cache_writes
proof
  fix c ev c'
  show "live_cache c \<Longrightarrow> cache_step c ev c' \<Longrightarrow> live_cache c'" using cache_step_live by blast
next
  fix c ev c' k v
  assume live: "live_cache c" and st: "cache_step c ev c'" and w: "cache_writes ev = Some (k, v)"
  then obtain now resp parsed ttl where ev: "ev = EvInsert now k resp parsed ttl" "0 < ttl"
      "v = (resp, now + ttl * 1000000000, collect_ttl_offsets parsed)"
    by (cases ev) (auto split: if_splits)
  then have "cache_insert now k resp parsed ttl c = Some c'" using st by (auto elim: step_insertE)
  from cache_insert_lookup(1) [OF _ _ ev(2) this] live show "cache_view c' k = Some v"
    by (auto simp: cache_view_def new_entry_def ev(3))
next
  fix c ev c' k
  assume live: "live_cache c" and st: "cache_step c ev c'" and w: "\<forall>v. cache_writes ev \<noteq> Some (k, v)"
  have "map_of (cmap c') k = None \<or> map_of (cmap c') k = map_of (cmap c) k"
  proof (cases ev)
    case (EvInsert now key resp parsed ttl)
    then have ins: "cache_insert now key resp parsed ttl c = Some c'" using st by (auto elim: step_insertE)
    show ?thesis
    proof (cases "0 < ttl")
      case True
      then have "k \<noteq> key" using w EvInsert by auto
      then show ?thesis using cache_insert_lookup(2) [OF _ _ True ins] live by blast
    next
      case False
      then show ?thesis using ins by (simp add: cache_insert_def)
    qed
  next
    case (EvLookup now key i r)
    then have c': "c' = snd (cache_lookup now key i c)" using st by (auto elim!: step_lookupE)
    show ?thesis unfolding c' using cache_lookup_map [of c] live by (auto split: option.split)
  next
    case (EvSweep now n)
    then have "sweep_expired now c = (n, c')" using st by (auto elim: step_sweepE)
    from sweep_expired_spec(4) [OF _ this] live show ?thesis by (auto split: option.split)
  qed
  then show "cache_view c' k = None \<or> cache_view c' k = cache_view c k" by (auto simp: cache_view_def)
qed

section \<open>The recency list\<close>

text \<open>The keys of the list nodes, oldest use first, and the textbook operations on such a list.\<close>

definition lru_keys :: "dns_cache \<Rightarrow> cache_key list" where
  "lru_keys c = map snd (lru c)"

definition touch :: "cache_key \<Rightarrow> cache_key list \<Rightarrow> cache_key list" where
  "touch k ks = remove1 k ks @ [k]"

definition make_space :: "nat \<Rightarrow> cache_key list \<Rightarrow> cache_key list" where
  "make_space limit ks = (if length ks < limit then ks else tl ks)"

lemma lru_keys_set: "cache_inv c \<Longrightarrow> set (lru_keys c) = dom (map_of (cmap c))"
  by (auto simp: lru_keys_def cache_inv_def image_image dom_map_of_conv_image_fst)

lemma lru_erase_keys:
  assumes "cache_inv c" "map_of (cmap c) key = Some e"
  shows "map snd (lru_erase (lru_it e) (lru c)) = remove1 key (lru_keys c)"
proof -
  have mem: "(key, e) \<in> set (cmap c)" using assms(2) by (rule map_of_SomeD)
  have "fst n = lru_it e \<longleftrightarrow> snd n = key" if "n \<in> set (lru c)" for n
  proof -
    have "set (lru c) = node_of ` set (cmap c)" using assms(1) unfolding cache_inv_def by blast
    with that obtain ke where ke: "ke \<in> set (cmap c)" "n = node_of ke" by blast
    then show ?thesis using node_inj [OF assms(1), of "fst ke" "snd ke" key e] mem by simp
  qed
  then have "lru_erase (lru_it e) (lru c) = filter (\<lambda>n. snd n \<noteq> key) (lru c)"
    unfolding lru_erase_def by (intro filter_cong) (simp_all add: case_prod_beta)
  then have "map snd (lru_erase (lru_it e) (lru c)) = filter (\<lambda>k. k \<noteq> key) (lru_keys c)"
    by (simp add: lru_keys_def filter_map comp_def)
  also have "\<dots> = removeAll key (lru_keys c)" unfolding removeAll_filter_not_eq by (rule filter_cong) auto
  also have "\<dots> = remove1 key (lru_keys c)"
    using assms(1) by (simp add: distinct_remove1_removeAll lru_keys_def cache_inv_def)
  finally show ?thesis .
qed

lemma without_key_lru:
  assumes "cache_inv c"
  shows "lru_keys (without_key key c) = remove1 key (lru_keys c)"
proof (cases "map_of (cmap c) key")
  case None
  then have "key \<notin> set (lru_keys c)" using lru_keys_set [OF assms] by auto
  then show ?thesis using None by (simp add: without_key_def remove1_idem)
next
  case (Some e)
  then show ?thesis using lru_erase_keys [OF assms Some] by (simp add: without_key_def lru_keys_def drop_entry_def)
qed

lemma cache_insert_lru:
  assumes "cache_inv c" "0 < max_entries (cache_cfg c)" "0 < ttl" "cache_insert now key resp parsed ttl c = Some c'"
  shows "lru_keys c' = make_space (max_entries (cache_cfg c)) (remove1 key (lru_keys c)) @ [key]"
proof -
  let ?c1 = "without_key key c"
  note i = cache_insert_eq [OF assms(1-3), where key = key] and w = without_key_spec [OF assms(1), of key]
  have len: "length (cmap ?c1) = length (lru_keys ?c1)" using inv_length_lru [OF w(1)] by (simp add: lru_keys_def)
  have ev: "cmap ?c1 \<noteq> []" if "\<not> length (cmap ?c1) < max_entries (cache_cfg c)" using that assms(2) by auto
  have "lru_keys c' = make_space (max_entries (cache_cfg c)) (lru_keys ?c1) @ [key]"
    using i(1) assms(4) evict_spec(4) [OF w(1)] ev len by (auto simp: place_def lru_keys_def make_space_def map_tl)
  then show ?thesis by (simp add: without_key_lru [OF assms(1)])
qed

section \<open>Lifetimes\<close>

lemma scan_ttls_spec:
  assumes "scan_ttls section st = (mn, saw)"
  shows "mn \<le> fst st" "rr \<in> set section \<Longrightarrow> rr_type rr \<noteq> dns_type_OPT \<Longrightarrow> mn \<le> rr_ttl rr"
    "saw \<longleftrightarrow> snd st \<or> (\<exists>rr \<in> set section. rr_type rr \<noteq> dns_type_OPT)"
proof -
  have "mn \<le> fst st \<and> (\<forall>rr \<in> set section. rr_type rr \<noteq> dns_type_OPT \<longrightarrow> mn \<le> rr_ttl rr) \<and>
      (saw \<longleftrightarrow> snd st \<or> (\<exists>rr \<in> set section. rr_type rr \<noteq> dns_type_OPT))"
    using assms unfolding scan_ttls_def
  proof (induction "section" arbitrary: st)
    case (Cons r rs)
    show ?case using Cons.IH [of "if rr_type r = dns_type_OPT then st else (min (fst st) (rr_ttl r), True)"] Cons.prems
      by (auto simp: case_prod_beta split: if_splits)
  qed auto
  then show "mn \<le> fst st" "rr \<in> set section \<Longrightarrow> rr_type rr \<noteq> dns_type_OPT \<Longrightarrow> mn \<le> rr_ttl rr"
    "saw \<longleftrightarrow> snd st \<or> (\<exists>rr \<in> set section. rr_type rr \<noteq> dns_type_OPT)" by blast+
qed

lemma clamp_soa_le: "clamp_soa rrs mn \<le> mn"
  by (induction rrs) (auto split: option.split)

lemma clamp_soa_first:
  "\<forall>rr \<in> set pre. rr_type rr \<noteq> kTypeSOA \<Longrightarrow> rr_type soa = kTypeSOA \<Longrightarrow> read_soa_minimum soa = Some minimum \<Longrightarrow>
     clamp_soa (pre @ soa # post) mn \<le> minimum"
  by (induction pre) auto

lemma compute_cache_ttl_cases:
  obtains "compute_cache_ttl m = 0"
  | mn where "hdr_rcode (msg_header m) \<noteq> kRcodeServFail" "hdr_rcode (msg_header m) \<noteq> kRcodeNotImp"
      "\<exists>rr \<in> set (answers m @ authority m). rr_type rr \<noteq> dns_type_OPT"
      "\<And>rr. rr \<in> set (answers m @ authority m) \<Longrightarrow> rr_type rr \<noteq> dns_type_OPT \<Longrightarrow> mn \<le> rr_ttl rr"
      "compute_cache_ttl m = uint (if is_negative m then min (clamp_soa (authority m) mn) 86400 else mn)"
proof -
  obtain m1 s1 where s1: "scan_ttls (answers m) (- 1, False) = (m1, s1)" by fastforce
  obtain mn saw where s2: "scan_ttls (authority m) (m1, s1) = (mn, saw)" by fastforce
  note sc = scan_ttls_spec [OF s1] scan_ttls_spec [OF s2]
  have le: "mn \<le> rr_ttl rr" if "rr \<in> set (answers m @ authority m)" "rr_type rr \<noteq> dns_type_OPT" for rr
    using that sc(2,4,5) by (auto intro: order_trans)
  have saw: "saw \<Longrightarrow> \<exists>rr \<in> set (answers m @ authority m). rr_type rr \<noteq> dns_type_OPT" using sc(3,6) by auto
  show ?thesis
  proof (cases "compute_cache_ttl m = 0")
    case False
    then have "hdr_rcode (msg_header m) \<noteq> kRcodeServFail" "hdr_rcode (msg_header m) \<noteq> kRcodeNotImp" "saw"
      "compute_cache_ttl m = uint (if is_negative m then min (clamp_soa (authority m) mn) 86400 else mn)"
      by (auto simp: compute_cache_ttl_def s1 s2 Let_def split: if_splits)
    with le saw that(2) show ?thesis by blast
  qed (rule that(1))
qed

text \<open>The packet a hit hands out: its TTL fields and its other octets.\<close>

lemma served_ttls:
  assumes "msg_wf resp m" "rr \<in> set (answers m @ authority m @ additional m)" "rr_type rr \<noteq> dns_type_OPT"
  shows "read_u32_be (write_u16_be (rewrite_ttls resp (collect_ttl_offsets m) ttl) 0 i) (rr_off rr - 6) = ttl"
proof -
  note off = msg_wf_offsets [OF assms(1)]
  have mem: "rr_off rr - 6 \<in> set (collect_ttl_offsets m)" using assms(2,3) by (auto simp: collect_ttl_offsets_eq)
  then have "12 \<le> rr_off rr - 6" using off(2) by blast
  then have "read_u32_be (write_u16_be b 0 i) (rr_off rr - 6) = read_u32_be b (rr_off rr - 6)" for b
    by (simp add: read_u32_be_def write_u16_be_def)
  then show ?thesis using rewrite_ttls_at [OF _ off(1) mem, of resp] off(2) by simp
qed

lemma served_other:
  assumes "msg_wf resp m" "2 \<le> j"
    and "\<forall>rr \<in> set (answers m @ authority m @ additional m). rr_type rr \<noteq> dns_type_OPT \<longrightarrow> j < rr_off rr - 6 \<or> rr_off rr - 2 \<le> j"
  shows "write_u16_be (rewrite_ttls resp (collect_ttl_offsets m) ttl) 0 i ! j = resp ! j"
proof -
  note off = msg_wf_offsets [OF assms(1)]
  have "j < o' \<or> o' + 4 \<le> j" if "o' \<in> set (collect_ttl_offsets m)" for o'
  proof -
    have "12 \<le> o'" using off(2) that by blast
    moreover from that obtain rr where "rr \<in> set (answers m @ authority m @ additional m)"
      "rr_type rr \<noteq> dns_type_OPT" "o' = rr_off rr - 6" unfolding collect_ttl_offsets_eq by auto
    ultimately show ?thesis using assms(3) by fastforce
  qed
  then have "rewrite_ttls resp (collect_ttl_offsets m) ttl ! j = resp ! j" using off(2) by (intro rewrite_ttls_other) auto
  then show ?thesis using assms(2) by (simp add: write_u16_be_def)
qed

section \<open>Properties\<close>

text \<open>C19: Whatever sequence of inserts, lookups and sweeps runs from the empty cache, with a positive
  limit: the table and the recency list stay consistent (one node per entry, carrying its key), the
  size never exceeds the limit, hits and misses add up to the lookups made and the insert counter to
  the inserts with a positive lifetime, and a further insert of anything always returns.\<close>

theorem cache_run_invariant:
  assumes "run_steps cache_step (empty_cache cc) evs c" "0 < max_entries cc"
  shows "cache_inv c \<and> cache_size c \<le> max_entries cc \<and>
    cache_hits c + cache_misses c = length (filter (\<lambda>ev. \<exists>now k i r. ev = EvLookup now k i r) evs) \<and>
    cache_inserts c = length (filter (\<lambda>ev. cache_writes ev \<noteq> None) evs) \<and>
    (\<forall>now key resp parsed ttl. \<exists>c'. cache_insert now key resp parsed ttl c = Some c' \<and> cache_inv c')"
proof -
  have "live_cache c \<and> cache_cfg c = cc \<and>
      cache_hits c + cache_misses c = length (filter (\<lambda>ev. \<exists>now k i r. ev = EvLookup now k i r) evs) \<and>
      cache_inserts c = length (filter (\<lambda>ev. cache_writes ev \<noteq> None) evs)"
    using assms
  proof (induction rule: run_steps.induct)
    case run_Nil
    then show ?case by (simp add: empty_cache_def cache_inv_def)
  next
    case (run_snoc evs c ev c')
    then have IH: "live_cache c" "cache_cfg c = cc"
      "cache_hits c + cache_misses c = length (filter (\<lambda>ev. \<exists>now k i r. ev = EvLookup now k i r) evs)"
      "cache_inserts c = length (filter (\<lambda>ev. cache_writes ev \<noteq> None) evs)" by auto
    have "cache_hits c' + cache_misses c' = cache_hits c + cache_misses c + (if \<exists>now k i r. ev = EvLookup now k i r then 1 else 0) \<and>
        cache_inserts c' = cache_inserts c + (if cache_writes ev \<noteq> None then 1 else 0)"
      using run_snoc.hyps(2) IH(1)
    proof cases
      case (step_insert now key resp parsed ttl)
      then show ?thesis using cache_insert_lookup(3-5) [OF _ _ _ step_insert(2)] IH(1)
        by (cases "0 < ttl") (auto simp: cache_insert_def)
    next
      case (step_lookup now key i r)
      then show ?thesis using cache_lookup_frame [of now key i c] by simp
    next
      case (step_sweep now n)
      then show ?thesis using sweep_expired_spec(5-7) [OF _ step_sweep(2)] IH(1) by simp
    qed
    with IH cache_step_live [OF IH(1) run_snoc.hyps(2)] show ?case by simp
  qed
  moreover from this have "cache_size c \<le> max_entries cc" unfolding cache_size_def cache_inv_def by blast
  moreover have "\<exists>c'. cache_insert now key resp parsed ttl c = Some c' \<and> cache_inv c'" for now key resp parsed ttl
    using cache_insert_inv [of c now key resp parsed ttl] calculation(1) by blast
  ultimately show ?thesis by blast
qed

definition sample_config :: cache_config where
  [eval_simps]: "sample_config = \<lparr>jitter_max = 5, sweep_interval = 30, max_entries = 2\<rparr>"

definition sample_key :: cache_key where
  [eval_simps]: "sample_key = \<lparr>key_qname = ''ad.x'', key_qtype = 1, key_qclass = 1\<rparr>"

definition sample_message :: dns_message where
  [eval_simps]: "sample_message =
     \<lparr>msg_header = \<lparr>hdr_id = 0x1234, hdr_qr = True, hdr_aa = False, hdr_tc = False, hdr_rd = True,
        hdr_ra = True, hdr_opcode = 0, hdr_rcode = 0, hdr_qdcount = 1, hdr_ancount = 1,
        hdr_nscount = 0, hdr_arcount = 0\<rparr>,
      questions = [\<lparr>q_name = ''ad.x'', q_type = 1, q_class = 1\<rparr>],
      answers = [\<lparr>rr_name = ''ad.x'', rr_type = 5, rr_class = 1, rr_ttl = 300, rr_off = 34,
                   rr_rdata = [1, 0x74, 1, 0x79, 0]\<rparr>],
      authority = [], additional = [], question_section_end = 22\<rparr>"

definition sample_cache :: dns_cache where
  "sample_cache = place sample_key (new_entry 0 sample_response sample_message 300 0) (empty_cache sample_config)"

lemma parse_sample_message: "parse sample_response = Inr sample_message"
  using parse_sample_response by (simp add: sample_message_def)

lemma sample_max: "0 < max_entries sample_config"
  by (simp add: sample_config_def)

lemma sample_insert: "cache_insert 0 sample_key sample_response sample_message 300 (empty_cache sample_config) = Some sample_cache"
  using cache_insert_eq(1) [OF empty_cache_inv, of sample_config 300 0 sample_key sample_response sample_message]
  by (simp add: sample_cache_def empty_cache_def sample_config_def without_key_def)

lemma sample_run: "run_steps cache_step (empty_cache sample_config) [EvInsert 0 sample_key sample_response sample_message 300] sample_cache"
  using run_snoc [of cache_step "empty_cache sample_config" "[]", OF run_Nil step_insert [OF sample_insert]] by simp

theorem cache_run_invariant_witness:
  "cache_inv sample_cache \<and> cache_size sample_cache \<le> 2 \<and> cache_inserts sample_cache = 1"
  using cache_run_invariant [OF sample_run sample_max] by (simp add: sample_config_def)

text \<open>C20: A hit never invents or mixes up data. In any run from the empty cache with a positive limit,
  a lookup that hits returns the bytes of the latest insert (with a positive lifetime) of exactly that
  key, before that insert's deadline, with the remaining whole seconds written at the TTL offsets
  collected at that insert and the client's own id in front.\<close>

theorem cache_hit_provenance:
  assumes "run_steps cache_step (empty_cache cc) evs c" "0 < max_entries cc"
    and "fst (cache_lookup now key i c) = Some out"
  shows "\<exists>pre t0 resp parsed ttl post.
    evs = pre @ EvInsert t0 key resp parsed ttl # post \<and> 0 < ttl \<and>
    (\<forall>ev \<in> set post. \<forall>v. cache_writes ev \<noteq> Some (key, v)) \<and>
    now < t0 + ttl * 1000000000 \<and>
    out = set_id (rewrite_ttls resp (collect_ttl_offsets parsed)
      (word_of_int (min ((t0 + ttl * 1000000000 - now) div 1000000000) (2 ^ 32 - 1)))) i"
proof -
  have live: "live_cache (empty_cache cc)" using assms(2) by (simp add: empty_cache_def cache_inv_def)
  obtain e where e: "map_of (cmap c) key = Some e" "now < expires_at e" "out = serve_entry now i e"
    using assms(3) by (auto simp: cache_lookup_result split: option.splits if_splits)
  have none: "cache_view (empty_cache cc) key = None" by (simp add: cache_view_def empty_cache_def)
  have some: "cache_view c key = Some (entry_response e, expires_at e, ttl_offsets e)" by (simp add: cache_view_def e(1))
  obtain pre ev post where split: "evs = pre @ ev # post"
    "cache_writes ev = Some (key, (entry_response e, expires_at e, ttl_offsets e))"
    "\<forall>ev \<in> set post. \<forall>v. cache_writes ev \<noteq> Some (key, v)"
    using cache_store.latest_write [OF assms(1) live none some] by blast
  then obtain t0 resp parsed ttl where ev: "ev = EvInsert t0 key resp parsed ttl" "0 < ttl" "entry_response e = resp"
    "expires_at e = t0 + ttl * 1000000000" "ttl_offsets e = collect_ttl_offsets parsed"
    by (cases ev) (auto split: if_splits)
  show ?thesis
    using split ev e(2,3) by (intro exI [of _ pre] exI [of _ t0] exI [of _ resp] exI [of _ parsed] exI [of _ ttl] exI [of _ post])
      (simp add: serve_entry_def Let_def)
qed

theorem cache_hit_provenance_witness:
  "\<exists>t0 resp. EvInsert t0 sample_key resp sample_message 300 \<in> set [EvInsert 0 sample_key sample_response sample_message 300] \<and>
     fst (cache_lookup 1 sample_key 7 sample_cache) \<noteq> None"
proof -
  have hit: "fst (cache_lookup 1 sample_key 7 sample_cache) = Some (serve_entry 1 7 (new_entry 0 sample_response sample_message 300 0))"
    by (simp add: cache_lookup_result sample_cache_def place_def map_emplace_def empty_cache_def new_entry_def)
  show ?thesis using cache_hit_provenance [OF sample_run sample_max hit] hit by auto
qed

text \<open>C23: Insert, then look up. A response inserted together with its parse is found until its deadline
  and never after it. Before the deadline the copy returned has the same length, the client's id, the
  remaining seconds (at most the lifetime it was stored with) in the TTL field of every record other
  than OPT, and every other octet unchanged.\<close>

theorem cache_insert_then_lookup:
  assumes "cache_inv c" "0 < max_entries (cache_cfg c)" "parse resp = Inr m" "0 < ttl" "ttl < 2 ^ 32" "t0 \<le> t"
    and "cache_insert t0 key resp m ttl c = Some c'"
  shows "if t < t0 + ttl * 1000000000 then
      \<exists>out remaining. fst (cache_lookup t key i c') = Some out \<and> length out = length resp \<and>
        read_u16_be out 0 = i \<and> remaining = (t0 + ttl * 1000000000 - t) div 1000000000 \<and> 0 \<le> remaining \<and> remaining \<le> ttl \<and>
        (\<forall>rr \<in> set (answers m @ authority m @ additional m).
           rr_type rr \<noteq> dns_type_OPT \<longrightarrow> uint (read_u32_be out (rr_off rr - 6)) = remaining) \<and>
        (\<forall>j. 2 \<le> j \<and> (\<forall>rr \<in> set (answers m @ authority m @ additional m).
           rr_type rr \<noteq> dns_type_OPT \<longrightarrow> j < rr_off rr - 6 \<or> rr_off rr - 2 \<le> j) \<longrightarrow> out ! j = resp ! j)
    else fst (cache_lookup t key i c') = None \<and> map_of (cmap (snd (cache_lookup t key i c'))) key = None"
proof -
  obtain it where e: "map_of (cmap c') key = Some (new_entry t0 resp m ttl it)"
    using cache_insert_lookup(1) [OF assms(1,2,4,7)] by blast
  have inv': "cache_inv c'" using cache_insert_inv [OF assms(1,2), of t0 key resp m ttl] assms(7) by fastforce
  have wf: "msg_wf resp m" using parse_to_wf assms(3) by (auto simp: parse_eq_Inr)
  show ?thesis
  proof (cases "t < t0 + ttl * 1000000000")
    case False
    then show ?thesis using e by (simp add: cache_lookup_result cache_lookup_map [OF inv'] new_entry_def)
  next
    case True
    define r where "r = (t0 + ttl * 1000000000 - t) div 1000000000"
    define b where "b = rewrite_ttls resp (collect_ttl_offsets m) (word_of_int r)"
    have r: "0 \<le> r" "r \<le> ttl" using True assms(6) by (auto simp: r_def)
    then have ur: "uint (word_of_int r :: u32) = r" using assms(5) by (simp add: uint_word_of_int)
    have min: "min r (2 ^ 32 - 1) = r" using r assms(5) by simp
    have len: "12 \<le> length resp" using wf by (auto simp: msg_wf_def kHeaderSize_def)
    then have out: "fst (cache_lookup t key i c') = Some (write_u16_be b 0 i)"
      using e True min by (simp add: cache_lookup_result new_entry_def serve_entry_def Let_def set_id_def b_def r_def)
    note ttls = served_ttls [OF wf, of _ "word_of_int r" i, folded b_def] and other = served_other [OF wf, of _ "word_of_int r" i, folded b_def]
    have "read_u16_be (write_u16_be b 0 i) 0 = i" using len by (simp add: b_def read_write_u16_same)
    moreover have "length (write_u16_be b 0 i) = length resp" by (simp add: b_def)
    ultimately show ?thesis unfolding r_def [symmetric] using True out ttls other r ur
      by (simp del: set_append)
  qed
qed

theorem cache_insert_then_lookup_witness:
  "\<exists>out. fst (cache_lookup 1500000000 sample_key 7 sample_cache) = Some out \<and> read_u16_be out 0 = 7 \<and>
     uint (read_u32_be out 28) = 298"
proof -
  have "cache_cfg (empty_cache sample_config) = sample_config" by (simp add: empty_cache_def)
  then show ?thesis
    using cache_insert_then_lookup [OF empty_cache_inv _ parse_sample_message _ _ _ sample_insert, of 1500000000 7] sample_max
    by (auto simp: sample_message_def dns_type_OPT_def)
qed

text \<open>C22: Recency is exact. The recency list lists the stored keys once each. A hit moves its key to the
  end and changes nothing else of it; an insert moves its key to the end and, when the cache is full
  without that key, first drops exactly the key at the front, the least recently used one; all other
  entries keep their stored data.\<close>

theorem cache_lru_exact:
  assumes "cache_inv c" "0 < max_entries (cache_cfg c)"
  shows "distinct (lru_keys c) \<and> set (lru_keys c) = dom (map_of (cmap c)) \<and>
    (\<forall>now key i out. fst (cache_lookup now key i c) = Some out \<longrightarrow>
       lru_keys (snd (cache_lookup now key i c)) = touch key (lru_keys c) \<and>
       map_of (cmap (snd (cache_lookup now key i c))) = map_of (cmap c)) \<and>
    (\<forall>now key resp m ttl c'. 0 < ttl \<and> cache_insert now key resp m ttl c = Some c' \<longrightarrow>
       lru_keys c' = make_space (max_entries (cache_cfg c)) (remove1 key (lru_keys c)) @ [key] \<and>
       (\<forall>k. k \<noteq> key \<longrightarrow> map_of (cmap c') k = (if k \<in> set (lru_keys c') then map_of (cmap c) k else None)))"
proof (intro conjI allI impI)
  show "distinct (lru_keys c)" using assms(1) by (simp add: cache_inv_def lru_keys_def)
  show "set (lru_keys c) = dom (map_of (cmap c))" by (rule lru_keys_set [OF assms(1)])
next
  fix now key i out
  assume "fst (cache_lookup now key i c) = Some out"
  then obtain e where e: "map_of (cmap c) key = Some e" "\<not> expires_at e \<le> now"
    by (auto simp: cache_lookup_result split: option.splits if_splits)
  show "lru_keys (snd (cache_lookup now key i c)) = touch key (lru_keys c)"
    using e lru_splice_back_eq [OF assms(1) e(1)] lru_erase_keys [OF assms(1) e(1)]
    by (simp add: cache_lookup_def lru_keys_def touch_def)
  show "map_of (cmap (snd (cache_lookup now key i c))) = map_of (cmap c)"
    using e by (simp add: cache_lookup_map [OF assms(1)])
next
  fix now key resp m ttl c' k
  assume ins: "0 < ttl \<and> cache_insert now key resp m ttl c = Some c'"
  show "lru_keys c' = make_space (max_entries (cache_cfg c)) (remove1 key (lru_keys c)) @ [key]"
    using cache_insert_lru [OF assms] ins by blast
  assume k: "k \<noteq> key"
  have "cache_inv c'" using cache_insert_inv [OF assms, of now key resp m ttl] ins by fastforce
  then have "k \<in> set (lru_keys c') \<longleftrightarrow> map_of (cmap c') k \<noteq> None" using lru_keys_set by blast
  then show "map_of (cmap c') k = (if k \<in> set (lru_keys c') then map_of (cmap c) k else None)"
    using cache_insert_lookup(2) [OF assms _ _ k] ins by fastforce
qed

theorem cache_lru_exact_witness:
  "cache_inv sample_cache \<and> set (lru_keys sample_cache) = dom (map_of (cmap sample_cache))"
proof -
  have "cache_inv sample_cache" "0 < max_entries (cache_cfg sample_cache)"
    using cache_store.inv_run [OF sample_run] sample_max by (simp_all add: empty_cache_def cache_inv_def)
  then show ?thesis using cache_lru_exact [of sample_cache] by blast
qed

text \<open>C37: The lifetime computed for a response is safe: it is zero for SERVFAIL and NOTIMP; it never
  exceeds the TTL of any answer or authority record other than OPT, so a record with TTL zero makes
  it zero; a response without such records gets zero; a negative response (NXDOMAIN, or no answers
  and some authority) gets at most a day and at most the MINIMUM of its first SOA record; and it is
  never negative.\<close>

theorem compute_cache_ttl_bounds:
  "0 \<le> compute_cache_ttl m \<and>
   (hdr_rcode (msg_header m) \<in> {kRcodeServFail, kRcodeNotImp} \<longrightarrow> compute_cache_ttl m = 0) \<and>
   (\<forall>rr \<in> set (answers m @ authority m). rr_type rr \<noteq> dns_type_OPT \<longrightarrow> compute_cache_ttl m \<le> uint (rr_ttl rr)) \<and>
   ((\<forall>rr \<in> set (answers m @ authority m). rr_type rr = dns_type_OPT) \<longrightarrow> compute_cache_ttl m = 0) \<and>
   (is_negative m \<longrightarrow> compute_cache_ttl m \<le> 86400) \<and>
   (\<forall>pre soa post mn. is_negative m \<and> authority m = pre @ soa # post \<and> rr_type soa = kTypeSOA \<and>
      (\<forall>rr \<in> set pre. rr_type rr \<noteq> kTypeSOA) \<and> read_soa_minimum soa = Some mn \<longrightarrow> compute_cache_ttl m \<le> uint mn)"
proof (cases m rule: compute_cache_ttl_cases)
  case 1
  then show ?thesis by simp
next
  case (2 mn)
  let ?r = "if is_negative m then min (clamp_soa (authority m) mn) 86400 else mn"
  have r: "?r \<le> mn" using clamp_soa_le [of "authority m" mn] by (auto simp: min_le_iff_disj)
  have "compute_cache_ttl m \<le> uint (rr_ttl rr)"
    if "rr \<in> set (answers m @ authority m)" "rr_type rr \<noteq> dns_type_OPT" for rr
    using order_trans [OF r 2(4) [OF that]] 2(5) by (simp only: word_le_def)
  moreover have "compute_cache_ttl m \<le> 86400" if "is_negative m"
  proof -
    have "?r \<le> 86400" using that by simp
    then show ?thesis using 2(5) by (simp add: word_le_def)
  qed
  moreover have "compute_cache_ttl m \<le> uint minimum"
    if "is_negative m" "authority m = pre @ soa # post" "rr_type soa = kTypeSOA" "\<forall>rr \<in> set pre. rr_type rr \<noteq> kTypeSOA"
      "read_soa_minimum soa = Some minimum" for pre soa post minimum
  proof -
    have "?r \<le> minimum" using clamp_soa_first [OF that(4,3,5), of post mn] that(1,2) by (simp add: min_le_iff_disj)
    then show ?thesis using 2(5) by (simp only: word_le_def)
  qed
  ultimately show ?thesis using 2(1,2,3,5) by auto
qed

theorem compute_cache_ttl_bounds_witness:
  "compute_cache_ttl sample_message \<le> 300 \<and> compute_cache_ttl sample_message = 300"
proof -
  let ?rr = "\<lparr>rr_name = ''ad.x'', rr_type = 5, rr_class = 1, rr_ttl = 300, rr_off = 34, rr_rdata = [1, 0x74, 1, 0x79, 0]\<rparr>"
  have "?rr \<in> set (answers sample_message @ authority sample_message)" "rr_type ?rr \<noteq> dns_type_OPT"
    by (simp_all add: sample_message_def dns_type_OPT_def)
  then have "compute_cache_ttl sample_message \<le> uint (rr_ttl ?rr)" using compute_cache_ttl_bounds [of sample_message] by blast
  then show ?thesis by (simp add: eval_simps)
qed

text \<open>A limit of zero entries, which the configuration accepts, makes the first insert of a cacheable
  response loop forever: the eviction loop waits for the empty table to become smaller than zero.\<close>

theorem cache_zero_limit_hangs:
  assumes "max_entries (cache_cfg c) = 0" "0 < ttl"
  shows "cache_insert now key resp m ttl c = None"
  using make_room_zero [of "case map_of (cmap c) key of None \<Rightarrow> c | Some old \<Rightarrow> drop_entry key old c"] assms
  by (simp add: cache_insert_def Let_def split: option.splits)

theorem cache_zero_limit_hangs_witness:
  "cache_insert 0 sample_key sample_response sample_message 300 (empty_cache \<lparr>jitter_max = 5, sweep_interval = 30, max_entries = 0\<rparr>) = None"
  by (rule cache_zero_limit_hangs) (simp_all add: empty_cache_def)

definition glue_response :: bytes where
  [eval_simps]: "glue_response =
     [0x12, 0x34, 0x81, 0x80, 0, 1, 0, 1, 0, 0, 0, 1, 2, 0x41, 0x64, 1, 0x58, 0, 0, 1, 0, 1,
      0xC0, 0x0C, 0, 5, 0, 1, 0, 0, 1, 0x2C, 0, 5, 1, 0x74, 1, 0x79, 0,
      0xC0, 0x22, 0, 1, 0, 1, 0, 0, 0, 5, 0, 4, 1, 2, 3, 4]"

definition glue_message :: dns_message where
  [eval_simps]: "glue_message = sample_message
     \<lparr>msg_header := (msg_header sample_message)\<lparr>hdr_arcount := 1\<rparr>,
      additional := [\<lparr>rr_name = ''t.y'', rr_type = 1, rr_class = 1, rr_ttl = 5, rr_off = 51, rr_rdata = [1, 2, 3, 4]\<rparr>]\<rparr>"

lemma parse_glue: "parse glue_response = Inr glue_message"
  by (simp add: eval_simps decode_name_loop.simps char_of_eq_iff)

lemma make_room_empty: "0 < max_entries (cache_cfg c) \<Longrightarrow> cmap c = [] \<Longrightarrow> make_room c = Some c"
  by (subst make_room.simps) simp

text \<open>Records of the additional section do not count for the lifetime, but their TTL fields are
  rewritten with the others: a response whose additional record may live for 5 seconds is cached for
  the 300 seconds of its answer, and a lookup 100 seconds later hands the additional record out with
  a TTL of 200 seconds.\<close>

theorem additional_ttl_extended:
  "\<exists>c' out. parse glue_response = Inr glue_message \<and> map rr_ttl (additional glue_message) = [5] \<and>
     cache_insert 0 sample_key glue_response glue_message (compute_cache_ttl glue_message) (empty_cache sample_config) = Some c' \<and>
     fst (cache_lookup 100000000000 sample_key 7 c') = Some out \<and> read_u32_be out 45 = 200"
proof -
  have ttl: "compute_cache_ttl glue_message = 300" by (simp add: eval_simps)
  have off: "collect_ttl_offsets glue_message = [28, 45]" by (simp add: eval_simps)
  let ?e = "new_entry 0 glue_response glue_message 300 0"
  have room: "make_room (empty_cache sample_config) = Some (empty_cache sample_config)"
    by (rule make_room_empty) (simp_all add: empty_cache_def sample_config_def)
  have ins: "cache_insert 0 sample_key glue_response glue_message 300 (empty_cache sample_config) =
      Some (place sample_key ?e (empty_cache sample_config))"
    unfolding cache_insert_def using room by (simp add: place_def new_entry_def empty_cache_def)
  have hit: "fst (cache_lookup 100000000000 sample_key 7 (place sample_key ?e (empty_cache sample_config))) =
      Some (serve_entry 100000000000 7 ?e)"
    by (simp add: cache_lookup_result place_def map_emplace_def empty_cache_def new_entry_def)
  have "read_u32_be (serve_entry 100000000000 7 ?e) 45 = 200"
    by (simp add: serve_entry_def new_entry_def off) (simp add: eval_simps)
  then show ?thesis using parse_glue ttl ins hit by (auto simp: glue_message_def)
qed

text \<open>A sweep removes exactly the entries whose deadline has passed, returns how many they were,
  and keeps every other entry as it is; the background loop keeps the invariant whatever wake-ups
  and stop requests it sees.\<close>

theorem cache_sweep_exact:
  assumes "cache_inv c" "sweep_expired now c = (n, c')"
  shows "cache_inv c' \<and> n = length (filter (\<lambda>ke. expires_at (snd ke) \<le> now) (cmap c)) \<and>
    map_of (cmap c') = (\<lambda>k. case map_of (cmap c) k of None \<Rightarrow> None | Some e \<Rightarrow> if expires_at e \<le> now then None else Some e) \<and>
    cache_inv (sweeper_loop ws c)"
proof -
  have "cache_inv (sweeper_loop ws c)" using assms(1)
  proof (induction ws c rule: sweeper_loop.induct)
    case (2 b a t ws c)
    then show ?case using sweep_expired_spec(1) [OF 2(2), of t] by (cases "sweep_expired t c") auto
  qed simp
  then show ?thesis using sweep_expired_spec(1,3,4) [OF assms] by (auto simp: fun_eq_iff)
qed

lemma sample_cache_inv: "cache_inv sample_cache"
  using cache_store.inv_run [OF sample_run] sample_max by (simp add: empty_cache_def cache_inv_def)

theorem cache_sweep_exact_witness: "\<exists>c'. sweep_expired 300000000000 sample_cache = (1, c') \<and> map_of (cmap c') sample_key = None"
proof -
  obtain n c' where s: "sweep_expired 300000000000 sample_cache = (n, c')" by fastforce
  show ?thesis
    using cache_sweep_exact [OF sample_cache_inv s] s
    by (auto simp: sample_cache_def place_def map_emplace_def empty_cache_def new_entry_def)
qed

end
