(* ===== verification/Writer.thy ===== *)
theory Writer
  imports Parser
begin

text \<open>
  \<^verbatim>\<open>dns_writer.cpp\<close>: the synthesized responses (sinkhole A/AAAA, NODATA, REFUSED, SERVFAIL) and the
  re-query of the uncloaker. A \<^verbatim>\<open>vector<byte>\<close> written by index is a list updated in place
  (\<open>write_at\<close> is a run of \<^verbatim>\<open>out[a++] = b\<close>); the lemmas give each writer's closed form, and the
  properties feed the output back to the parser.
\<close>

section \<open>Definitions\<close>

definition kMaxLabel :: nat where [eval_simps]: "kMaxLabel = 63"
definition kMaxName :: nat where [eval_simps]: "kMaxName = 255"

text \<open>The flag word of a response: QR and RA set, opcode and RD echoed from the query, then the rcode.\<close>

definition response_flags :: "u16 \<Rightarrow> byte \<Rightarrow> u16" where
  [eval_simps]: "response_flags q_flags rcode =
     0x8000 OR (q_flags AND 0x7800) OR (q_flags AND 0x0100) OR 0x0080 OR (ucast rcode AND 0x000F)"

definition write_response_header :: "bytes \<Rightarrow> bytes \<Rightarrow> u16 \<Rightarrow> byte \<Rightarrow> bytes" where
  [eval_simps]: "write_response_header out query ancount rcode =
     (let out = out[0 := query ! 0];
          out = out[1 := query ! 1];
          q_flags = read_u16_be query 2;
          out = write_u16_be out 2 (response_flags q_flags rcode);
          out = write_u16_be out 4 1;
          out = write_u16_be out 6 ancount;
          out = write_u16_be out 8 0
      in write_u16_be out 10 0)"

definition copy_question_bytes :: "bytes \<Rightarrow> bytes \<Rightarrow> nat \<Rightarrow> bytes" where
  [eval_simps]: "copy_question_bytes out query question_end =
     foldl (\<lambda>out i. out[i := query ! i]) out [kHeaderSize..<question_end]"

fun write_at :: "bytes \<Rightarrow> nat \<Rightarrow> bytes \<Rightarrow> bytes" where
  "write_at out a [] = out"
| "write_at out a (b # bs) = write_at (out[a := b]) (a + 1) bs"

definition build_block_a_response :: "bytes \<Rightarrow> dns_message \<Rightarrow> bytes" where
  [eval_simps]: "build_block_a_response query parsed =
     (let kAnswerLen = 16;
          q_end = question_section_end parsed;
          out = replicate (q_end + kAnswerLen) 0;
          out = write_response_header out query 1 0;
          out = copy_question_bytes out query q_end
      in write_at out q_end
           [0xc0, 0x0c, 0x00, 0x01, 0x00, 0x01, 0x00, 0x00, 0x01, 0x2c, 0x00, 0x04,
            0x00, 0x00, 0x00, 0x00])"

definition build_block_aaaa_response :: "bytes \<Rightarrow> dns_message \<Rightarrow> bytes" where
  [eval_simps]: "build_block_aaaa_response query parsed =
     (let kAnswerLen = 28;
          q_end = question_section_end parsed;
          out = replicate (q_end + kAnswerLen) 0;
          out = write_response_header out query 1 0;
          out = copy_question_bytes out query q_end
      in write_at out q_end
           ([0xc0, 0x0c, 0x00, 0x1c, 0x00, 0x01, 0x00, 0x00, 0x01, 0x2c, 0x00, 0x10]
            @ replicate 16 0x00))"

definition build_block_nodata_response :: "bytes \<Rightarrow> dns_message \<Rightarrow> bytes" where
  [eval_simps]: "build_block_nodata_response query parsed =
     (let q_end = question_section_end parsed;
          out = replicate q_end 0;
          out = write_response_header out query 0 0
      in copy_question_bytes out query q_end)"

definition build_refused_response :: "bytes \<Rightarrow> dns_message \<Rightarrow> bytes" where
  [eval_simps]: "build_refused_response query parsed =
     (let q_end = question_section_end parsed;
          out = replicate q_end 0;
          out = write_response_header out query 0 5
      in copy_question_bytes out query q_end)"

definition build_servfail_response :: "bytes \<Rightarrow> dns_message \<Rightarrow> bytes" where
  [eval_simps]: "build_servfail_response query parsed =
     (let q_end = question_section_end parsed;
          out = replicate q_end 0;
          out = write_response_header out query 0 2
      in copy_question_bytes out query q_end)"

text \<open>
  \<^verbatim>\<open>build_a_query\<close> scans the name twice with the same loop: at every dot and at the end of the text
  the octets since \<^verbatim>\<open>label_start\<close> form a label. \<open>query_name_len\<close> is the first scan (lengths only, with
  its throws), \<open>query_name_bytes\<close> the second (emitting the labels).
\<close>

function query_name_len :: "string \<Rightarrow> nat \<Rightarrow> nat \<Rightarrow> nat \<Rightarrow> nat result" where
  "query_name_len qname i label_start wire_name_len =
     (if i \<le> length qname then
        if i = length qname \<or> qname ! i = CHR ''.'' then
          let label_len = i - label_start in
          if label_len = 0 \<or> label_len > kMaxLabel
          then Inl (InvalidArgument ''build_a_query: label length'')
          else query_name_len qname (i + 1) (i + 1) (wire_name_len + (1 + label_len))
        else query_name_len qname (i + 1) label_start wire_name_len
      else Inr wire_name_len)"
  by pat_completeness auto
termination by (relation "measure (\<lambda>(qname, i, _). Suc (length qname) - i)") auto

function query_name_bytes :: "string \<Rightarrow> nat \<Rightarrow> nat \<Rightarrow> bytes \<Rightarrow> bytes" where
  "query_name_bytes qname i label_start out =
     (if i \<le> length qname then
        if i = length qname \<or> qname ! i = CHR ''.'' then
          query_name_bytes qname (i + 1) (i + 1)
            (out @ [word_of_nat (i - label_start)]
                 @ map char_byte (take (i - label_start) (drop label_start qname)))
        else query_name_bytes qname (i + 1) label_start out
      else out)"
  by pat_completeness auto
termination by (relation "measure (\<lambda>(qname, i, _). Suc (length qname) - i)") auto

declare query_name_len.simps [simp del] query_name_bytes.simps [simp del]

definition build_a_query :: "string \<Rightarrow> u16 \<Rightarrow> bytes result" where
  [eval_simps]: "build_a_query qname i =
     (if qname = [] \<or> length qname > kMaxName
      then Inl (InvalidArgument ''build_a_query: qname length'')
      else if hd qname = CHR ''.'' \<or> last qname = CHR ''.''
      then Inl (InvalidArgument ''build_a_query: leading/trailing dot'')
      else bind_result (query_name_len qname 0 0 0) (\<lambda>n.
        let wire_name_len = n + 1 in
        if wire_name_len > kMaxName
        then Inl (InvalidArgument ''build_a_query: encoded name > 255'')
        else let out = replicate kHeaderSize 0;
               out = write_u16_be out 0 i;
               out = write_u16_be out 2 0x0100;
               out = write_u16_be out 4 1;
               out = write_u16_be out 6 0;
               out = write_u16_be out 8 0;
               out = write_u16_be out 10 0;
               out = query_name_bytes qname 0 0 out
           in Inr (out @ [0] @ [0, 1] @ [0, 1])))"

section \<open>Closed forms\<close>

definition response_header :: "bytes \<Rightarrow> u16 \<Rightarrow> byte \<Rightarrow> bytes" where
  "response_header query ancount rcode =
     [query ! 0, query ! 1,
      u16_hi (response_flags (read_u16_be query 2) rcode), u16_lo (response_flags (read_u16_be query 2) rcode),
      0, 1, u16_hi ancount, u16_lo ancount, 0, 0, 0, 0]"

lemma length_response_header [simp]: "length (response_header query an rc) = 12"
  by (simp add: response_header_def)

lemma write_response_header_eq:
  assumes "12 \<le> length out"
  shows "write_response_header out query an rc = response_header query an rc @ drop 12 out"
  using assms
  by (cases out rule: list_12_cases)
     (simp_all add: write_response_header_def response_header_def write_u16_be_def Let_def u16_hi_def u16_lo_def)

lemma write_at_eq:
  "a + length bs \<le> length out \<Longrightarrow> write_at out a bs = take a out @ bs @ drop (a + length bs) out"
proof (induction bs arbitrary: out a)
  case (Cons b bs)
  then have "write_at out a (b # bs) = take (Suc a) (out[a := b]) @ bs @ drop (Suc a + length bs) (out[a := b])"
    using Cons.IH [of "Suc a" "out[a := b]"] by simp
  with Cons.prems show ?case
    by (simp add: take_Suc_conv_app_nth)
qed simp

lemma foldl_copy_nth:
  "b \<le> length out \<Longrightarrow> length (foldl (\<lambda>out i. out[i := query ! i]) out [a..<b]) = length out \<and>
     (\<forall>j. foldl (\<lambda>out i. out[i := query ! i]) out [a..<b] ! j = (if a \<le> j \<and> j < b then query ! j else out ! j))"
  by (induction b) (auto simp: nth_list_update less_Suc_eq)

lemma copy_question_bytes_eq:
  assumes "12 \<le> q_end" "q_end \<le> length out" "q_end \<le> length query"
  shows "copy_question_bytes out query q_end = take 12 out @ drop 12 (take q_end query) @ drop q_end out"
  using foldl_copy_nth [OF assms(2), of query 12] assms
  by (auto simp: copy_question_bytes_def kHeaderSize_def nth_append intro!: nth_equalityI)

text \<open>Every synthesized response is the response header, the question octets of the query, and the answer.\<close>

lemmas builder_defs = build_block_a_response_def build_block_aaaa_response_def
  build_block_nodata_response_def build_refused_response_def build_servfail_response_def

lemma builder_eq:
  assumes "12 \<le> question_section_end m" "question_section_end m \<le> length query"
  shows
    "build_block_a_response query m = response_header query 1 0
       @ drop 12 (take (question_section_end m) query)
       @ [0xc0, 0x0c, 0, 1, 0, 1, 0, 0, 1, 0x2c, 0, 4, 0, 0, 0, 0]"
    "build_block_aaaa_response query m = response_header query 1 0
       @ drop 12 (take (question_section_end m) query)
       @ [0xc0, 0x0c, 0, 0x1c, 0, 1, 0, 0, 1, 0x2c, 0, 0x10] @ replicate 16 0"
    "build_block_nodata_response query m = response_header query 0 0
       @ drop 12 (take (question_section_end m) query)"
    "build_refused_response query m = response_header query 0 5
       @ drop 12 (take (question_section_end m) query)"
    "build_servfail_response query m = response_header query 0 2
       @ drop 12 (take (question_section_end m) query)"
  using assms
  by (simp_all add: builder_defs Let_def write_response_header_eq copy_question_bytes_eq write_at_eq
      del: write_at.simps)

section \<open>Parsing the synthesized responses\<close>

text \<open>
  \<open>plain_query query ls\<close>: the single question of \<open>query\<close> is the uncompressed name with the labels
  \<open>ls\<close>, which is what stub resolvers send.
\<close>

definition plain_query :: "bytes \<Rightarrow> bytes list \<Rightarrow> bool" where
  [eval_simps]: "plain_query query ls \<longleftrightarrow> 12 \<le> length query \<and> read_u16_be query 4 = 1 \<and>
     list_all label_ok ls \<and> length (labels_text ls) \<le> kMaxNameSize \<and>
     16 + length (enc_labels ls) < length query \<and>
     take (length (enc_labels ls) + 1) (drop 12 query) = enc_labels ls @ [0]"

lemma plain_query_split:
  assumes "plain_query query ls"
  obtains t1 t2 c1 c2 rest where
    "query = take 12 query @ enc_labels ls @ 0 # t1 # t2 # c1 # c2 # rest"
proof -
  let ?n = "length (enc_labels ls)"
  let ?rest = "drop (?n + 1) (drop 12 query)"
  have q: "query = take 12 query @ take (?n + 1) (drop 12 query) @ ?rest"
    by (simp only: append_take_drop_id)
  have "4 \<le> length ?rest" using assms by (auto simp: plain_query_def)
  then obtain t1 t2 c1 c2 rest where "?rest = t1 # t2 # c1 # c2 # rest"
    by (rule list_4_cases)
  moreover have "take (?n + 1) (drop 12 query) = enc_labels ls @ [0]"
    using assms by (simp add: plain_query_def)
  ultimately have "query = take 12 query @ enc_labels ls @ 0 # t1 # t2 # c1 # c2 # rest"
    using q by simp
  then show ?thesis by (rule that)
qed

lemma plain_query_question:
  assumes "plain_query query ls" "parse query = Inr m"
  shows "question_section_end m = 12 + length (enc_labels ls) + 5"
    "questions m = [\<lparr>q_name = labels_text ls,
        q_type = read_u16_be query (13 + length (enc_labels ls)),
        q_class = read_u16_be query (15 + length (enc_labels ls))\<rparr>]"
    "question_section_end m \<le> length query"
proof -
  obtain t1 t2 c1 c2 rest where q: "query = take 12 query @ enc_labels ls @ 0 # t1 # t2 # c1 # c2 # rest"
    using assms(1) by (rule plain_query_split)
  have l12: "length (take 12 query) = 12" using assms(1) by (simp add: plain_query_def)
  have d: "decode_name query 12 = Inr (labels_text ls, 12 + length (enc_labels ls) + 1)"
    using decode_name_enc_labels [of ls "take 12 query" "t1 # t2 # c1 # c2 # rest"] assms(1) l12 q
    by (simp add: plain_query_def)
  from assms(2) obtain e where e: "parse_to query = Inr (m, e)" by (auto simp: parse_eq_Inr)
  have one: "hdr_qdcount (msg_header m) = 1"
    using e assms(1) by (auto simp: parse_to_eq_Inr parse_header_eq_Inr header_of_flags_def plain_query_def)
  from e one have pq: "parse_questions query 12 1 = Inr (questions m, question_section_end m)"
    by (auto simp: parse_to_eq_Inr kHeaderSize_def)
  have len: "12 + length (enc_labels ls) + 5 \<le> length query" using assms(1) by (simp add: plain_query_def)
  from pq d show "question_section_end m = 12 + length (enc_labels ls) + 5"
    and "questions m = [\<lparr>q_name = labels_text ls,
        q_type = read_u16_be query (13 + length (enc_labels ls)),
        q_class = read_u16_be query (15 + length (enc_labels ls))\<rparr>]"
    by (auto simp: parse_question_eq_Inr)
  with len show "question_section_end m \<le> length query" by simp
qed

text \<open>The flag word of a response, bit by bit, and the header it parses to.\<close>

lemma flag_bit: "drop_bit n (w :: u16) AND 1 \<noteq> 0 \<longleftrightarrow> bit w n"
  by (simp add: bit_iff_odd_drop_bit and_one_eq odd_iff_mod_2_eq_one)

lemma flag_masks:
  "bit (0x8000 :: u16) n \<longleftrightarrow> n = 15" "bit (0x0100 :: u16) n \<longleftrightarrow> n = 8" "bit (0x0080 :: u16) n \<longleftrightarrow> n = 7"
  "bit (0x7800 :: u16) n \<longleftrightarrow> 11 \<le> n \<and> n \<le> 14" "bit (0x0F :: u16) n \<longleftrightarrow> n < 4" "bit (0x0F :: byte) n \<longleftrightarrow> n < 4"
proof -
  have eqs: "(0x8000 :: u16) = push_bit 15 1" "(0x0100 :: u16) = push_bit 8 1" "(0x0080 :: u16) = push_bit 7 1"
    "(0x7800 :: u16) = push_bit 11 (mask 4)" "(0x0F :: u16) = mask 4" "(0x0F :: byte) = mask 4"
    by (simp_all add: mask_eq_exp_minus_1)
  show "bit (0x8000 :: u16) n \<longleftrightarrow> n = 15" by (simp only: eqs bit_push_bit_iff bit_1_iff) auto
  show "bit (0x0100 :: u16) n \<longleftrightarrow> n = 8" by (simp only: eqs bit_push_bit_iff bit_1_iff) auto
  show "bit (0x0080 :: u16) n \<longleftrightarrow> n = 7" by (simp only: eqs bit_push_bit_iff bit_1_iff) auto
  show "bit (0x7800 :: u16) n \<longleftrightarrow> 11 \<le> n \<and> n \<le> 14" by (simp only: eqs bit_push_bit_iff bit_mask_iff) auto
  show "bit (0x0F :: u16) n \<longleftrightarrow> n < 4" "bit (0x0F :: byte) n \<longleftrightarrow> n < 4"
    by (simp_all only: eqs bit_mask_iff) auto
qed

lemma bit_response_flags:
  "bit (response_flags f rc) n \<longleftrightarrow> n = 15 \<or> n = 7 \<or> (11 \<le> n \<and> n \<le> 14 \<or> n = 8) \<and> bit f n \<or> n < 4 \<and> bit rc n"
  unfolding response_flags_def
  by (simp only: bit_or_iff bit_and_iff flag_masks bit_ucast_iff) auto

lemma header_response_flags:
  "header_of_flags i (response_flags f rc) qd an ns ar =
     \<lparr>hdr_id = i, hdr_qr = True, hdr_aa = False, hdr_tc = False, hdr_rd = bit f 8, hdr_ra = True,
      hdr_opcode = ucast (drop_bit 11 f AND 0x0F), hdr_rcode = rc AND 0x0F,
      hdr_qdcount = qd, hdr_ancount = an, hdr_nscount = ns, hdr_arcount = ar\<rparr>"
proof -
  have 1: "ucast (drop_bit 11 (response_flags f rc) AND 0x0F) = (ucast (drop_bit 11 f AND 0x0F) :: byte)"
    by (rule bit_word_eqI)
      (auto simp only: bit_ucast_iff bit_and_iff bit_drop_bit_eq flag_masks bit_response_flags o_def)
  have 2: "ucast (response_flags f rc AND 0x0F) = (rc AND 0x0F :: byte)"
    by (rule bit_word_eqI) (auto simp only: bit_ucast_iff bit_and_iff flag_masks bit_response_flags)
  show ?thesis by (simp only: header_of_flags_def flag_bit bit_response_flags 1 2) auto
qed

text \<open>The header of a synthesized response to the message \<open>m\<close>.\<close>

definition reply_header :: "dns_message \<Rightarrow> u16 \<Rightarrow> byte \<Rightarrow> header" where
  [eval_simps]: "reply_header m ancount rcode =
     \<lparr>hdr_id = hdr_id (msg_header m), hdr_qr = True, hdr_aa = False, hdr_tc = False,
      hdr_rd = hdr_rd (msg_header m), hdr_ra = True, hdr_opcode = hdr_opcode (msg_header m),
      hdr_rcode = rcode, hdr_qdcount = 1, hdr_ancount = ancount, hdr_nscount = 0, hdr_arcount = 0\<rparr>"

lemma parse_header_response:
  assumes "parse query = Inr m" "rc AND 0x0F = rc"
  shows "parse_header (response_header query an rc @ rest) = Inr (reply_header m an rc)"
proof -
  let ?r = "response_header query an rc @ rest"
  let ?f = "response_flags (read_u16_be query 2) rc"
  have reads: "read_u16_be ?r 0 = read_u16_be query 0" "read_u16_be ?r 2 = ?f"
    "read_u16_be ?r 4 = 1" "read_u16_be ?r 6 = an" "read_u16_be ?r 8 = 0" "read_u16_be ?r 10 = 0"
    by (simp_all add: response_header_def read_u16_be_def) (simp_all add: u16_of_def)
  have h: "msg_header m = header_of_flags (read_u16_be query 0) (read_u16_be query 2) (read_u16_be query 4)
           (read_u16_be query 6) (read_u16_be query 8) (read_u16_be query 10)"
    using assms(1) by (auto simp: parse_eq_Inr parse_to_eq_Inr parse_header_eq_Inr)
  have "parse_header ?r = Inr (header_of_flags (read_u16_be query 0) ?f 1 an 0 0)"
    by (simp add: parse_header_eq_Inr reads kHeaderSize_def)
  also have "\<dots> = Inr (reply_header m an rc)"
    by (simp add: header_response_flags reply_header_def h assms(2))
       (simp add: header_of_flags_def flag_bit)
  finally show ?thesis .
qed

lemma response_question:
  fixes an :: u16 and rc :: byte
  assumes "plain_query query ls" "parse query = Inr m"
  defines "pre \<equiv> response_header query an rc @ drop 12 (take (question_section_end m) query)"
  shows "length pre = question_section_end m"
    "decode_name_loop (pre @ ans) 12 hops [] ap ci =
       Inr (labels_text ls, if \<not> ap then 13 + length (enc_labels ls) else ci)"
    "parse_questions (pre @ ans) kHeaderSize 1 = Inr (questions m, question_section_end m)"
proof -
  let ?n = "length (enc_labels ls)"
  obtain t1 t2 c1 c2 rest where q: "query = take 12 query @ enc_labels ls @ 0 # t1 # t2 # c1 # c2 # rest"
    using assms(1) by (rule plain_query_split)
  note qm = plain_query_question [OF assms(1,2)]
  have l12: "12 \<le> length query" using assms(1) by (simp add: plain_query_def)
  have "drop 12 (take (question_section_end m) query) = enc_labels ls @ [0, t1, t2, c1, c2]"
    by (subst q) (simp add: qm l12 min_absorb2)
  then have pre: "pre = response_header query an rc @ enc_labels ls @ 0 # [t1, t2, c1, c2]"
    by (simp add: pre_def)
  then show len: "length pre = question_section_end m" by (simp add: qm)
  have "list_all label_ok ls" "length (labels_text ls) \<le> kMaxNameSize"
    using assms(1) by (simp_all add: plain_query_def)
  then have dec: "decode_name_loop (pre @ ans) 12 hops [] ap ci =
       Inr (labels_text ls, if \<not> ap then 13 + ?n else ci)" for hops ap ci
    using decode_enc_labels [of ls "[]" "response_header query an rc" "t1 # t2 # c1 # c2 # ans" hops ap ci]
    by (simp add: pre)
  then show "decode_name_loop (pre @ ans) 12 hops [] ap ci =
       Inr (labels_text ls, if \<not> ap then 13 + ?n else ci)" .
  have "read_u16_be query (13 + ?n) = u16_of t1 t2"
    by (subst q) (simp add: read_u16_be_def nth_append nth_Cons' l12 min_absorb2)
  moreover have "read_u16_be query (15 + ?n) = u16_of c1 c2"
    by (subst q) (simp add: read_u16_be_def nth_append nth_Cons' l12 min_absorb2)
  moreover have "read_u16_be (pre @ ans) (13 + ?n) = u16_of t1 t2"
    "read_u16_be (pre @ ans) (15 + ?n) = u16_of c1 c2"
    by (simp_all add: pre read_u16_be_def nth_append nth_Cons')
  ultimately have reads: "read_u16_be (pre @ ans) (13 + ?n) = read_u16_be query (13 + ?n)"
    "read_u16_be (pre @ ans) (15 + ?n) = read_u16_be query (15 + ?n)" by simp_all
  show "parse_questions (pre @ ans) kHeaderSize 1 = Inr (questions m, question_section_end m)"
    using dec len reads by (simp add: kHeaderSize_def decode_name_def parse_question_eq_Inr qm)
qed

lemma parse_empty_reply:
  assumes "plain_query query ls" "parse query = Inr m" "rc AND 0x0F = rc"
  shows "parse (response_header query 0 rc @ drop 12 (take (question_section_end m) query)) =
     Inr \<lparr>msg_header = reply_header m 0 rc, questions = questions m, answers = [], authority = [],
          additional = [], question_section_end = question_section_end m\<rparr>"
  using response_question(3) [OF assms(1,2), of 0 rc "[]"] parse_header_response [OF assms(2,3)]
  by (simp add: parse_eq_Inr parse_to_eq_Inr reply_header_def)

lemma parse_rr_after_pointer:
  assumes ans: "ans = [0xc0, 0x0c, 0, ty, 0, 1, 0, 0, 1, 0x2c, 0, len] @ rdata" "length rdata = unat len"
    and dec: "decode_name_loop (pre @ ans) 12 1 [] True (length pre + 2) = Inr (nm, length pre + 2)"
    and pre: "12 < length pre"
  shows "parse_rr (pre @ ans) (length pre) = Inr (\<lparr>rr_name = nm, rr_type = ucast ty, rr_class = 1,
      rr_ttl = 300, rr_off = length pre + 12, rr_rdata = rdata\<rparr>, length pre + 12 + unat len)"
proof -
  let ?p = "pre @ ans" and ?e = "length pre"
  have ptr: "?p ! ?e = 0xC0" "?p ! (?e + 1) = 0x0C" by (simp_all add: ans nth_append)
  have "target_at ?p ?e = 12" by (simp only: ptr) (simp add: pointer_target_def u16_of_def)
  then have "decode_name ?p ?e = decode_name_loop ?p 12 1 [] True (?e + 2)"
    using pre by (subst decode_name_def, subst decode_pointer) (simp_all add: ptr kMaxPointerHops_def, simp_all add: ans)
  with dec have "decode_name ?p ?e = Inr (nm, ?e + 2)" by simp
  moreover have "read_u16_be ?p (?e + 2) = ucast ty" "read_u16_be ?p (?e + 2 + 2) = 1"
    "read_u32_be ?p (?e + 2 + 4) = 300" "read_u16_be ?p (?e + 2 + 8) = ucast len"
    by (simp_all add: add.assoc wire_simps del: add_2_eq_Suc add_2_eq_Suc')
       (simp_all add: ans read_u16_be_def read_u32_be_def u16_of_def u32_of_def)
  moreover have "take (unat len) (drop (?e + 2 + 10) ?p) = rdata" "length ?p = ?e + 12 + unat len"
    using ans by simp_all
  ultimately show ?thesis using ans(2)
    by (simp add: parse_rr_eq_Inr unat_ucast_u16 del: add_2_eq_Suc add_2_eq_Suc' length_append drop_append)
qed

lemma parse_sinkhole_reply:
  assumes "plain_query query ls" "parse query = Inr m"
    and ans: "ans = [0xc0, 0x0c, 0, ty, 0, 1, 0, 0, 1, 0x2c, 0, len] @ rdata" "length rdata = unat len"
  shows "parse (response_header query 1 0 @ drop 12 (take (question_section_end m) query) @ ans) =
     Inr \<lparr>msg_header = reply_header m 1 0, questions = questions m,
          answers = [\<lparr>rr_name = q_name (hd (questions m)), rr_type = ucast ty, rr_class = 1, rr_ttl = 300,
                       rr_off = question_section_end m + 12, rr_rdata = rdata\<rparr>],
          authority = [], additional = [], question_section_end = question_section_end m\<rparr>"
proof -
  define pre where "pre = response_header query 1 0 @ drop 12 (take (question_section_end m) query)"
  note rq = response_question [OF assms(1,2), of 1 0, folded pre_def]
  note qm = plain_query_question [OF assms(1,2)]
  have "decode_name_loop (pre @ ans) 12 1 [] True (length pre + 2) =
      Inr (q_name (hd (questions m)), length pre + 2)"
    using rq(2) [of ans 1 True "length pre + 2"] by (simp add: qm)
  from parse_rr_after_pointer [OF ans this]
  have rr: "parse_rr (pre @ ans) (question_section_end m) = Inr (\<lparr>rr_name = q_name (hd (questions m)),
      rr_type = ucast ty, rr_class = 1, rr_ttl = 300, rr_off = question_section_end m + 12, rr_rdata = rdata\<rparr>,
      question_section_end m + 12 + unat len)"
    by (simp add: rq(1) qm)
  have "parse_header (pre @ ans) = Inr (reply_header m 1 0)"
    using parse_header_response [OF assms(2), of 0 1] by (simp add: pre_def)
  with rr rq(3) [of ans] have "parse (pre @ ans) = Inr \<lparr>msg_header = reply_header m 1 0, questions = questions m,
          answers = [\<lparr>rr_name = q_name (hd (questions m)), rr_type = ucast ty, rr_class = 1, rr_ttl = 300,
                       rr_off = question_section_end m + 12, rr_rdata = rdata\<rparr>],
          authority = [], additional = [], question_section_end = question_section_end m\<rparr>"
    by (simp add: parse_eq_Inr parse_to_eq_Inr reply_header_def)
  then show ?thesis by (simp add: pre_def)
qed

section \<open>The re-query\<close>

text \<open>The dot-separated labels of a name, and how the two scans of \<^verbatim>\<open>build_a_query\<close> see them.\<close>

fun split_dots :: "string \<Rightarrow> string list" where
  "split_dots [] = [[]]"
| "split_dots (c # cs) =
     (if c = CHR ''.'' then [] # split_dots cs
      else (case split_dots cs of [] \<Rightarrow> [[c]] | l # ls \<Rightarrow> (c # l) # ls))"

abbreviation wire_labels :: "string \<Rightarrow> bytes list" where
  "wire_labels s \<equiv> map (map char_byte) (split_dots s)"

lemma split_dots_no_dot: "CHR ''.'' \<notin> set p \<Longrightarrow> split_dots p = [p]"
  by (induction p) auto

lemma split_dots_at_dot: "CHR ''.'' \<notin> set p \<Longrightarrow> split_dots (p @ CHR ''.'' # r) = p # split_dots r"
  by (induction p) auto

lemma split_dots_not_Nil [simp]: "split_dots s \<noteq> []"
  by (induction s) (auto split: list.splits)

lemma join_split_dots: "concat (map (\<lambda>l. CHR ''.'' # l) (split_dots s)) = CHR ''.'' # s"
  by (induction s) (auto split: list.splits)

text \<open>Where a scan stands at \<open>i\<close> with the current label begun at \<open>st\<close>.\<close>

definition scanning :: "string \<Rightarrow> nat \<Rightarrow> nat \<Rightarrow> bool" where
  "scanning q i st \<longleftrightarrow> st \<le> i \<and> i \<le> length q \<and> CHR ''.'' \<notin> set (take (i - st) (drop st q))"

lemma scanning_end:
  assumes "scanning q i st" "i = length q"
  shows "split_dots (drop st q) = [take (i - st) (drop st q)]"
  using assms by (simp add: scanning_def split_dots_no_dot)

lemma scanning_dot:
  assumes "scanning q i st" "i < length q" "q ! i = CHR ''.''"
  shows "split_dots (drop st q) = take (i - st) (drop st q) # split_dots (drop (Suc i) q)"
    "scanning q (Suc i) (Suc i)"
proof -
  have "drop st q = take (i - st) (drop st q) @ drop i q"
    using assms(1) append_take_drop_id [of "i - st" "drop st q"] by (simp add: scanning_def)
  also have "drop i q = CHR ''.'' # drop (Suc i) q"
    using assms(2,3) by (simp add: Cons_nth_drop_Suc [symmetric])
  finally have "split_dots (drop st q) = split_dots (take (i - st) (drop st q) @ CHR ''.'' # drop (Suc i) q)"
    by simp
  then show "split_dots (drop st q) = take (i - st) (drop st q) # split_dots (drop (Suc i) q)"
    using assms(1) by (simp add: scanning_def split_dots_at_dot)
  show "scanning q (Suc i) (Suc i)" using assms(2) by (simp add: scanning_def)
qed

lemma scanning_step:
  assumes "scanning q i st" "i < length q" "q ! i \<noteq> CHR ''.''"
  shows "scanning q (Suc i) st"
proof -
  have "take (Suc (i - st)) (drop st q) = take (i - st) (drop st q) @ [q ! i]"
    using assms(1,2) by (subst take_Suc_conv_app_nth) (auto simp: scanning_def)
  with assms show ?thesis by (simp add: scanning_def Suc_diff_le)
qed

lemma query_name_bytes_eq:
  "scanning q i st \<Longrightarrow> query_name_bytes q i st out = out @ enc_labels (wire_labels (drop st q))"
proof (induction q i st out rule: query_name_bytes.induct)
  case (1 q i st out)
  have le: "i \<le> length q" using "1.prems" by (simp add: scanning_def)
  consider (e) "i = length q" | (d) "i < length q" "q ! i = CHR ''.''" | (s) "i < length q" "q ! i \<noteq> CHR ''.''"
    using le by linarith
  then show ?case
  proof cases
    case e
    have "query_name_bytes q (Suc i) st' out' = out'" for st' out'
      using e by (subst query_name_bytes.simps) simp
    with scanning_end [OF "1.prems" e] e "1.prems" show ?thesis
      by (subst query_name_bytes.simps) (auto simp: scanning_def)
  next
    case d
    with "1.IH"(1) "1.prems" scanning_dot [OF "1.prems" d] show ?thesis
      by (subst query_name_bytes.simps) (auto simp: scanning_def min_def)
  next
    case s
    with "1.IH"(2) scanning_step [OF "1.prems" s] show ?thesis
      by (subst query_name_bytes.simps) simp
  qed
qed

lemma query_name_len_eq:
  "scanning q i st \<Longrightarrow> query_name_len q i st w =
     (if list_all label_ok (wire_labels (drop st q)) then Inr (w + length (enc_labels (wire_labels (drop st q))))
      else Inl (InvalidArgument ''build_a_query: label length''))"
proof (induction q i st w rule: query_name_len.induct)
  case (1 q i st w)
  have le: "i \<le> length q" using "1.prems" by (simp add: scanning_def)
  let ?l = "take (i - st) (drop st q)"
  have len: "length ?l = i - st" using "1.prems" by (auto simp: scanning_def)
  then have ok: "label_ok (map char_byte ?l) \<longleftrightarrow> \<not> (i - st = 0 \<or> i - st > kMaxLabel)"
    by (simp only: label_ok_def kMaxLabel_def length_map) auto
  consider (e) "i = length q" | (d) "i < length q" "q ! i = CHR ''.''" | (s) "i < length q" "q ! i \<noteq> CHR ''.''"
    using le by linarith
  then show ?case
  proof cases
    case e
    have "query_name_len q (Suc i) st' w' = Inr w'" for st' w'
      using e by (subst query_name_len.simps) simp
    with scanning_end [OF "1.prems" e] e len ok show ?thesis
      by (subst query_name_len.simps) (auto simp: Let_def)
  next
    case d
    with "1.IH"(1) len ok scanning_dot [OF "1.prems" d] show ?thesis
      by (subst query_name_len.simps) (auto simp: Let_def)
  next
    case s
    with "1.IH"(2) scanning_step [OF "1.prems" s] show ?thesis
      by (subst query_name_len.simps) simp
  qed
qed

lemma split_dots_snoc_dot:
  "last (split_dots (p @ ''.'')) = [] \<and> 2 \<le> length (split_dots (p @ ''.''))"
  by (induction p) (auto split: list.splits)

lemma wire_labels_ok_ends:
  assumes "list_all label_ok (wire_labels q)"
  shows "q \<noteq> []" "hd q \<noteq> CHR ''.''" "last q \<noteq> CHR ''.''"
proof -
  have ne: "[] \<notin> set (split_dots q)" using assms by (auto simp: list_all_iff label_ok_def)
  then show q: "q \<noteq> []" by auto
  show "hd q \<noteq> CHR ''.''" using ne q by (cases q) auto
  show "last q \<noteq> CHR ''.''"
  proof
    assume "last q = CHR ''.''"
    with q have "q = butlast q @ ''.''" by (metis append_butlast_last_id)
    with ne split_dots_snoc_dot [of "butlast q"] show False
      by (metis last_in_set split_dots_not_Nil)
  qed
qed

lemma length_enc_wire_labels [simp]: "length (enc_labels (wire_labels q)) = length q + 1"
proof -
  have "length (enc_labels (map (map char_byte) ls)) = length (concat (map (\<lambda>l. CHR ''.'' # l) ls))" for ls
    by (induction ls) auto
  then show ?thesis by (simp only: join_split_dots) simp
qed

lemma labels_text_wire_labels:
  assumes "list_all label_ok (wire_labels q)"
  shows "labels_text (wire_labels q) = map lower_char q"
proof -
  have fold: "out \<noteq> [] \<Longrightarrow> foldl append_label out (map (map char_byte) ls)
      = out @ concat (map (\<lambda>l. CHR ''.'' # map lower_char l) ls)" for out ls
    by (induction ls arbitrary: out) (auto simp: append_label_def)
  obtain l ls where s: "split_dots q = l # ls" by (cases "split_dots q") auto
  with assms have l: "l \<noteq> []" by (auto simp: label_ok_def)
  have "CHR ''.'' # labels_text (wire_labels q) = concat (map (\<lambda>l. CHR ''.'' # map lower_char l) (split_dots q))"
    using l fold [of "map lower_char l" ls] by (simp add: s append_label_def o_def)
  also have "\<dots> = map lower_char (concat (map (\<lambda>l. CHR ''.'' # l) (split_dots q)))"
    by (simp add: map_concat o_def)
  also have "\<dots> = CHR ''.'' # map lower_char q" by (simp only: join_split_dots) simp
  finally show ?thesis by simp
qed

lemma build_a_query_eq_Inr:
  "build_a_query q i = Inr out \<longleftrightarrow> list_all label_ok (wire_labels q) \<and> length q \<le> 253 \<and>
     out = [u16_hi i, u16_lo i, 1, 0, 0, 1, 0, 0, 0, 0, 0, 0] @ enc_labels (wire_labels q) @ [0, 0, 1, 0, 1]"
proof -
  have "scanning q 0 0" by (simp add: scanning_def)
  note scans = query_name_bytes_eq [OF this] query_name_len_eq [OF this]
  have hdr: "write_u16_be (write_u16_be (write_u16_be (write_u16_be (write_u16_be (write_u16_be
      (replicate 12 0) 0 i) 2 0x0100) 4 1) 6 0) 8 0) 10 0 = [u16_hi i, u16_lo i, 1, 0, 0, 1, 0, 0, 0, 0, 0, 0]"
    by (simp add: write_u16_be_def numeral_eq_Suc) (simp add: u16_hi_def u16_lo_def)
  show ?thesis
    using wire_labels_ok_ends [of q]
    by (auto simp: build_a_query_def scans hdr kHeaderSize_def kMaxName_def Let_def)
qed

lemma parse_a_query:
  assumes "build_a_query q i = Inr out"
  shows "parse out = Inr \<lparr>msg_header = \<lparr>hdr_id = i, hdr_qr = False, hdr_aa = False, hdr_tc = False,
        hdr_rd = True, hdr_ra = False, hdr_opcode = 0, hdr_rcode = 0, hdr_qdcount = 1, hdr_ancount = 0,
        hdr_nscount = 0, hdr_arcount = 0\<rparr>,
      questions = [\<lparr>q_name = map lower_char q, q_type = 1, q_class = 1\<rparr>],
      answers = [], authority = [], additional = [], question_section_end = length q + 18\<rparr>"
proof -
  define hdr :: bytes where "hdr = [u16_hi i, u16_lo i, 1, 0, 0, 1, 0, 0, 0, 0, 0, 0]"
  have ok: "list_all label_ok (wire_labels q)" "length q \<le> 253"
    and out: "out = hdr @ enc_labels (wire_labels q) @ 0 # [0, 1, 0, 1]"
    using assms by (simp_all add: build_a_query_eq_Inr hdr_def)
  have l: "length hdr = 12" by (simp add: hdr_def)
  have "decode_name out 12 = Inr (map lower_char q, length q + 14)"
    using decode_name_enc_labels [OF ok(1), of hdr "[0, 1, 0, 1]"] ok(2)
    by (simp add: out l labels_text_wire_labels [OF ok(1)] kMaxNameSize_def)
  moreover have "read_u16_be out (length q + 14) = 1" "read_u16_be out (16 + length q) = 1"
    by (simp_all add: out read_u16_be_def nth_append l nth_Cons' u16_of_def)
  moreover have "read_u16_be out 0 = i" "read_u16_be out 2 = 0x0100" "read_u16_be out 4 = 1"
    "read_u16_be out 6 = 0" "read_u16_be out 8 = 0" "read_u16_be out 10 = 0"
    by (simp_all add: out hdr_def read_u16_be_def) (simp_all add: u16_of_def)
  ultimately show ?thesis using l
    by (simp add: parse_eq_Inr parse_to_eq_Inr parse_header_eq_Inr kHeaderSize_def header_of_flags_def
        parse_question_eq_Inr out)
qed

section \<open>Properties\<close>

text \<open>C36: Sinkhole answers. For a query with one uncompressed question, the A and AAAA block responses
  parse back to a NOERROR response that echoes the query's id, opcode, RD bit and question and carries
  exactly one answer for the asked name, of class IN and TTL 300, whose data is the unspecified
  address 0.0.0.0 or ::.
\<close>

theorem sinkhole_responses_parse:
  assumes "plain_query query ls" "parse query = Inr m"
  shows "parse (build_block_a_response query m) =
      Inr \<lparr>msg_header = reply_header m 1 0, questions = questions m,
          answers = [\<lparr>rr_name = q_name (hd (questions m)), rr_type = dns_type_A, rr_class = 1, rr_ttl = 300,
                       rr_off = question_section_end m + 12, rr_rdata = replicate 4 0\<rparr>],
          authority = [], additional = [], question_section_end = question_section_end m\<rparr>
    \<and> parse (build_block_aaaa_response query m) =
      Inr \<lparr>msg_header = reply_header m 1 0, questions = questions m,
          answers = [\<lparr>rr_name = q_name (hd (questions m)), rr_type = dns_type_AAAA, rr_class = 1, rr_ttl = 300,
                       rr_off = question_section_end m + 12, rr_rdata = replicate 16 0\<rparr>],
          authority = [], additional = [], question_section_end = question_section_end m\<rparr>"
proof -
  have "12 \<le> question_section_end m" "question_section_end m \<le> length query"
    using plain_query_question [OF assms] by simp_all
  note b = builder_eq [OF this]
  show ?thesis
    using parse_sinkhole_reply [OF assms, of _ 1 4 "[0, 0, 0, 0]"]
      parse_sinkhole_reply [OF assms, of _ 28 16 "replicate 16 0"]
    by (simp add: b dns_type_A_def dns_type_AAAA_def) (simp add: numeral_eq_Suc)
qed

lemma plain_sample_query: "plain_query sample_query [[0x41, 0x64], [0x58]]"
  by (simp add: eval_simps char_of_eq_iff)

theorem sinkhole_responses_parse_witness:
  "\<exists>m. parse sample_query = Inr m \<and> parse (build_block_a_response sample_query m) =
      Inr \<lparr>msg_header = reply_header m 1 0, questions = questions m,
          answers = [\<lparr>rr_name = ''ad.x'', rr_type = 1, rr_class = 1, rr_ttl = 300,
                       rr_off = 34, rr_rdata = [0, 0, 0, 0]\<rparr>],
          authority = [], additional = [], question_section_end = 22\<rparr>"
  using sinkhole_responses_parse [OF plain_sample_query parse_sample_query] parse_sample_query
  by (simp add: dns_type_A_def numeral_eq_Suc)

text \<open>Empty answers. For the same queries the NODATA, REFUSED and SERVFAIL responses parse back to
  the echoed question with no record at all and the rcode 0, 5 and 2.
\<close>

theorem empty_responses_parse:
  assumes "plain_query query ls" "parse query = Inr m"
  shows "parse (build_block_nodata_response query m) =
      Inr \<lparr>msg_header = reply_header m 0 0, questions = questions m, answers = [], authority = [],
          additional = [], question_section_end = question_section_end m\<rparr>
    \<and> parse (build_refused_response query m) =
      Inr \<lparr>msg_header = reply_header m 0 5, questions = questions m, answers = [], authority = [],
          additional = [], question_section_end = question_section_end m\<rparr>
    \<and> parse (build_servfail_response query m) =
      Inr \<lparr>msg_header = reply_header m 0 2, questions = questions m, answers = [], authority = [],
          additional = [], question_section_end = question_section_end m\<rparr>"
proof -
  have "12 \<le> question_section_end m" "question_section_end m \<le> length query"
    using plain_query_question [OF assms] by simp_all
  note b = builder_eq [OF this]
  show ?thesis by (simp add: b parse_empty_reply [OF assms])
qed

theorem empty_responses_parse_witness:
  "\<exists>m. parse sample_query = Inr m \<and> parse (build_refused_response sample_query m) =
      Inr \<lparr>msg_header = reply_header m 0 5, questions = questions m, answers = [], authority = [],
          additional = [], question_section_end = 22\<rparr>"
  using empty_responses_parse [OF plain_sample_query parse_sample_query] parse_sample_query by simp

text \<open>Re-query round trip. \<^verbatim>\<open>build_a_query\<close> accepts exactly the names of at most 253 characters whose
  dot-separated labels have 1 to 63 characters, and what it emits parses to a recursive query with the
  given id and the single question A IN for that name (in lower case).
\<close>

theorem build_a_query_roundtrip:
  "(case build_a_query q i of
      Inl e \<Rightarrow> \<not> (list_all (\<lambda>l. 1 \<le> length l \<and> length l \<le> 63) (split_dots q) \<and> length q \<le> 253)
    | Inr out \<Rightarrow> list_all (\<lambda>l. 1 \<le> length l \<and> length l \<le> 63) (split_dots q) \<and> length q \<le> 253 \<and>
        parse out = Inr \<lparr>msg_header = \<lparr>hdr_id = i, hdr_qr = False, hdr_aa = False, hdr_tc = False,
            hdr_rd = True, hdr_ra = False, hdr_opcode = 0, hdr_rcode = 0, hdr_qdcount = 1, hdr_ancount = 0,
            hdr_nscount = 0, hdr_arcount = 0\<rparr>,
          questions = [\<lparr>q_name = map lower_char q, q_type = dns_type_A, q_class = 1\<rparr>],
          answers = [], authority = [], additional = [], question_section_end = length q + 18\<rparr>)"
proof (cases "build_a_query q i")
  case (Inl e)
  have "\<not> (list_all label_ok (wire_labels q) \<and> length q \<le> 253)"
    using Inl iffD2 [OF build_a_query_eq_Inr [of q i], OF conjI, OF _ conjI, OF _ _ refl] by fastforce
  with Inl show ?thesis by (auto simp: list_all_iff label_ok_def Suc_le_eq)
next
  case (Inr out)
  then have "list_all label_ok (wire_labels q) \<and> length q \<le> 253" by (simp add: build_a_query_eq_Inr)
  with Inr parse_a_query [OF Inr] show ?thesis
    by (simp add: dns_type_A_def list_all_iff label_ok_def Suc_le_eq)
qed

text \<open>The REFUSED answer to a query without a question is malformed. \<^verbatim>\<open>write_response_header\<close> always
  announces one question, but there are no question octets to copy: the twelve octets sent are rejected
  by the program's own parser.
\<close>

theorem refused_without_question_malformed:
  assumes "parse query = Inr m" "questions m = []"
  shows "parse (build_refused_response query m) = Inl (ParseError ''name: offset out of bounds'')"
proof -
  obtain e where e: "parse_to query = Inr (m, e)" using assms(1) by (auto simp: parse_eq_Inr)
  have "unat (hdr_qdcount (msg_header m)) = 0"
    using parse_to_wf(1) [OF e] assms(2) by (simp add: msg_wf_def)
  with e have qe: "question_section_end m = 12" and len: "12 \<le> length query"
    by (auto simp: parse_to_eq_Inr parse_header_eq_Inr kHeaderSize_def)
  then have "build_refused_response query m = response_header query 0 5"
    using builder_eq(4) [of m query] by simp
  moreover have "parse_header (response_header query 0 5) = Inr (reply_header m 0 5)"
    using parse_header_response [OF assms(1), of 5 0 "[]"] by simp
  moreover have "decode_name (response_header query 0 5) 12 = Inl (ParseError ''name: offset out of bounds'')"
    by (simp add: decode_name_def, subst decode_name_loop.simps) simp
  ultimately show ?thesis
    by (simp add: parse_def parse_to_def reply_header_def kHeaderSize_def parse_question_def)
qed

theorem refused_without_question_malformed_witness:
  "\<exists>m. parse (replicate 12 0) = Inr m \<and> questions m = [] \<and>
     parse (build_refused_response (replicate 12 0) m) = Inl (ParseError ''name: offset out of bounds'')"
proof -
  obtain m where m: "parse (replicate 12 0) = Inr m" "questions m = []"
    by (simp add: eval_simps numeral_eq_Suc)
  with refused_without_question_malformed [OF m] show ?thesis by blast
qed

end
