(* ===== verification/Etld.thy ===== *)
theory Etld
  imports Prelude
begin

text \<open>
  \<^verbatim>\<open>etld.cpp\<close>: the registrable domain of a host name, from a fixed table of multi-label public suffixes.
\<close>

section \<open>Definitions\<close>

definition kMultiLabelSuffixes :: "string list" where
  [eval_simps]: "kMultiLabelSuffixes =
    [''in-addr.arpa'', ''ip6.arpa'',
     ''co.uk'', ''org.uk'', ''ac.uk'', ''gov.uk'', ''ltd.uk'', ''me.uk'', ''net.uk'', ''plc.uk'',
     ''co.in'', ''ac.in'', ''gov.in'', ''edu.in'', ''net.in'', ''org.in'', ''res.in'',
     ''com.au'', ''net.au'', ''org.au'', ''edu.au'', ''gov.au'', ''id.au'',
     ''com.br'', ''net.br'', ''gov.br'', ''edu.br'', ''org.br'',
     ''co.jp'', ''ne.jp'', ''or.jp'', ''ac.jp'', ''go.jp'', ''lg.jp'',
     ''co.kr'', ''ne.kr'', ''or.kr'',
     ''com.cn'', ''net.cn'', ''gov.cn'', ''edu.cn'', ''org.cn'', ''ac.cn'',
     ''com.hk'', ''edu.hk'', ''gov.hk'', ''org.hk'',
     ''com.tw'', ''net.tw'', ''org.tw'', ''edu.tw'', ''gov.tw'',
     ''com.sg'', ''edu.sg'', ''gov.sg'',
     ''com.mx'', ''gob.mx'', ''edu.mx'',
     ''com.tr'', ''net.tr'', ''edu.tr'', ''gov.tr'', ''org.tr'',
     ''co.za'', ''org.za'', ''ac.za'']"

definition ends_with_dot_suffix :: "string \<Rightarrow> string \<Rightarrow> bool" where
  [eval_simps]: "ends_with_dot_suffix host sfx =
     (if length host \<le> length sfx then False
      else let off = length host - length sfx in
        if off = 0 then False
        else if host ! (off - 1) \<noteq> CHR ''.'' then False
        else drop off host = sfx)"

text \<open>The loop \<^verbatim>\<open>while (!hostname.empty() && hostname.back() == '.') hostname.remove_suffix(1)\<close>.\<close>

function strip_trailing_dots :: "string \<Rightarrow> string" where
  "strip_trailing_dots h =
     (if h \<noteq> [] \<and> last h = CHR ''.'' then strip_trailing_dots (butlast h) else h)"
  by pat_completeness auto
termination by (relation "measure length") auto

declare strip_trailing_dots.simps [simp del]

definition best_suffix :: "string \<Rightarrow> string" where
  [eval_simps]: "best_suffix hostname =
     foldl (\<lambda>best sfx. if ends_with_dot_suffix hostname sfx \<and> length sfx > length best then sfx else best)
       [] kMultiLabelSuffixes"

definition etld_plus_one :: "string \<Rightarrow> string" where
  [eval_simps]: "etld_plus_one hostname0 =
     (let hostname = strip_trailing_dots hostname0 in
      if hostname = [] then []
      else let best = best_suffix hostname in
        if best \<noteq> [] then
          let suffix_dot_index = length hostname - length best - 1 in
          if suffix_dot_index = 0 then hostname
          else (case rfind_char CHR ''.'' hostname (suffix_dot_index - 1) of
                  None \<Rightarrow> hostname
                | Some prev_dot \<Rightarrow> drop (prev_dot + 1) hostname)
        else (case rfind_char CHR ''.'' hostname (length hostname) of
                None \<Rightarrow> hostname
              | Some last_dot \<Rightarrow>
                  if last_dot = 0 then hostname
                  else (case rfind_char CHR ''.'' hostname (last_dot - 1) of
                          None \<Rightarrow> hostname
                        | Some prev_dot \<Rightarrow> drop (prev_dot + 1) hostname)))"

section \<open>The parts\<close>

lemma strip_trailing_dots_last: "strip_trailing_dots h = [] \<or> last (strip_trailing_dots h) \<noteq> CHR ''.''"
proof (induction h rule: strip_trailing_dots.induct)
  case (1 h)
  then show ?case by (subst (1 2) strip_trailing_dots.simps) auto
qed

lemma strip_trailing_dots_id: "h = [] \<or> last h \<noteq> CHR ''.'' \<Longrightarrow> strip_trailing_dots h = h"
  by (subst strip_trailing_dots.simps) auto

lemma ends_with_dot_suffix_iff:
  "ends_with_dot_suffix h s \<longleftrightarrow> suffix (CHR ''.'' # s) h"
proof
  assume "ends_with_dot_suffix h s"
  then have lt: "length s < length h" and dot: "h ! (length h - length s - 1) = CHR ''.''"
    and eq: "drop (length h - length s) h = s"
    by (auto simp: ends_with_dot_suffix_def Let_def split: if_splits)
  have "drop (length h - length s - 1) h = CHR ''.'' # s"
    using lt dot eq Suc_diff_Suc [OF lt] by (subst Cons_nth_drop_Suc [symmetric]) auto
  then show "suffix (CHR ''.'' # s) h" by (metis suffix_drop)
next
  assume "suffix (CHR ''.'' # s) h"
  then obtain p where "h = p @ CHR ''.'' # s" by (auto simp: suffix_def)
  then show "ends_with_dot_suffix h s" by (simp add: ends_with_dot_suffix_def Let_def nth_append)
qed

text \<open>The table scan returns the longest entry that matches, or nothing when none does.\<close>

lemma best_scan:
  fixes P :: "string \<Rightarrow> bool"
  defines "f \<equiv> \<lambda>best s. if P s \<and> length s > length best then s else best"
  shows "(foldl f b xs = b \<or> foldl f b xs \<in> set xs \<and> P (foldl f b xs)) \<and>
     length b \<le> length (foldl f b xs) \<and> (\<forall>s \<in> set xs. P s \<longrightarrow> length s \<le> length (foldl f b xs))"
proof (induction xs arbitrary: b)
  case (Cons x xs)
  have "length b \<le> length (f b x)" "f b x = b \<or> f b x = x \<and> P x" "P x \<longrightarrow> length x \<le> length (f b x)"
    by (auto simp: f_def)
  with Cons.IH [of "f b x"] show ?case by auto
qed simp

lemma best_suffix_cases:
  obtains "best_suffix h = []" "\<forall>s \<in> set kMultiLabelSuffixes. \<not> suffix (CHR ''.'' # s) h"
  | "best_suffix h \<noteq> []" "best_suffix h \<in> set kMultiLabelSuffixes" "suffix (CHR ''.'' # best_suffix h) h"
    "\<forall>s \<in> set kMultiLabelSuffixes. suffix (CHR ''.'' # s) h \<longrightarrow> length s \<le> length (best_suffix h)"
proof -
  have ne: "[] \<notin> set kMultiLabelSuffixes" by (simp add: kMultiLabelSuffixes_def)
  have "(best_suffix h = [] \<or> best_suffix h \<in> set kMultiLabelSuffixes \<and> suffix (CHR ''.'' # best_suffix h) h) \<and>
      (\<forall>s \<in> set kMultiLabelSuffixes. suffix (CHR ''.'' # s) h \<longrightarrow> length s \<le> length (best_suffix h))"
    using best_scan [of "ends_with_dot_suffix h" "[]" kMultiLabelSuffixes]
    by (simp add: best_suffix_def ends_with_dot_suffix_iff)
  with ne that show ?thesis by fastforce
qed

section \<open>The registrable domain\<close>

text \<open>The part of the stripped name that counts as public suffix: the table entry, else the last label.\<close>

definition public_suffix :: "string \<Rightarrow> string" where
  "public_suffix h = (if best_suffix h \<noteq> [] then best_suffix h else rev (takeWhile (\<lambda>c. c \<noteq> CHR ''.'') (rev h)))"

lemma last_dot_split:
  assumes "CHR ''.'' \<in> set h"
  obtains p where "h = p @ CHR ''.'' # rev (takeWhile (\<lambda>c. c \<noteq> CHR ''.'') (rev h))"
proof -
  have "dropWhile (\<lambda>c. c \<noteq> CHR ''.'') (rev h) \<noteq> []" using assms by (simp add: dropWhile_eq_Nil_conv)
  then obtain y ys where d: "dropWhile (\<lambda>c. c \<noteq> CHR ''.'') (rev h) = y # ys" by (cases "dropWhile (\<lambda>c. c \<noteq> CHR ''.'') (rev h)") auto
  have y: "y = CHR ''.''" using hd_dropWhile [of "\<lambda>c. c \<noteq> CHR ''.''" "rev h"] d by simp
  have "rev h = takeWhile (\<lambda>c. c \<noteq> CHR ''.'') (rev h) @ y # ys" using d by (metis takeWhile_dropWhile_id)
  then have "h = rev ys @ y # rev (takeWhile (\<lambda>c. c \<noteq> CHR ''.'') (rev h))"
    by (metis rev_rev_ident rev_append append_Cons append_Nil append_assoc rev.simps(2))
  with y that show ?thesis by metis
qed

lemma public_suffix_dot:
  assumes "CHR ''.'' \<in> set h"
  shows "suffix (CHR ''.'' # public_suffix h) h"
proof (cases "best_suffix h = []")
  case True
  then show ?thesis using last_dot_split [OF assms] by (metis public_suffix_def suffixI)
next
  case False
  then show ?thesis by (cases h rule: best_suffix_cases) (auto simp: public_suffix_def)
qed

text \<open>One step left of a dot: both branches of \<^verbatim>\<open>etld_plus_one\<close> cut at the previous dot, if there is one.\<close>

definition one_label_left :: "string \<Rightarrow> nat \<Rightarrow> string" where
  "one_label_left h d = (if d = 0 then h else case rfind_char CHR ''.'' h (d - 1) of
     None \<Rightarrow> h | Some prev_dot \<Rightarrow> drop (prev_dot + 1) h)"

lemma one_label_left_append:
  obtains lab where "one_label_left (p @ CHR ''.'' # q) (length p) = lab @ CHR ''.'' # q"
    "CHR ''.'' \<notin> set lab" "label_suffix (lab @ CHR ''.'' # q) (p @ CHR ''.'' # q)"
proof (cases "p = []")
  case True
  then show ?thesis using that [of "[]"] by (simp add: one_label_left_def)
next
  case False
  let ?h = "p @ CHR ''.'' # q"
  have tk: "take (length p) ?h = p" by simp
  show ?thesis
  proof (cases "rfind_char CHR ''.'' ?h (length p - 1)")
    case None
    then have "CHR ''.'' \<notin> set p" using False by (simp add: rfind_char_None)
    with None False that [of p] show ?thesis by (simp add: one_label_left_def)
  next
    case (Some i)
    note i = rfind_char_SomeD [OF Some]
    have lt: "i < length p" using i(1) False by (cases p) auto
    have "take (length p - 1 - i) (drop (Suc i) ?h) = drop (Suc i) p" using lt by simp
    with i(4) have "CHR ''.'' \<notin> set (drop (Suc i) p)" by simp
    moreover have "label_suffix (drop (Suc i) ?h) ?h" by (rule label_suffix_drop [OF i(2,3)])
    ultimately show ?thesis using that [of "drop (Suc i) p"] Some False lt by (simp add: one_label_left_def)
  qed
qed

lemma rfind_last_dot:
  assumes "CHR ''.'' \<notin> set q"
  shows "rfind_char CHR ''.'' (p @ CHR ''.'' # q) (length (p @ CHR ''.'' # q)) = Some (length p)"
proof (cases "rfind_char CHR ''.'' (p @ CHR ''.'' # q) (length (p @ CHR ''.'' # q))")
  case None
  then show ?thesis by (simp add: rfind_char_None)
next
  case (Some i)
  note i = rfind_char_SomeD [OF Some]
  have "\<not> i < length p" using i(4) by auto
  moreover have "\<not> length p < i"
  proof
    assume gt: "length p < i"
    then have "(p @ CHR ''.'' # q) ! i = q ! (i - length p - 1)" "i - length p - 1 < length q"
      using i(2) by (auto simp: nth_append nth_Cons')
    with i(3) assms show False by (metis nth_mem)
  qed
  ultimately show ?thesis using Some by simp
qed

lemma etld_cut:
  assumes "CHR ''.'' \<in> set h" and "last h \<noteq> CHR ''.''"
  shows "etld_plus_one h = one_label_left h (length h - length (public_suffix h) - 1)"
proof -
  from assms have ne: "h \<noteq> []" and st: "strip_trailing_dots h = h" by (auto simp: strip_trailing_dots_id)
  show ?thesis
  proof (cases "best_suffix h = []")
    case True
    define q where "q = rev (takeWhile (\<lambda>c. c \<noteq> CHR ''.'') (rev h))"
    obtain p where p: "h = p @ CHR ''.'' # q" using last_dot_split [OF assms(1)] q_def by auto
    have nq: "CHR ''.'' \<notin> set q" by (auto simp: q_def dest: set_takeWhileD)
    have rf: "rfind_char CHR ''.'' h (length h) = Some (length p)" unfolding p by (rule rfind_last_dot [OF nq])
    have "public_suffix h = q" by (simp add: public_suffix_def True q_def)
    moreover have "length h - length q - 1 = length p" by (simp add: p)
    ultimately show ?thesis by (simp add: etld_plus_one_def st ne True rf one_label_left_def)
  next
    case False
    then show ?thesis by (simp add: etld_plus_one_def st ne public_suffix_def one_label_left_def Let_def)
  qed
qed

lemma etld_strip: "etld_plus_one host = etld_plus_one (strip_trailing_dots host)"
  using strip_trailing_dots_last [of host] by (simp add: etld_plus_one_def strip_trailing_dots_id)

lemma etld_no_dot: "CHR ''.'' \<notin> set h \<Longrightarrow> etld_plus_one h = h"
proof -
  assume nd: "CHR ''.'' \<notin> set h"
  then have "h = [] \<or> last h \<noteq> CHR ''.''" using last_in_set [of h] by metis
  then have st: "strip_trailing_dots h = h" by (rule strip_trailing_dots_id)
  have b: "best_suffix h = []"
  proof (rule ccontr)
    assume "best_suffix h \<noteq> []"
    then have "suffix (CHR ''.'' # best_suffix h) h" by (cases h rule: best_suffix_cases) auto
    then have "CHR ''.'' \<in> set h" using set_mono_suffix by fastforce
    with nd show False by simp
  qed
  have "rfind_char CHR ''.'' h (length h) = None" using nd by (simp add: rfind_char_None)
  then show ?thesis unfolding etld_plus_one_def Let_def st b by simp
qed

lemma etld_label:
  assumes "CHR ''.'' \<in> set h" and "last h \<noteq> CHR ''.''"
  obtains lab where "etld_plus_one h = lab @ CHR ''.'' # public_suffix h" "CHR ''.'' \<notin> set lab"
    "label_suffix (etld_plus_one h) h"
proof -
  obtain p where p: "h = p @ CHR ''.'' # public_suffix h"
    using public_suffix_dot [OF assms(1)] by (auto simp: suffix_def)
  have "length h - length (public_suffix h) - 1 = length p" by (subst (1) p) simp
  then have "etld_plus_one h = one_label_left (p @ CHR ''.'' # public_suffix h) (length p)"
    using etld_cut [OF assms] p by simp
  moreover obtain lab where "one_label_left (p @ CHR ''.'' # public_suffix h) (length p) = lab @ CHR ''.'' # public_suffix h"
    "CHR ''.'' \<notin> set lab" "label_suffix (lab @ CHR ''.'' # public_suffix h) (p @ CHR ''.'' # public_suffix h)"
    by (rule one_label_left_append)
  ultimately show ?thesis using that [of lab] p by simp
qed

lemma best_suffix_mono:
  assumes "suffix r h" and "best_suffix h \<noteq> [] \<Longrightarrow> suffix (CHR ''.'' # best_suffix h) r"
  shows "best_suffix r = best_suffix h"
proof (cases h rule: best_suffix_cases)
  case 1
  with assms(1) have "\<forall>s \<in> set kMultiLabelSuffixes. \<not> suffix (CHR ''.'' # s) r"
    by (meson suffix_order.trans)
  then show ?thesis using 1(1) by (cases r rule: best_suffix_cases) auto
next
  case 2
  note h = 2
  have br: "suffix (CHR ''.'' # best_suffix h) r" by (rule assms(2) [OF h(1)])
  show ?thesis
  proof (cases r rule: best_suffix_cases)
    case 1
    with br h(2) show ?thesis by blast
  next
    case 2
    have rh: "suffix (CHR ''.'' # best_suffix r) h" using 2(3) assms(1) by (rule suffix_order.trans)
    have "length (best_suffix r) = length (best_suffix h)"
      using 2(4) h(2,4) br rh 2(2) by (meson le_antisym)
    then show ?thesis using label_suffix_eq_length [of _ h] rh h(3) by (auto simp: label_suffix_def)
  qed
qed

lemma takeWhile_last_label:
  "CHR ''.'' \<notin> set q \<Longrightarrow> takeWhile (\<lambda>c. c \<noteq> CHR ''.'') (rev (p @ CHR ''.'' # q)) = rev q"
  using takeWhile_append2 [of "rev q" "\<lambda>c. c \<noteq> CHR ''.''" "CHR ''.'' # rev p"] by fastforce

lemma public_suffix_last_label:
  assumes h: "h = p @ lab @ CHR ''.'' # q" and q: "public_suffix h = q"
  shows "public_suffix (lab @ CHR ''.'' # q) = q"
proof -
  let ?r = "lab @ CHR ''.'' # q"
  have "suffix ?r h" using h by (rule suffixI)
  then have b: "best_suffix ?r = best_suffix h"
    by (rule best_suffix_mono) (use q in \<open>simp add: public_suffix_def suffixI\<close>)
  show ?thesis
  proof (cases "best_suffix h = []")
    case True
    then have "q = rev (takeWhile (\<lambda>c. c \<noteq> CHR ''.'') (rev h))" using q by (simp add: public_suffix_def)
    then have "CHR ''.'' \<notin> set q" using set_takeWhileD [of "CHR ''.''" "\<lambda>c. c \<noteq> CHR ''.''" "rev h"] by auto
    then show ?thesis unfolding public_suffix_def b takeWhile_last_label [OF \<open>CHR ''.'' \<notin> set q\<close>] using True by simp
  next
    case False
    then show ?thesis using b q by (simp add: public_suffix_def)
  qed
qed

section \<open>Properties\<close>


text \<open>Taking the registrable domain twice gives the same domain, so comparing two results decides
  whether two hosts belong to the same site.\<close>

theorem etld_plus_one_idem: "etld_plus_one (etld_plus_one host) = etld_plus_one host"
proof -
  define h where "h = strip_trailing_dots host"
  have e: "etld_plus_one host = etld_plus_one h" unfolding h_def by (rule etld_strip)
  show ?thesis
  proof (cases "CHR ''.'' \<in> set h")
    case False
    then show ?thesis by (simp add: e etld_no_dot)
  next
    case True
    then have lst: "last h \<noteq> CHR ''.''" using strip_trailing_dots_last [of host] by (auto simp: h_def)
    obtain lab where lab: "etld_plus_one h = lab @ CHR ''.'' # public_suffix h" "CHR ''.'' \<notin> set lab"
      "label_suffix (etld_plus_one h) h" by (rule etld_label [OF True lst])
    let ?r = "etld_plus_one h"
    obtain p where p: "h = p @ ?r" using label_suffix_suffix [OF lab(3)] by (auto simp: suffix_def)
    have ps: "public_suffix ?r = public_suffix h"
      using public_suffix_last_label [of h p lab "public_suffix h"] p lab(1) by simp
    have "?r \<noteq> []" using lab(1) by simp
    then have "last (p @ ?r) = last ?r" by simp
    then have dr: "last ?r \<noteq> CHR ''.''" using p lst by simp
    have rd: "CHR ''.'' \<in> set ?r" using lab(1) by simp
    obtain lab' where lab': "etld_plus_one ?r = lab' @ CHR ''.'' # public_suffix ?r"
      "label_suffix (etld_plus_one ?r) ?r" by (rule etld_label [OF rd dr])
    have "\<not> suffix (CHR ''.'' # lab') lab" using lab(2) by (auto simp: suffix_def)
    with lab' lab(1) ps have "etld_plus_one ?r = ?r"
      by (auto simp: label_suffix_def suffix_def)
    then show ?thesis by (simp add: e)
  qed
qed

end
