(* ===== verification/Blocklist.thy ===== *)
theory Blocklist
  imports Prelude
begin

text \<open>
  \<^verbatim>\<open>blocklist.cpp\<close>: the rule sets, the hosts-file loader and the matcher. The \<^verbatim>\<open>unordered_set\<close>s of
  strings are sets. A compiled \<^verbatim>\<open>std::regex\<close> is the predicate \<^verbatim>\<open>regex_search(_, rx)\<close> it decides, so
  the regular expression compiler is an argument of \<open>add_regex\<close>, and the file system is an argument
  of the loaders (\<open>None\<close> when the file cannot be opened).
\<close>

section \<open>Definitions\<close>

datatype match_kind = KindNone | Exact | Suffix | Regex

record match_result =
  blocked :: bool
  matched_rule :: string
  matched_kind :: match_kind

definition no_match :: match_result where
  [eval_simps]: "no_match = \<lparr>blocked = False, matched_rule = [], matched_kind = KindNone\<rparr>"

record blocklist =
  bl_exact :: "string set"
  bl_suffix :: "string set"
  bl_regex :: "(string \<times> (string \<Rightarrow> bool)) list"
  bl_allow_exact :: "string set"
  bl_allow_suffix :: "string set"

definition empty_blocklist :: blocklist where
  [eval_simps]: "empty_blocklist = \<lparr>bl_exact = {}, bl_suffix = {}, bl_regex = [], bl_allow_exact = {}, bl_allow_suffix = {}\<rparr>"

definition to_lower_ascii :: "string \<Rightarrow> string" where
  [eval_simps]: "to_lower_ascii s = map lower_char s"

definition is_lower_or_digit :: "char \<Rightarrow> bool" where
  [eval_simps]: "is_lower_or_digit c \<longleftrightarrow>
     97 \<le> (of_char c :: nat) \<and> (of_char c :: nat) \<le> 122 \<or> 48 \<le> (of_char c :: nat) \<and> (of_char c :: nat) \<le> 57"

definition is_valid_domain_char :: "char \<Rightarrow> bool" where
  [eval_simps]: "is_valid_domain_char c \<longleftrightarrow>
     is_lower_or_digit c \<or> c = CHR ''-'' \<or> c = CHR ''.'' \<or> c = CHR ''_''"

definition is_valid_domain :: "string \<Rightarrow> bool" where
  [eval_simps]: "is_valid_domain s =
     (if s = [] \<or> length s > 255 then False
      else if hd s = CHR ''.'' \<or> last s = CHR ''.'' then False
      else if list_ex (\<lambda>c. \<not> is_valid_domain_char c) s then False
      else list_ex is_lower_or_digit s)"

definition add_exact :: "string \<Rightarrow> blocklist \<Rightarrow> blocklist" where
  [eval_simps]: "add_exact qname bl = (let s = to_lower_ascii qname in
     if \<not> is_valid_domain s then bl else bl\<lparr>bl_exact := insert s (bl_exact bl)\<rparr>)"

definition add_suffix :: "string \<Rightarrow> blocklist \<Rightarrow> blocklist" where
  [eval_simps]: "add_suffix domain bl = (let s = to_lower_ascii domain in
     if \<not> is_valid_domain s then bl else bl\<lparr>bl_suffix := insert s (bl_suffix bl)\<rparr>)"

definition add_regex :: "(string \<Rightarrow> (string \<Rightarrow> bool) result) \<Rightarrow> string \<Rightarrow> blocklist \<Rightarrow> blocklist result" where
  [eval_simps]: "add_regex compile pattern bl =
     bind_result (compile pattern) (\<lambda>rx. Inr (bl\<lparr>bl_regex := bl_regex bl @ [(pattern, rx)]\<rparr>))"

definition add_allow_exact :: "string \<Rightarrow> blocklist \<Rightarrow> blocklist" where
  [eval_simps]: "add_allow_exact qname bl = (let s = to_lower_ascii qname in
     if \<not> is_valid_domain s then bl else bl\<lparr>bl_allow_exact := insert s (bl_allow_exact bl)\<rparr>)"

definition add_allow_suffix :: "string \<Rightarrow> blocklist \<Rightarrow> blocklist" where
  [eval_simps]: "add_allow_suffix domain bl = (let s = to_lower_ascii domain in
     if \<not> is_valid_domain s then bl else bl\<lparr>bl_allow_suffix := insert s (bl_allow_suffix bl)\<rparr>)"

subsection \<open>The hosts-file loader\<close>

text \<open>\<^verbatim>\<open>std::getline\<close> until the end of the stream, and \<^verbatim>\<open>iss >> token\<close> until it fails.\<close>

fun lines_from :: "string \<Rightarrow> string \<Rightarrow> string list" where
  "lines_from acc [] = (if acc = [] then [] else [rev acc])"
| "lines_from acc (c # cs) = (if c = CHR 0x0A then rev acc # lines_from [] cs else lines_from (c # acc) cs)"

definition getlines :: "string \<Rightarrow> string list" where
  [eval_simps]: "getlines content = lines_from [] content"

definition is_space :: "char \<Rightarrow> bool" where
  [eval_simps]: "is_space c \<longleftrightarrow> c = CHR '' '' \<or> 9 \<le> (of_char c :: nat) \<and> (of_char c :: nat) \<le> 13"

fun tokens_from :: "string \<Rightarrow> string \<Rightarrow> string list" where
  "tokens_from acc [] = (if acc = [] then [] else [rev acc])"
| "tokens_from acc (c # cs) =
     (if is_space c then (if acc = [] then tokens_from [] cs else rev acc # tokens_from [] cs)
      else tokens_from (c # acc) cs)"

definition tokens :: "string \<Rightarrow> string list" where
  [eval_simps]: "tokens line = tokens_from [] line"

definition strip_comment :: "string \<Rightarrow> string" where
  [eval_simps]: "strip_comment line = (case find_char CHR ''#'' line 0 of None \<Rightarrow> line | Some hash \<Rightarrow> take hash line)"

text \<open>The inner \<^verbatim>\<open>while\<close> with its \<^verbatim>\<open>first\<close> flag; the accumulator is \<^verbatim>\<open>added\<close> beside the list.\<close>

fun load_tokens :: "(string \<Rightarrow> 's \<Rightarrow> 's \<times> bool) \<Rightarrow> bool \<Rightarrow> string list \<Rightarrow> 's \<times> nat \<Rightarrow> 's \<times> nat" where
  "load_tokens add_one first [] st = st"
| "load_tokens add_one first (token # rest) (bl, added) =
     (if first then load_tokens add_one False rest (bl, added)
      else case add_one token bl of (bl', new) \<Rightarrow>
        load_tokens add_one False rest (bl', if new then added + 1 else added))"

definition load_hosts_into ::
    "(string \<Rightarrow> string option) \<Rightarrow> string \<Rightarrow> (string \<Rightarrow> 's \<Rightarrow> 's \<times> bool) \<Rightarrow> 's \<Rightarrow> ('s \<times> nat) result" where
  [eval_simps]: "load_hosts_into read_file path add_one bl =
     (case read_file path of
        None \<Rightarrow> Inl (RuntimeError (''cannot open list file: '' @ path))
      | Some content \<Rightarrow>
          Inr (foldl (\<lambda>st line. load_tokens add_one True (tokens (strip_comment line)) st) (bl, 0) (getlines content)))"

definition load_hosts_file :: "(string \<Rightarrow> string option) \<Rightarrow> string \<Rightarrow> blocklist \<Rightarrow> (blocklist \<times> nat) result" where
  [eval_simps]: "load_hosts_file read_file path = load_hosts_into read_file path
     (\<lambda>tok bl. let before = card (bl_suffix bl); bl' = add_suffix tok bl in (bl', card (bl_suffix bl') \<noteq> before))"

definition load_allowlist_file :: "(string \<Rightarrow> string option) \<Rightarrow> string \<Rightarrow> blocklist \<Rightarrow> (blocklist \<times> nat) result" where
  [eval_simps]: "load_allowlist_file read_file path = load_hosts_into read_file path
     (\<lambda>tok bl. let before = card (bl_allow_suffix bl); bl' = add_allow_suffix tok bl in (bl', card (bl_allow_suffix bl') \<noteq> before))"

subsection \<open>Matching\<close>

function find_suffix_from :: "string set \<Rightarrow> string \<Rightarrow> nat \<Rightarrow> string option" where
  "find_suffix_from S qname pos =
     (if pos \<le> length qname then
        if drop pos qname \<in> S then Some (drop pos qname)
        else (case find_char CHR ''.'' qname pos of
                None \<Rightarrow> None
              | Some dot \<Rightarrow> find_suffix_from S qname (dot + 1))
      else None)"
  by pat_completeness auto
termination
  by (relation "measure (\<lambda>(S, qname, pos). Suc (length qname) - pos)") (auto dest: find_char_Some_bounds)

declare find_suffix_from.simps [simp del]

definition find_suffix_match :: "string set \<Rightarrow> string \<Rightarrow> string option" where
  [eval_simps]: "find_suffix_match S qname = find_suffix_from S qname 0"

definition allowed :: "blocklist \<Rightarrow> string \<Rightarrow> bool" where
  [eval_simps]: "allowed bl qname =
     (if qname = [] then False
      else if qname \<in> bl_allow_exact bl then True
      else find_suffix_match (bl_allow_suffix bl) qname \<noteq> None)"

text \<open>The three blocks of \<^verbatim>\<open>match\<close>: the longest allow hit, the longest deny hit, the regex fallback.\<close>

definition allow_hit_len :: "blocklist \<Rightarrow> string \<Rightarrow> nat" where
  [eval_simps]: "allow_hit_len bl qname =
     (let allow_len = (if qname \<in> bl_allow_exact bl then length qname else 0) in
      case find_suffix_match (bl_allow_suffix bl) qname of
        None \<Rightarrow> allow_len
      | Some it \<Rightarrow> if length it > allow_len then length it else allow_len)"

definition deny_hit :: "blocklist \<Rightarrow> string \<Rightarrow> match_result \<times> nat" where
  [eval_simps]: "deny_hit bl qname =
     (let (deny, deny_len) =
        (if qname \<in> bl_exact bl then (\<lparr>blocked = True, matched_rule = qname, matched_kind = Exact\<rparr>, length qname) else (no_match, 0)) in
      case find_suffix_match (bl_suffix bl) qname of
        None \<Rightarrow> (deny, deny_len)
      | Some it \<Rightarrow>
          if length it > deny_len \<or> length it = deny_len \<and> matched_kind deny \<noteq> Exact
          then (\<lparr>blocked = True, matched_rule = it, matched_kind = Suffix\<rparr>, length it) else (deny, deny_len))"

fun regex_hit :: "(string \<times> (string \<Rightarrow> bool)) list \<Rightarrow> string \<Rightarrow> match_result \<times> nat \<Rightarrow> match_result \<times> nat" where
  "regex_hit [] qname deny = deny"
| "regex_hit ((pattern, rx) # rest) qname deny =
     (if rx qname then (\<lparr>blocked = True, matched_rule = pattern, matched_kind = Regex\<rparr>, length pattern)
      else regex_hit rest qname deny)"

definition blocklist_match :: "blocklist \<Rightarrow> string \<Rightarrow> match_result" where
  [eval_simps]: "blocklist_match bl qname =
     (if qname = [] then no_match
      else let allow_len = allow_hit_len bl qname;
               (deny0, deny_len0) = deny_hit bl qname;
               (deny, deny_len) = (if deny_len0 = 0 then regex_hit (bl_regex bl) qname (deny0, deny_len0) else (deny0, deny_len0)) in
        if allow_len = 0 \<and> deny_len = 0 then no_match
        else if allow_len > 0 \<and> allow_len \<ge> deny_len then no_match
        else deny)"

section \<open>Searching the suffixes\<close>

lemma find_suffix_from_spec:
  assumes "pos \<le> length q"
  shows "case find_suffix_from S q pos of
      None \<Rightarrow> \<forall>e \<in> S. \<not> label_suffix e (drop pos q)
    | Some d \<Rightarrow> d \<in> S \<and> label_suffix d (drop pos q) \<and> (\<forall>e \<in> S. label_suffix e (drop pos q) \<longrightarrow> length e \<le> length d)"
  using assms
proof (induction S q pos rule: find_suffix_from.induct)
  case (1 S q pos)
  show ?case
  proof (cases "drop pos q \<in> S")
    case True
    with 1(2) show ?thesis by (subst find_suffix_from.simps) (auto dest: label_suffix_length)
  next
    case notin: False
    show ?thesis
    proof (cases "find_char CHR ''.'' q pos")
      case None
      then have "CHR ''.'' \<notin> set (drop pos q)" by (simp add: find_char_None)
      with notin 1(2) None show ?thesis
        by (subst find_suffix_from.simps) (auto simp: label_suffix_no_dot)
    next
      case (Some dot)
      have step: "find_suffix_from S q pos = find_suffix_from S q (dot + 1)"
        using notin Some 1(2) by (subst find_suffix_from.simps) simp
      note split = find_char_split [OF Some] and D = find_char_SomeD [OF Some]
      have ls: "label_suffix e (drop pos q) \<longleftrightarrow> e = drop pos q \<or> label_suffix e (drop (dot + 1) q)" for e
        using label_suffix_first_dot [OF D(4), of e "drop (Suc dot) q"] split by simp
      have "dot + 1 \<le> length q" using D(2) by simp
      from 1(1) [OF 1(2) notin Some this] notin show ?thesis
        unfolding step ls by (auto split: option.splits)
    qed
  qed
qed

lemma find_suffix_match_SomeD:
  assumes "find_suffix_match S q = Some d"
  shows "d \<in> S" "label_suffix d q" "\<And>e. e \<in> S \<Longrightarrow> label_suffix e q \<Longrightarrow> length e \<le> length d"
  using find_suffix_from_spec [of 0 q S] assms by (auto simp: find_suffix_match_def)

lemma find_suffix_match_None: "find_suffix_match S q = None \<longleftrightarrow> (\<forall>e \<in> S. \<not> label_suffix e q)"
  using find_suffix_from_spec [of 0 q S] by (auto simp: find_suffix_match_def split: option.splits)

section \<open>Well-formed rule sets\<close>

text \<open>Every stored name is non-empty, lower case and free of leading and trailing dots.\<close>

definition blocklist_wf :: "blocklist \<Rightarrow> bool" where
  "blocklist_wf bl \<longleftrightarrow>
     (\<forall>S \<in> {bl_exact bl, bl_suffix bl, bl_allow_exact bl, bl_allow_suffix bl}.
        finite S \<and> (\<forall>d \<in> S. is_valid_domain d \<and> to_lower_ascii d = d))"

lemma valid_domain_nonempty: "is_valid_domain d \<Longrightarrow> d \<noteq> []"
  by (auto simp: is_valid_domain_def)

lemma to_lower_ascii_idem [simp]: "to_lower_ascii (to_lower_ascii d) = to_lower_ascii d"
  by (simp add: to_lower_ascii_def)

lemma empty_blocklist_wf [simp]: "blocklist_wf empty_blocklist"
  by (simp add: blocklist_wf_def empty_blocklist_def)

lemma add_wf:
  assumes "blocklist_wf bl"
  shows "blocklist_wf (add_exact d bl)" "blocklist_wf (add_suffix d bl)"
    "blocklist_wf (add_allow_exact d bl)" "blocklist_wf (add_allow_suffix d bl)"
    "add_regex compile p bl = Inr bl' \<Longrightarrow> blocklist_wf bl'"
  using assms
  by (auto simp: blocklist_wf_def add_exact_def add_suffix_def add_allow_exact_def add_allow_suffix_def
      add_regex_def Let_def)

section \<open>The strongest rule\<close>

text \<open>The name rules that apply to a query: the exact rule on the query itself and the suffix rules on
  one of its label-aligned tails.\<close>

definition name_hits :: "string set \<Rightarrow> string set \<Rightarrow> string \<Rightarrow> string set" where
  "name_hits E S q = {d \<in> E. d = q} \<union> {d \<in> S. label_suffix d q}"

definition allow_hits :: "blocklist \<Rightarrow> string \<Rightarrow> string set" where
  "allow_hits bl q = name_hits (bl_allow_exact bl) (bl_allow_suffix bl) q"

definition deny_hits :: "blocklist \<Rightarrow> string \<Rightarrow> string set" where
  "deny_hits bl q = name_hits (bl_exact bl) (bl_suffix bl) q"

lemma name_hits_find: "name_hits E S q = {} \<longleftrightarrow> q \<notin> E \<and> find_suffix_match S q = None"
  by (auto simp: name_hits_def find_suffix_match_None)

lemma wf_hits_nonempty:
  "blocklist_wf bl \<Longrightarrow> [] \<notin> allow_hits bl q" "blocklist_wf bl \<Longrightarrow> [] \<notin> deny_hits bl q"
  by (auto simp: blocklist_wf_def allow_hits_def deny_hits_def name_hits_def dest!: valid_domain_nonempty)

lemma allow_hit_len_less:
  "allow_hit_len bl q < n \<longleftrightarrow> 0 < n \<and> (\<forall>a \<in> allow_hits bl q. length a < n)"
proof (cases "find_suffix_match (bl_allow_suffix bl) q")
  case None
  then have "\<forall>e \<in> bl_allow_suffix bl. \<not> label_suffix e q" by (simp add: find_suffix_match_None)
  with None show ?thesis by (auto simp: allow_hit_len_def allow_hits_def name_hits_def)
next
  case (Some d)
  note D = find_suffix_match_SomeD [OF Some]
  have "(\<forall>a \<in> allow_hits bl q. length a < n) \<longleftrightarrow> length d < n \<and> (q \<in> bl_allow_exact bl \<longrightarrow> length q < n)"
    using D(1,2) le_less_trans [OF D(3)] by (auto simp: allow_hits_def name_hits_def)
  with Some show ?thesis by (auto simp: allow_hit_len_def Let_def)
qed

lemma deny_hit_cases:
  assumes "blocklist_wf bl" and "q \<noteq> []"
  obtains "deny_hits bl q = {}" "deny_hit bl q = (no_match, 0)"
  | d k where "d \<in> deny_hits bl q" "d \<noteq> []" "\<forall>e \<in> deny_hits bl q. length e \<le> length d"
      "deny_hit bl q = (\<lparr>blocked = True, matched_rule = d, matched_kind = k\<rparr>, length d)"
      "k = (if q \<in> bl_exact bl then Exact else Suffix)"
proof (cases "q \<in> bl_exact bl")
  case True
  have "deny_hit bl q = (\<lparr>blocked = True, matched_rule = q, matched_kind = Exact\<rparr>, length q)"
    using True label_suffix_length find_suffix_match_SomeD(2)
    by (fastforce simp: deny_hit_def split: option.splits)
  with True assms(2) that(2) [of q Exact] show ?thesis
    by (auto simp: deny_hits_def name_hits_def dest: label_suffix_length)
next
  case notin: False
  show ?thesis
  proof (cases "find_suffix_match (bl_suffix bl) q")
    case None
    with notin that(1) show ?thesis by (simp add: deny_hits_def name_hits_find deny_hit_def)
  next
    case (Some d)
    note D = find_suffix_match_SomeD [OF Some]
    have mem: "d \<in> deny_hits bl q" using D by (simp add: deny_hits_def name_hits_def)
    then have "d \<noteq> []" using wf_hits_nonempty(2) [OF assms(1)] by metis
    with notin Some D mem that(2) [of d Suffix] show ?thesis
      by (auto simp: deny_hits_def name_hits_def deny_hit_def no_match_def)
  qed
qed

lemma regex_hit_find:
  "regex_hit rxs q deny = (case List.find (\<lambda>(p, rx). rx q) rxs of
     None \<Rightarrow> deny | Some (p, rx) \<Rightarrow> (\<lparr>blocked = True, matched_rule = p, matched_kind = Regex\<rparr>, length p))"
  by (induction rxs q deny rule: regex_hit.induct) auto

text \<open>The whole decision in one equation: the strongest deny rule, against the longest allow rule.\<close>

lemma blocklist_match_deny:
  assumes "q \<noteq> []" and "deny_hit bl q = (\<lparr>blocked = True, matched_rule = d, matched_kind = k\<rparr>, length d)" "d \<noteq> []"
  shows "blocklist_match bl q =
    (if \<forall>a \<in> allow_hits bl q. length a < length d
     then \<lparr>blocked = True, matched_rule = d, matched_kind = k\<rparr> else no_match)"
  using allow_hit_len_less [of bl q "length d"] assms by (auto simp: blocklist_match_def not_le)

lemma blocklist_match_regex:
  assumes "q \<noteq> []" and "deny_hit bl q = (no_match, 0)"
  shows "blocklist_match bl q =
    (case List.find (\<lambda>(p, rx). rx q) (bl_regex bl) of
       None \<Rightarrow> no_match
     | Some (p, rx) \<Rightarrow>
         if p \<noteq> [] \<and> (\<forall>a \<in> allow_hits bl q. length a < length p)
         then \<lparr>blocked = True, matched_rule = p, matched_kind = Regex\<rparr> else no_match)"
proof (cases "List.find (\<lambda>(p, rx). rx q) (bl_regex bl)")
  case None
  with assms show ?thesis by (simp add: blocklist_match_def regex_hit_find Let_def)
next
  case (Some prx)
  obtain p rx where prx: "prx = (p, rx)" by (cases prx)
  have "blocklist_match bl q = (if allow_hit_len bl q < length p
      then \<lparr>blocked = True, matched_rule = p, matched_kind = Regex\<rparr> else no_match)"
    using assms Some prx by (auto simp: blocklist_match_def regex_hit_find Let_def)
  then show ?thesis using Some prx allow_hit_len_less [of bl q "length p"] by auto
qed

section \<open>The loader\<close>

text \<open>The tokens of a file that are offered as rules: all but the first of each line, comments removed.\<close>

definition hosts_tokens :: "string \<Rightarrow> string list" where
  "hosts_tokens content = concat (map (\<lambda>line. tl (tokens (strip_comment line))) (getlines content))"

text \<open>With suffix rules only, as list files give them: the longest rule decides, and an allow rule wins a tie.\<close>

lemma blocked_by_lists:
  assumes "blocklist_wf bl" "bl_exact bl = {}" "bl_allow_exact bl = {}" "bl_regex bl = []"
  shows "blocked (blocklist_match bl q) \<longleftrightarrow> (\<exists>d \<in> bl_suffix bl. label_suffix d q \<and> (\<forall>a \<in> bl_allow_suffix bl. label_suffix a q \<longrightarrow> length a < length d))"
    and "blocked (blocklist_match bl q) \<Longrightarrow> matched_rule (blocklist_match bl q) \<in> bl_suffix bl \<and> label_suffix (matched_rule (blocklist_match bl q)) q"
proof -
  have hits: "deny_hits bl q = {d \<in> bl_suffix bl. label_suffix d q}" "allow_hits bl q = {a \<in> bl_allow_suffix bl. label_suffix a q}"
    using assms(2,3) by (auto simp: deny_hits_def allow_hits_def name_hits_def)
  have "(blocked (blocklist_match bl q) \<longleftrightarrow> (\<exists>d \<in> deny_hits bl q. \<forall>a \<in> allow_hits bl q. length a < length d)) \<and>
      (blocked (blocklist_match bl q) \<longrightarrow> matched_rule (blocklist_match bl q) \<in> deny_hits bl q)"
  proof (cases "q = []")
    case True
    have "deny_hits bl [] = {}" using wf_hits_nonempty(2) [OF assms(1), of "[]"] label_suffix_length by (fastforce simp: deny_hits_def name_hits_def assms(2))
    with True show ?thesis by (simp add: blocklist_match_def no_match_def)
  next
    case False
    show ?thesis
    proof (rule deny_hit_cases [OF assms(1) False])
      assume "deny_hits bl q = {}" "deny_hit bl q = (no_match, 0)"
      then show ?thesis using blocklist_match_regex [OF False] assms(4) by (simp add: no_match_def)
    next
      fix d k
      assume d: "d \<in> deny_hits bl q" "d \<noteq> []" "\<forall>e \<in> deny_hits bl q. length e \<le> length d"
        "deny_hit bl q = (\<lparr>blocked = True, matched_rule = d, matched_kind = k\<rparr>, length d)"
      then show ?thesis unfolding blocklist_match_deny [OF False d(4,2)] by (auto simp: no_match_def intro: less_le_trans)
    qed
  qed
  then show "blocked (blocklist_match bl q) \<longleftrightarrow> (\<exists>d \<in> bl_suffix bl. label_suffix d q \<and> (\<forall>a \<in> bl_allow_suffix bl. label_suffix a q \<longrightarrow> length a < length d))"
    and "blocked (blocklist_match bl q) \<Longrightarrow> matched_rule (blocklist_match bl q) \<in> bl_suffix bl \<and> label_suffix (matched_rule (blocklist_match bl q)) q"
    by (auto simp: hits)
qed


lemma load_tokens_fold:
  "load_tokens add_one True toks st =
     foldl (\<lambda>(bl, added) tok. case add_one tok bl of (bl', new) \<Rightarrow> (bl', if new then added + 1 else added)) st (tl toks)"
proof -
  let ?f = "\<lambda>(bl, added) tok. case add_one tok bl of (bl', new) \<Rightarrow> (bl', if new then added + 1 else added)"
  have rest: "load_tokens add_one False ts st = foldl ?f st ts" for ts and st
    by (induction ts arbitrary: st) (auto split: prod.splits)
  show ?thesis by (cases toks; cases st) (simp_all add: rest)
qed

lemma load_hosts_into_fold:
  "load_hosts_into read_file path add_one bl =
     (case read_file path of
        None \<Rightarrow> Inl (RuntimeError (''cannot open list file: '' @ path))
      | Some content \<Rightarrow>
          Inr (foldl (\<lambda>(bl, added) tok. case add_one tok bl of (bl', new) \<Rightarrow> (bl', if new then added + 1 else added))
            (bl, 0) (hosts_tokens content)))"
proof -
  let ?f = "\<lambda>(bl, added) tok. case add_one tok bl of (bl', new) \<Rightarrow> (bl', if new then added + 1 else added)"
  have "foldl (\<lambda>st line. load_tokens add_one True (tokens (strip_comment line)) st) st ls =
      foldl ?f st (concat (map (\<lambda>line. tl (tokens (strip_comment line))) ls))" for st ls
    by (induction ls arbitrary: st) (simp_all add: load_tokens_fold)
  then show ?thesis unfolding load_hosts_into_def hosts_tokens_def by (simp split: option.split)
qed

definition valid_rules :: "string list \<Rightarrow> string set" where
  "valid_rules toks = {d \<in> to_lower_ascii ` set toks. is_valid_domain d}"

lemma valid_rules_Nil [simp]: "valid_rules [] = {}"
  by (simp add: valid_rules_def)

lemma valid_rules_Cons:
  "valid_rules (t # ts) = (if is_valid_domain (to_lower_ascii t) then insert (to_lower_ascii t) (valid_rules ts) else valid_rules ts)"
  by (auto simp: valid_rules_def)

lemma count_new_elements:
  assumes "finite S"
  shows "(if card (insert d S) \<noteq> card S then n + 1 else n) + card S = n + card (insert d S)"
  using assms by (cases "d \<in> S") (auto simp: insert_absorb)

text \<open>
  The loader works on any store of rules whose insertion keeps valid names only; the block rules and
  the allow rules are the two stores it is used with.
\<close>

locale rule_store =
  fixes rules :: "'s \<Rightarrow> string set"
    and set_rules :: "string set \<Rightarrow> 's \<Rightarrow> 's"
    and add :: "string \<Rightarrow> 's \<Rightarrow> 's"
  assumes rules_set [simp]: "rules (set_rules S s) = S"
    and set_rules_twice [simp]: "set_rules S (set_rules R s) = set_rules S s"
    and set_rules_same [simp]: "set_rules (rules s) s = s"
    and add_rules: "add d s = (if is_valid_domain (to_lower_ascii d)
      then set_rules (insert (to_lower_ascii d) (rules s)) s else s)"
begin

lemma rules_add: "rules (add t s) \<union> valid_rules ts = rules s \<union> valid_rules (t # ts)"
  by (auto simp: add_rules valid_rules_Cons)

lemma add_count:
  "finite (rules s) \<Longrightarrow>
     (if card (rules (add t s)) \<noteq> card (rules s) then n + 1 else n) + card (rules s) = n + card (rules (add t s))"
  using count_new_elements [of "rules s" "to_lower_ascii t" n]
  by (cases "is_valid_domain (to_lower_ascii t)") (simp_all only: add_rules if_True if_False rules_set simp_thms)

lemma set_rules_add [simp]: "set_rules S (add t s) = set_rules S s"
  by (simp add: add_rules)

lemma finite_add [simp]: "finite (rules s) \<Longrightarrow> finite (rules (add t s))"
  by (simp add: add_rules)

lemma load_fold:
  assumes "finite (rules s)"
  shows "\<exists>added. foldl (\<lambda>(s, added) tok. case (let before = card (rules s); s' = add tok s
        in (s', card (rules s') \<noteq> before)) of (s', new) \<Rightarrow> (s', if new then added + 1 else added)) (s, n) toks =
      (set_rules (rules s \<union> valid_rules toks) s, added) \<and>
      added + card (rules s) = n + card (rules s \<union> valid_rules toks)"
  using assms
proof (induction toks arbitrary: s n)
  case (Cons t ts)
  let ?new = "if card (rules (add t s)) \<noteq> card (rules s) then n + 1 else n"
  have cnt: "?new + card (rules s) = n + card (rules (add t s))" by (rule add_count [OF Cons.prems])
  obtain added where IH: "foldl (\<lambda>(s, added) tok. case (let before = card (rules s); s' = add tok s
        in (s', card (rules s') \<noteq> before)) of (s', new) \<Rightarrow> (s', if new then added + 1 else added)) (add t s, ?new) ts =
      (set_rules (rules s \<union> valid_rules (t # ts)) s, added)"
    "added + card (rules (add t s)) = ?new + card (rules s \<union> valid_rules (t # ts))"
    using Cons.IH [OF finite_add [OF Cons.prems], of t ?new] by (auto simp: rules_add)
  have "added + card (rules s) = n + card (rules s \<union> valid_rules (t # ts))" using IH(2) cnt by linarith
  with IH(1) show ?case by (simp add: Let_def)
qed simp

lemma load_spec:
  assumes "finite (rules s)" and "read_file path = Some content"
  shows "\<exists>added. load_hosts_into read_file path
      (\<lambda>tok s. let before = card (rules s); s' = add tok s in (s', card (rules s') \<noteq> before)) s =
      Inr (set_rules (rules s \<union> valid_rules (hosts_tokens content)) s, added) \<and>
      card (rules s) + added = card (rules s \<union> valid_rules (hosts_tokens content))"
  using load_fold [OF assms(1), of 0 "hosts_tokens content"] assms(2)
  by (auto simp: load_hosts_into_fold add.commute)

end

interpretation block_store: rule_store bl_suffix "\<lambda>S bl. bl\<lparr>bl_suffix := S\<rparr>" add_suffix
  by unfold_locales (simp_all add: add_suffix_def Let_def)

interpretation allow_store: rule_store bl_allow_suffix "\<lambda>S bl. bl\<lparr>bl_allow_suffix := S\<rparr>" add_allow_suffix
  by unfold_locales (simp_all add: add_allow_suffix_def Let_def)

section \<open>Properties\<close>

definition sample_blocklist :: blocklist where
  [eval_simps]: "sample_blocklist = add_allow_suffix ''google.com'' (add_suffix ''Analytics.Google.com'' empty_blocklist)"

lemma sample_blocklist_eval:
  "sample_blocklist = \<lparr>bl_exact = {}, bl_suffix = {''analytics.google.com''}, bl_regex = [],
     bl_allow_exact = {}, bl_allow_suffix = {''google.com''}\<rparr>"
  by (simp add: eval_simps char_of_eq_iff)

lemma sample_blocklist_wf: "blocklist_wf sample_blocklist"
  unfolding sample_blocklist_def by (rule add_wf(4) [OF add_wf(2) [OF empty_blocklist_wf]])


lemma sample_hits:
  "deny_hits sample_blocklist ''t.analytics.google.com'' = {''analytics.google.com''}"
  "allow_hits sample_blocklist ''t.analytics.google.com'' = {''google.com''}"
proof -
  have "label_suffix ''analytics.google.com'' ''t.analytics.google.com''" "label_suffix ''google.com'' ''t.analytics.google.com''"
    by (simp_all add: label_suffix_def suffix_Cons)
  then show "deny_hits sample_blocklist ''t.analytics.google.com'' = {''analytics.google.com''}"
    "allow_hits sample_blocklist ''t.analytics.google.com'' = {''google.com''}"
    unfolding sample_blocklist_eval by (auto simp: deny_hits_def allow_hits_def name_hits_def)
qed


text \<open>Loading a hosts file that can be opened adds exactly the valid names among its tokens (all
  but the first token of each line, comments cut off, lower-cased) to the suffix block rules, leaves
  every other rule set alone, keeps the list well-formed, and returns the number of rules that were
  new. From then on every such name and everything below it is blocked by a rule at least that
  specific, unless an allow rule of at least its length applies.\<close>

theorem load_hosts_file_blocks:
  assumes "blocklist_wf bl" and "read_file path = Some content"
  shows "\<exists>added. load_hosts_file read_file path bl =
        Inr (bl\<lparr>bl_suffix := bl_suffix bl \<union> valid_rules (hosts_tokens content)\<rparr>, added) \<and>
      card (bl_suffix bl) + added = card (bl_suffix bl \<union> valid_rules (hosts_tokens content)) \<and>
      (let bl' = bl\<lparr>bl_suffix := bl_suffix bl \<union> valid_rules (hosts_tokens content)\<rparr> in
        blocklist_wf bl' \<and>
        (\<forall>tok \<in> set (hosts_tokens content). \<forall>q. is_valid_domain (to_lower_ascii tok) \<and> label_suffix (to_lower_ascii tok) q \<and>
           (\<forall>a \<in> allow_hits bl q. length a < length tok) \<longrightarrow>
             blocked (blocklist_match bl' q) \<and> length tok \<le> length (matched_rule (blocklist_match bl' q))))"
proof -
  let ?bl = "bl\<lparr>bl_suffix := bl_suffix bl \<union> valid_rules (hosts_tokens content)\<rparr>"
  have fin: "finite (bl_suffix bl)" using assms(1) by (simp add: blocklist_wf_def)
  have wf: "blocklist_wf ?bl" using assms(1) by (auto simp: blocklist_wf_def valid_rules_def)
  have "blocked (blocklist_match ?bl q) \<and> length tok \<le> length (matched_rule (blocklist_match ?bl q))"
    if tok: "tok \<in> set (hosts_tokens content)" "is_valid_domain (to_lower_ascii tok)" "label_suffix (to_lower_ascii tok) q"
      "\<forall>a \<in> allow_hits bl q. length a < length tok" for tok q
  proof -
    have hit: "to_lower_ascii tok \<in> deny_hits ?bl q" using tok by (auto simp: deny_hits_def name_hits_def valid_rules_def)
    have qn: "q \<noteq> []" using valid_domain_nonempty [OF tok(2)] label_suffix_length [OF tok(3)] by auto
    show ?thesis
    proof (rule deny_hit_cases [OF wf qn])
      fix d k
      assume d: "d \<in> deny_hits ?bl q" "d \<noteq> []" "\<forall>e \<in> deny_hits ?bl q. length e \<le> length d"
        "deny_hit ?bl q = (\<lparr>blocked = True, matched_rule = d, matched_kind = k\<rparr>, length d)"
      have len: "length tok \<le> length d" using d(3) hit by (auto simp: to_lower_ascii_def)
      have "allow_hits ?bl q = allow_hits bl q" by (simp add: allow_hits_def)
      then show ?thesis unfolding blocklist_match_deny [OF qn d(4,2)] using tok(4) len by (auto intro: less_le_trans)
    qed (use hit in auto)
  qed
  with block_store.load_spec [of bl read_file path content, OF fin assms(2)] wf show ?thesis by (auto simp: load_hosts_file_def Let_def)
qed

definition sample_content :: string where
  [eval_simps]: "sample_content = ''0.0.0.0 Ads.net  # x'' @ [CHR 0x0A] @ ''# c''"

definition sample_hosts :: "string \<Rightarrow> string option" where
  [eval_simps]: "sample_hosts path = (if path = ''hosts'' then Some sample_content else None)"

lemma sample_hosts_tokens: "hosts_tokens sample_content = [''Ads.net'']"
  by (simp add: hosts_tokens_def eval_simps)

theorem load_hosts_file_blocks_witness:
  "\<exists>bl'. load_hosts_file sample_hosts ''hosts'' empty_blocklist = Inr (bl', 1) \<and> blocked (blocklist_match bl' ''x.ads.net'')"
proof -
  have r: "sample_hosts ''hosts'' = Some sample_content" by (simp add: sample_hosts_def)
  have l: "to_lower_ascii ''Ads.net'' = ''ads.net'' \<and> is_valid_domain ''ads.net''" by (simp add: eval_simps char_of_eq_iff)
  have s: "label_suffix ''ads.net'' ''x.ads.net''" by (simp add: label_suffix_def suffix_Cons)
  have a: "allow_hits empty_blocklist q = {}" for q by (simp add: allow_hits_def name_hits_def empty_blocklist_def)
  show ?thesis
    using load_hosts_file_blocks [of empty_blocklist sample_hosts "''hosts''", OF empty_blocklist_wf r] s l
    unfolding sample_hosts_tokens a Let_def by (auto simp: valid_rules_Cons empty_blocklist_def)
qed

text \<open>An allow rule does not always win: with \<^verbatim>\<open>google.com\<close> allowed and \<^verbatim>\<open>analytics.google.com\<close>
  blocked, the name \<^verbatim>\<open>t.analytics.google.com\<close> is reported as allowed by \<^verbatim>\<open>allowed\<close> and is blocked by
  \<^verbatim>\<open>match\<close>, contrary to the comment of the header that an allowlist hit is checked first and returns
  \<^verbatim>\<open>blocked=false\<close>.\<close>

theorem allow_rule_can_lose:
  "allowed sample_blocklist ''t.analytics.google.com'' \<and> blocked (blocklist_match sample_blocklist ''t.analytics.google.com'')"
  by (simp add: sample_blocklist_eval eval_simps find_suffix_from.simps)

end
