(* ===== verification/Padding.thy ===== *)
theory Padding
  imports Parser
begin

text \<open>
  \<^verbatim>\<open>edns_padding.cpp\<close>: padding a query to a block size with the EDNS0 padding option, either by extending
  an OPT record that ends the packet or by appending one. Sizes are natural numbers; the 16-bit
  fields they are stored in are truncated the way the \<^verbatim>\<open>static_cast\<close>s do.
\<close>

section \<open>Definitions\<close>

definition kOptionCodePadding :: u16 where [eval_simps]: "kOptionCodePadding = 12"
definition kDefaultUdpPayload :: u16 where [eval_simps]: "kDefaultUdpPayload = 4096"
definition kOptRrSkeleton :: nat where [eval_simps]: "kOptRrSkeleton = 11"
definition kPaddingOptionHead :: nat where [eval_simps]: "kPaddingOptionHead = 4"
definition kPadBlockDefault :: nat where [eval_simps]: "kPadBlockDefault = 128"
definition kPadBlockDot :: nat where [eval_simps]: "kPadBlockDot = 468"

definition round_up :: "nat \<Rightarrow> nat \<Rightarrow> nat" where
  [eval_simps]: "round_up n block = ((n + block - 1) div block) * block"

definition append_u16_be :: "bytes \<Rightarrow> u16 \<Rightarrow> bytes" where
  [eval_simps]: "append_u16_be out v = out @ [u16_hi v, u16_lo v]"

definition append_padding_option :: "bytes \<Rightarrow> nat \<Rightarrow> bytes" where
  [eval_simps]: "append_padding_option out pad_len =
     append_u16_be (append_u16_be out kOptionCodePadding) (word_of_nat pad_len) @ replicate pad_len 0"

datatype opt_scan = OptNone | OptLast resource_record | OptNotLast resource_record

fun scan_opt_in :: "resource_record list \<Rightarrow> nat \<Rightarrow> opt_scan" where
  "scan_opt_in [] query_size = OptNone"
| "scan_opt_in (rr # rrs) query_size =
     (if rr_type rr \<noteq> dns_type_OPT then scan_opt_in rrs query_size
      else if rr_off rr + length (rr_rdata rr) = query_size then OptLast rr
      else OptNotLast rr)"

definition scan_opt :: "dns_message \<Rightarrow> bytes \<Rightarrow> opt_scan" where
  [eval_simps]: "scan_opt msg query = scan_opt_in (additional msg) (length query)"

definition pad_query :: "bytes \<Rightarrow> nat \<Rightarrow> bytes" where
  [eval_simps]: "pad_query query block_size =
     (let out = query in
      if block_size = 0 then out
      else case parse query of
        Inl _ \<Rightarrow> out
      | Inr msg \<Rightarrow>
          (case scan_opt msg query of
             OptNotLast _ \<Rightarrow> out
           | OptLast rr \<Rightarrow>
               let min_new = length query + kPaddingOptionHead;
                   target = round_up min_new block_size;
                   pad_len = target - min_new;
                   new_rdlen_full = length (rr_rdata rr) + kPaddingOptionHead + pad_len in
               if new_rdlen_full > 65535 then out
               else append_padding_option (write_u16_be out (rr_off rr - 2) (word_of_nat new_rdlen_full)) pad_len
           | OptNone \<Rightarrow>
               let old_arcount = u16_of (query ! 10) (query ! 11) in
               if old_arcount = - 1 then out
               else
                 let min_new = length query + kOptRrSkeleton + kPaddingOptionHead;
                     target = round_up min_new block_size;
                     pad_len = target - min_new;
                     out = out @ [0];
                     out = append_u16_be out dns_type_OPT;
                     out = append_u16_be out kDefaultUdpPayload;
                     out = append_u16_be out 0;
                     out = append_u16_be out 0;
                     out = append_u16_be out (word_of_nat (kPaddingOptionHead + pad_len));
                     out = append_padding_option out pad_len
                 in write_u16_be out 10 (old_arcount + 1)))"

section \<open>Sizes\<close>

lemma round_up_bounds:
  assumes "0 < b"
  shows "b dvd round_up n b" "n \<le> round_up n b" "round_up n b < n + b"
proof -
  let ?m = "n + b - 1"
  have "?m = round_up n b + ?m mod b" by (simp add: round_up_def)
  moreover have "?m mod b < b" using assms by simp
  ultimately show "n \<le> round_up n b" "round_up n b < n + b" using assms by linarith+
qed (simp add: round_up_def)

definition pad_len_for :: "nat \<Rightarrow> nat \<Rightarrow> nat" where
  "pad_len_for n b = round_up n b - n"

lemma pad_len_for_bounds:
  "0 < b \<Longrightarrow> pad_len_for n b < b" "0 < b \<Longrightarrow> b dvd n + pad_len_for n b"
  using round_up_bounds [of b n] by (auto simp: pad_len_for_def)

abbreviation padding_option :: "nat \<Rightarrow> bytes" where
  "padding_option n \<equiv> [0, 12, u16_hi (word_of_nat n), u16_lo (word_of_nat n)] @ replicate n 0"

abbreviation opt_record :: "bytes \<Rightarrow> nat \<Rightarrow> bytes" where
  "opt_record fx n \<equiv> [0, 0, 41] @ fx @ [u16_hi (word_of_nat n), u16_lo (word_of_nat n)]"

lemma append_padding_option_eq: "append_padding_option out n = out @ padding_option n"
  by (simp add: append_padding_option_def append_u16_be_def kOptionCodePadding_def u16_hi_def u16_lo_def)

text \<open>The three shapes of the result.\<close>

lemma pad_query_cases:
  assumes "0 < b" "parse q = Inr m"
  obtains "pad_query q b = q"
  | rr where "scan_opt m q = OptLast rr" "length (rr_rdata rr) + 4 + pad_len_for (length q + 4) b \<le> 65535"
      "pad_query q b = write_u16_be q (rr_off rr - 2) (word_of_nat (length (rr_rdata rr) + 4 + pad_len_for (length q + 4) b))
         @ padding_option (pad_len_for (length q + 4) b)"
  | "scan_opt m q = OptNone" "read_u16_be q 10 \<noteq> - 1"
      "pad_query q b = write_u16_be (q @ opt_record [16, 0, 0, 0, 0, 0] (4 + pad_len_for (length q + 15) b)
         @ padding_option (pad_len_for (length q + 15) b)) 10 (read_u16_be q 10 + 1)"
proof (cases "scan_opt m q")
  case OptNone
  have "pad_query q b = q \<or> read_u16_be q 10 \<noteq> - 1 \<and> pad_query q b =
      write_u16_be (q @ opt_record [16, 0, 0, 0, 0, 0] (4 + pad_len_for (length q + 15) b)
         @ padding_option (pad_len_for (length q + 15) b)) 10 (read_u16_be q 10 + 1)"
    using assms OptNone
    by (cases "read_u16_be q 10 = - 1")
      (simp_all add: pad_query_def append_padding_option_eq append_u16_be_def dns_type_OPT_def kDefaultUdpPayload_def
        kOptRrSkeleton_def kPaddingOptionHead_def Let_def pad_len_for_def read_u16_be_def u16_hi_def u16_lo_def
        add.commute [of 15])
  then show ?thesis using OptNone that by blast
next
  case (OptLast rr)
  have "pad_query q b = q \<or> length (rr_rdata rr) + 4 + pad_len_for (length q + 4) b \<le> 65535 \<and> pad_query q b =
      write_u16_be q (rr_off rr - 2) (word_of_nat (length (rr_rdata rr) + 4 + pad_len_for (length q + 4) b))
         @ padding_option (pad_len_for (length q + 4) b)"
    using assms OptLast
    by (auto simp: pad_query_def append_padding_option_eq kPaddingOptionHead_def Let_def pad_len_for_def)
  then show ?thesis using OptLast that by blast
next
  case (OptNotLast rr)
  then show ?thesis using assms that(1) by (simp add: pad_query_def)
qed

section \<open>Queries of a stub resolver\<close>

text \<open>
  \<open>stub_query q ls opt\<close>: one uncompressed question and, optionally, one OPT record with the fixed
  fields \<open>fx\<close> (class and TTL) and the data \<open>rd\<close>, and nothing else.
\<close>

definition stub_packet :: "bytes \<Rightarrow> bytes list \<Rightarrow> bytes \<Rightarrow> (bytes \<times> bytes) option \<Rightarrow> bytes" where
  [eval_simps]: "stub_packet hdr ls tc opt = hdr @ enc_labels ls @ 0 # tc @
     (case opt of None \<Rightarrow> [] | Some (fx, rd) \<Rightarrow> opt_record fx (length rd) @ rd)"

definition stub_ok :: "bytes \<Rightarrow> bytes list \<Rightarrow> bytes \<Rightarrow> (bytes \<times> bytes) option \<Rightarrow> bool" where
  [eval_simps]: "stub_ok hdr ls tc opt \<longleftrightarrow> length hdr = 12 \<and> length tc = 4 \<and>
     list_all label_ok ls \<and> length (labels_text ls) \<le> kMaxNameSize \<and>
     read_u16_be hdr 4 = 1 \<and> read_u16_be hdr 6 = 0 \<and> read_u16_be hdr 8 = 0 \<and>
     (case opt of None \<Rightarrow> read_u16_be hdr 10 = 0
      | Some (fx, rd) \<Rightarrow> read_u16_be hdr 10 = 1 \<and> length fx = 6 \<and> length rd \<le> 65535)"

definition stub_message :: "bytes \<Rightarrow> bytes list \<Rightarrow> bytes \<Rightarrow> (bytes \<times> bytes) option \<Rightarrow> dns_message" where
  "stub_message hdr ls tc opt =
     (let q_end = 12 + length (enc_labels ls) + 5 in
      \<lparr>msg_header = header_of_flags (read_u16_be hdr 0) (read_u16_be hdr 2) 1 0 0 (case opt of None \<Rightarrow> 0 | Some _ \<Rightarrow> 1),
       questions = [\<lparr>q_name = labels_text ls, q_type = read_u16_be tc 0, q_class = read_u16_be tc 2\<rparr>],
       answers = [], authority = [],
       additional = (case opt of None \<Rightarrow> [] | Some (fx, rd) \<Rightarrow>
         [\<lparr>rr_name = [], rr_type = 41, rr_class = read_u16_be fx 0, rr_ttl = read_u32_be fx 2,
           rr_off = q_end + 11, rr_rdata = rd\<rparr>]),
       question_section_end = q_end\<rparr>)"

lemma parse_rr_fields:
  assumes "decode_name p cursor = Inr (nm, c)" "read_u16_be p c = ty" "read_u16_be p (c + 2) = cl"
    "read_u32_be p (c + 4) = ttl" "unat (read_u16_be p (c + 8)) = n" "c + 10 + n \<le> length p"
    "take n (drop (c + 10) p) = rd"
  shows "parse_rr p cursor = Inr (\<lparr>rr_name = nm, rr_type = ty, rr_class = cl, rr_ttl = ttl, rr_off = c + 10, rr_rdata = rd\<rparr>, c + 10 + n)"
  using assms by (simp add: parse_rr_eq_Inr)

lemma parse_opt_record:
  assumes "length fx = 6" "length rd \<le> 65535"
  shows "parse_rr (pre @ opt_record fx (length rd) @ rd) (length pre) =
    Inr (\<lparr>rr_name = [], rr_type = 41, rr_class = read_u16_be fx 0, rr_ttl = read_u32_be fx 2,
      rr_off = length pre + 1 + 10, rr_rdata = rd\<rparr>, length pre + 1 + 10 + length rd)"
proof (rule parse_rr_fields)
  let ?p = "pre @ opt_record fx (length rd) @ rd" and ?e = "length pre"
  obtain a b c d e f where fx: "fx = [a, b, c, d, e, f]"
    using assms(1) by (auto simp: numeral_eq_Suc length_Suc_conv)
  show "decode_name ?p ?e = Inr ([], ?e + 1)"
    unfolding decode_name_def by (subst decode_root) simp_all
  show "read_u16_be ?p (?e + 1) = 41" "read_u16_be ?p (?e + 1 + 2) = read_u16_be fx 0"
    "read_u32_be ?p (?e + 1 + 4) = read_u32_be fx 2"
    unfolding add.assoc read_u16_be_prefix read_u32_be_prefix
    by (simp_all add: fx read_u16_be_def read_u32_be_def) (simp add: u16_of_def)
  have "read_u16_be ?p (?e + 1 + 8) = word_of_nat (length rd)"
    unfolding add.assoc read_u16_be_prefix by (simp add: fx read_u16_be_def)
  then show "unat (read_u16_be ?p (?e + 1 + 8)) = length rd"
    using assms(2) by (simp only:) (simp add: unat_of_nat take_bit_nat_eq_self)
  show "?e + 1 + 10 + length rd \<le> length ?p" "take (length rd) (drop (?e + 1 + 10) ?p) = rd" by (simp_all add: fx)
qed

lemma parse_stub_packet:
  assumes "stub_ok hdr ls tc opt"
  shows "parse (stub_packet hdr ls tc opt) = Inr (stub_message hdr ls tc opt)"
proof -
  let ?tl = "case opt of None \<Rightarrow> [] | Some (fx, rd) \<Rightarrow> opt_record fx (length rd) @ rd"
  let ?p = "stub_packet hdr ls tc opt" and ?n = "length (enc_labels ls)"
  obtain t1 t2 c1 c2 where tc: "tc = [t1, t2, c1, c2]"
    using assms by (auto simp: stub_ok_def numeral_eq_Suc length_Suc_conv)
  have l: "length hdr = 12" using assms by (simp add: stub_ok_def)
  have hd: "read_u16_be ?p k = read_u16_be hdr k" if "k + 1 < 12" for k
    using that l by (simp add: stub_packet_def read_u16_be_append)
  have dec: "decode_name ?p 12 = Inr (labels_text ls, 12 + ?n + 1)"
    using decode_name_enc_labels [of ls hdr "tc @ ?tl"] assms l by (simp add: stub_packet_def stub_ok_def)
  have pre: "?p = (hdr @ enc_labels ls @ [0]) @ tc @ ?tl" by (simp add: stub_packet_def)
  have rd: "read_u16_be ?p (12 + ?n + 1) = u16_of t1 t2" "read_u16_be ?p (12 + ?n + 1 + 2) = u16_of c1 c2"
    unfolding pre using l read_u16_be_prefix [of "hdr @ enc_labels ls @ [0]" "tc @ ?tl" 0]
      read_u16_be_prefix [of "hdr @ enc_labels ls @ [0]" "tc @ ?tl" 2]
    by (simp_all add: add.assoc) (simp_all add: tc read_u16_be_def)
  have len: "12 + ?n + 5 \<le> length ?p" using l tc by (simp add: stub_packet_def)
  have q: "parse_questions ?p kHeaderSize 1 = Inr ([\<lparr>q_name = labels_text ls, q_type = read_u16_be tc 0, q_class = read_u16_be tc 2\<rparr>], 12 + ?n + 5)"
    using dec rd len by (simp add: kHeaderSize_def parse_question_eq_Inr) (simp add: tc read_u16_be_def)
  show ?thesis
  proof (cases opt)
    case None
    have "parse_header ?p = Inr (header_of_flags (read_u16_be hdr 0) (read_u16_be hdr 2) 1 0 0 0)"
      using assms hd len None by (simp add: parse_header_eq_Inr stub_ok_def kHeaderSize_def)
    with q show ?thesis by (simp add: parse_eq_Inr parse_to_eq_Inr None stub_message_def header_of_flags_def Let_def)
  next
    case (Some o')
    obtain fx rd' where o': "o' = (fx, rd')" by (cases o')
    have h: "parse_header ?p = Inr (header_of_flags (read_u16_be hdr 0) (read_u16_be hdr 2) 1 0 0 1)"
      using assms hd len Some o' by (simp add: parse_header_eq_Inr stub_ok_def kHeaderSize_def)
    have fx: "length fx = 6" "length rd' \<le> 65535" using assms Some o' by (simp_all add: stub_ok_def)
    have "?p = (hdr @ enc_labels ls @ 0 # tc) @ opt_record fx (length rd') @ rd'"
      by (simp add: stub_packet_def Some o')
    from parse_opt_record [OF fx, of "hdr @ enc_labels ls @ 0 # tc", folded this] l tc
    have "parse_rr ?p (12 + ?n + 5) = Inr (\<lparr>rr_name = [], rr_type = 41, rr_class = read_u16_be fx 0, rr_ttl = read_u32_be fx 2,
        rr_off = 12 + ?n + 5 + 11, rr_rdata = rd'\<rparr>, 12 + ?n + 5 + 11 + length rd')"
      by (simp add: add.commute add.left_commute)
    with h q show ?thesis by (simp add: parse_eq_Inr parse_to_eq_Inr Some o' stub_message_def header_of_flags_def Let_def)
  qed
qed

lemma write_u16_be_at: "write_u16_be (pre @ x # y # rest) (length pre) v = pre @ u16_hi v # u16_lo v # rest"
  by (simp add: write_u16_be_def list_update_append)

lemma scan_stub:
  assumes "stub_ok hdr ls tc opt"
  shows "scan_opt (stub_message hdr ls tc opt) (stub_packet hdr ls tc opt) =
    (case opt of None \<Rightarrow> OptNone | Some (fx, rd) \<Rightarrow> OptLast (hd (additional (stub_message hdr ls tc opt))))"
  using assms by (auto simp: scan_opt_def stub_message_def stub_packet_def stub_ok_def dns_type_OPT_def Let_def split: option.splits)

lemma pad_stub_none:
  assumes "stub_ok hdr ls tc None" "0 < b" "length (stub_packet hdr ls tc None) + 15 + b \<le> 65535"
  defines "n \<equiv> pad_len_for (length (stub_packet hdr ls tc None) + 15) b"
  shows "pad_query (stub_packet hdr ls tc None) b =
      stub_packet (write_u16_be hdr 10 1) ls tc (Some ([16, 0, 0, 0, 0, 0], padding_option n))"
    "stub_ok (write_u16_be hdr 10 1) ls tc (Some ([16, 0, 0, 0, 0, 0], padding_option n))"
proof -
  let ?q = "stub_packet hdr ls tc None"
  have l: "length hdr = 12" using assms(1) by (simp add: stub_ok_def)
  have z: "read_u16_be ?q 10 = 0" using assms(1) l by (simp add: stub_packet_def read_u16_be_append stub_ok_def)
  have nb: "n < b" unfolding n_def using assms(2) by (rule pad_len_for_bounds(1))
  let ?ext = "opt_record [16, 0, 0, 0, 0, 0] (4 + n) @ padding_option n"
  have "pad_query ?q b = write_u16_be (?q @ ?ext) 10 (read_u16_be ?q 10 + 1)"
    using assms(2) z parse_stub_packet [OF assms(1)] scan_stub [OF assms(1)]
    by (simp add: pad_query_def append_padding_option_eq append_u16_be_def dns_type_OPT_def kDefaultUdpPayload_def
        kOptRrSkeleton_def kPaddingOptionHead_def Let_def n_def pad_len_for_def read_u16_be_def u16_hi_def u16_lo_def)
       (simp add: add.commute [of 15])
  also have "?q @ ?ext = hdr @ (enc_labels ls @ 0 # tc @ ?ext)" by (simp add: stub_packet_def)
  also have "write_u16_be (hdr @ (enc_labels ls @ 0 # tc @ ?ext)) 10 (read_u16_be ?q 10 + 1) =
      write_u16_be hdr 10 1 @ (enc_labels ls @ 0 # tc @ ?ext)" using l z by (simp add: write_u16_be_append)
  finally show "pad_query ?q b = stub_packet (write_u16_be hdr 10 1) ls tc (Some ([16, 0, 0, 0, 0, 0], padding_option n))"
    by (simp add: stub_packet_def)
  have "read_u16_be (write_u16_be hdr 10 1) 10 = 1" using l by (intro read_write_u16_same) simp
  then show "stub_ok (write_u16_be hdr 10 1) ls tc (Some ([16, 0, 0, 0, 0, 0], padding_option n))"
    using assms(1,3) nb l by (auto simp: stub_ok_def read_write_u16_other)
qed

lemma pad_stub_opt:
  assumes "stub_ok hdr ls tc (Some (fx, rd))" "0 < b" "length (stub_packet hdr ls tc (Some (fx, rd))) + 15 + b \<le> 65535"
  defines "n \<equiv> pad_len_for (length (stub_packet hdr ls tc (Some (fx, rd))) + 4) b"
  shows "pad_query (stub_packet hdr ls tc (Some (fx, rd))) b = stub_packet hdr ls tc (Some (fx, rd @ padding_option n))"
    "stub_ok hdr ls tc (Some (fx, rd @ padding_option n))"
proof -
  let ?q = "stub_packet hdr ls tc (Some (fx, rd))"
  have l: "length hdr = 12" "length tc = 4" "length fx = 6" using assms(1) by (simp_all add: stub_ok_def)
  have nb: "n < b" unfolding n_def using assms(2) by (rule pad_len_for_bounds(1))
  have rl: "length rd + 4 + n \<le> 65535" using nb assms(3) by (simp add: stub_packet_def)
  let ?pre = "hdr @ enc_labels ls @ 0 # tc @ [0, 0, 41] @ fx"
  have off: "rr_off (hd (additional (stub_message hdr ls tc (Some (fx, rd))))) - 2 = length ?pre"
    "rr_rdata (hd (additional (stub_message hdr ls tc (Some (fx, rd))))) = rd"
    using l by (simp_all add: stub_message_def Let_def)
  have "pad_query ?q b = write_u16_be ?q (length ?pre) (word_of_nat (length rd + 4 + n)) @ padding_option n"
    using assms(2) rl parse_stub_packet [OF assms(1)] scan_stub [OF assms(1)] off
    by (simp add: pad_query_def append_padding_option_eq kPaddingOptionHead_def Let_def n_def pad_len_for_def del: length_append)
  also have "?q = ?pre @ u16_hi (word_of_nat (length rd)) # u16_lo (word_of_nat (length rd)) # rd"
    by (simp add: stub_packet_def)
  also note write_u16_be_at
  finally show "pad_query ?q b = stub_packet hdr ls tc (Some (fx, rd @ padding_option n))"
    by (simp add: stub_packet_def ac_simps)
  show "stub_ok hdr ls tc (Some (fx, rd @ padding_option n))" using assms(1) rl by (simp add: stub_ok_def)
qed

lemma default_fields: "read_u16_be [16, 0, 0, 0, 0, 0] 0 = 4096" "read_u32_be [16, 0, 0, 0, 0, 0] 2 = 0"
  by (simp_all add: read_u16_be_def read_u32_be_def u16_of_def u32_of_def)

section \<open>Properties\<close>

text \<open>Padding is all or nothing. The result is the query itself or, when it differs, its length is a
  multiple of the block size, at most 14 octets plus one block longer than the query, and its first
  ten octets (id, flags, question, answer and authority counts) are the query's.\<close>

theorem pad_query_block:
  "pad_query q b = q \<or>
   b dvd length (pad_query q b) \<and> length q < length (pad_query q b) \<and> length (pad_query q b) < length q + 15 + b \<and>
   take 10 (pad_query q b) = take 10 q"
proof (cases "b = 0 \<or> (\<forall>m. parse q \<noteq> Inr m)")
  case True
  then show ?thesis by (auto simp: pad_query_def split: sum.splits)
next
  case False
  then obtain m where b: "0 < b" and m: "parse q = Inr m" by auto
  have wf: "msg_wf q m" using m parse_to_wf by (auto simp: parse_eq_Inr)
  from b m show ?thesis
  proof (cases rule: pad_query_cases)
    case (2 rr)
    have "scan_opt_in rrs k = OptLast rr \<Longrightarrow> rr \<in> set rrs" for rrs k by (induction rrs) (auto split: if_splits)
    then have mem: "rr \<in> set (additional m)" using 2(1) by (simp add: scan_opt_def)
    obtain e where "rr_chain (question_section_end m) (answers m @ authority m @ additional m) e"
      "kHeaderSize \<le> question_section_end m" using wf by (auto simp: msg_wf_def)
    moreover have "rr_chain c rrs e \<Longrightarrow> rr \<in> set rrs \<Longrightarrow> c + 11 \<le> rr_off rr" for c rrs
      by (induction rrs arbitrary: c) force+
    ultimately have "12 \<le> rr_off rr - 2" using mem by (fastforce simp: kHeaderSize_def)
    then have "take 10 (write_u16_be q (rr_off rr - 2) v) = take 10 q" for v
      by (simp add: write_u16_be_def take_update_cancel)
    moreover have "12 \<le> length q" using wf by (auto simp: msg_wf_def kHeaderSize_def)
    ultimately have "take 10 (pad_query q b) = take 10 q" unfolding 2(3) by simp
    moreover have "length (pad_query q b) = length q + 4 + pad_len_for (length q + 4) b" unfolding 2(3) by simp
    ultimately show ?thesis using pad_len_for_bounds [OF b, of "length q + 4"] by simp
  next
    case 3
    have "12 \<le> length q" using wf by (auto simp: msg_wf_def kHeaderSize_def)
    then have "take 10 (write_u16_be (q @ ext) 10 v) = take 10 q" for ext v
      by (simp add: write_u16_be_def take_update_cancel)
    then have "take 10 (pad_query q b) = take 10 q" unfolding 3(3) by blast
    moreover have "length (pad_query q b) = length q + 15 + pad_len_for (length q + 15) b" unfolding 3(3) by simp
    ultimately show ?thesis using pad_len_for_bounds [OF b, of "length q + 15"] by simp
  qed simp
qed

text \<open>C35: Padding a stub resolver's query keeps its meaning. For a query of one uncompressed question,
  with or without one OPT record after it, whose padded size stays below 64 KiB: the padded packet
  parses, its length is a multiple of the block size, the header differs at most in the additional
  count, which is one, the question is the same, and the additional section is a single OPT record
  that keeps the class, flags and options it had (or carries the defaults) followed by one padding
  option of fewer than block-size zero octets.\<close>

theorem pad_query_stub:
  assumes "stub_ok hdr ls tc opt" "0 < b" "length (stub_packet hdr ls tc opt) + 15 + b \<le> 65535"
  defines "q \<equiv> stub_packet hdr ls tc opt"
  shows "\<exists>m m' n rr. parse q = Inr m \<and> parse (pad_query q b) = Inr m' \<and> b dvd length (pad_query q b) \<and> n < b \<and>
    msg_header m' = (msg_header m)\<lparr>hdr_arcount := 1\<rparr> \<and> questions m' = questions m \<and> answers m' = [] \<and> authority m' = [] \<and>
    additional m' = [rr] \<and> rr_type rr = dns_type_OPT \<and>
    (case additional m of
       [] \<Rightarrow> rr_class rr = 4096 \<and> rr_ttl rr = 0 \<and> rr_rdata rr = padding_option n
     | old # _ \<Rightarrow> rr_class rr = rr_class old \<and> rr_ttl rr = rr_ttl old \<and> rr_rdata rr = rr_rdata old @ padding_option n)"
proof (cases opt)
  case None
  define n where "n = pad_len_for (length q + 15) b"
  note p = pad_stub_none [OF assms(1) [unfolded None] assms(2) assms(3) [unfolded None]]
  have eq: "pad_query q b = stub_packet (write_u16_be hdr 10 1) ls tc (Some ([16, 0, 0, 0, 0, 0], padding_option n))"
    and ok: "stub_ok (write_u16_be hdr 10 1) ls tc (Some ([16, 0, 0, 0, 0, 0], padding_option n))"
    using p None by (simp_all add: q_def n_def)
  have len: "length (pad_query q b) = length q + 15 + n" unfolding eq using ok assms(1) None
    by (simp add: stub_packet_def stub_ok_def q_def)
  have "length hdr = 12" using assms(1) by (simp add: stub_ok_def)
  then have hd: "read_u16_be (write_u16_be hdr 10 1) 0 = read_u16_be hdr 0" "read_u16_be (write_u16_be hdr 10 1) 2 = read_u16_be hdr 2"
    by (simp_all add: read_write_u16_other)
  have "n < b" "b dvd length (pad_query q b)" unfolding len n_def using pad_len_for_bounds [OF assms(2)] by simp_all
  moreover note parse_stub_packet [OF assms(1), folded q_def, unfolded None] parse_stub_packet [OF ok, folded eq]
  ultimately show ?thesis
    by (intro exI [of _ "stub_message hdr ls tc None"]
        exI [of _ "stub_message (write_u16_be hdr 10 1) ls tc (Some ([16, 0, 0, 0, 0, 0], padding_option n))"] exI [of _ n]
        exI [of _ "hd (additional (stub_message (write_u16_be hdr 10 1) ls tc (Some ([16, 0, 0, 0, 0, 0], padding_option n))))"])
      (simp add: stub_message_def Let_def header_of_flags_def hd dns_type_OPT_def default_fields)
next
  case (Some o')
  obtain fx rd where o': "o' = (fx, rd)" by (cases o')
  define n where "n = pad_len_for (length q + 4) b"
  note p = pad_stub_opt [OF assms(1) [unfolded Some o'] assms(2) assms(3) [unfolded Some o']]
  have eq: "pad_query q b = stub_packet hdr ls tc (Some (fx, rd @ padding_option n))"
    and ok: "stub_ok hdr ls tc (Some (fx, rd @ padding_option n))"
    using p Some o' by (simp_all add: q_def n_def)
  have len: "length (pad_query q b) = length q + 4 + n" unfolding eq using Some o' by (simp add: stub_packet_def q_def)
  have "n < b" "b dvd length (pad_query q b)" unfolding len n_def using pad_len_for_bounds [OF assms(2)] by simp_all
  moreover note parse_stub_packet [OF assms(1), folded q_def, unfolded Some o'] parse_stub_packet [OF ok, folded eq]
  ultimately show ?thesis
    by (intro exI [of _ "stub_message hdr ls tc (Some (fx, rd))"]
        exI [of _ "stub_message hdr ls tc (Some (fx, rd @ padding_option n))"] exI [of _ n]
        exI [of _ "hd (additional (stub_message hdr ls tc (Some (fx, rd @ padding_option n))))"])
      (simp add: stub_message_def Let_def header_of_flags_def dns_type_OPT_def)
qed

definition sample_stub :: bytes where
  [eval_simps]: "sample_stub = [0x12, 0x34, 0x01, 0x00, 0, 1, 0, 0, 0, 0, 0, 0]"

lemma sample_stub_ok: "stub_ok sample_stub [[0x41, 0x64], [0x58]] [0, 1, 0, 1] None"
  by (simp add: eval_simps)

lemma sample_stub_packet: "stub_packet sample_stub [[0x41, 0x64], [0x58]] [0, 1, 0, 1] None = sample_query"
  by (simp add: eval_simps)

theorem pad_query_stub_witness: "\<exists>m'. parse (pad_query sample_query 128) = Inr m' \<and> 128 dvd length (pad_query sample_query 128)"
  using pad_query_stub [OF sample_stub_ok, of 128] unfolding sample_stub_packet by (auto simp: sample_query_def)

text \<open>A query with octets after its last record is broken by padding: the OPT record is appended
  after those octets while the additional count is raised, so the padded packet no longer parses,
  although the query did.\<close>

theorem pad_query_trailing_breaks:
  "(\<exists>m. parse (sample_query @ [0xFF]) = Inr m) \<and> (\<exists>e. parse (pad_query (sample_query @ [0xFF]) 64) = Inl e)"
proof -
  let ?q = "sample_query @ [0xFF]"
  let ?p = "[0x12, 0x34, 0x01, 0x00, 0, 1, 0, 0, 0, 0, 0, 1, 2, 0x41, 0x64, 1, 0x58, 0, 0, 1, 0, 1, 0xFF,
       0, 0, 41, 16, 0, 0, 0, 0, 0, 0, 30, 0, 12, 0, 26] @ replicate 26 0 :: bytes"
  obtain m where m: "parse ?q = Inr m" "additional m = []"
    using parse_sample_query parse_to_append [of sample_query _ "[0xFF]"] by (auto simp: parse_eq_Inr)
  have "pad_query ?q 64 = ?p"
    unfolding pad_query_def Let_def m(1) by (simp add: scan_opt_def m(2)) (simp add: eval_simps)
  moreover have "parse ?p = Inl (ParseError ''name: pointer target out of bounds'')"
    by (simp add: eval_simps decode_name_loop.simps char_of_eq_iff)
  ultimately show ?thesis using m(1) by auto
qed

end
