(* ===== verification/Tls.thy ===== *)
theory Tls
  imports Prelude
begin

text \<open>
  \<^verbatim>\<open>tls.cpp\<close>, \<^verbatim>\<open>tls.hpp\<close> and \<^verbatim>\<open>tls_adapter.hpp\<close>: the base64 codec, the live ECH parameters, the pin check of
  the verify callback and the per-connection setup. OpenSSL is not under \<^verbatim>\<open>src/\<close>: the values its calls
  return are arguments (\<open>ok\<close> tells which setter succeeds, a status code, the DER bytes and the digest),
  and \<open>have_ech\<close> stands for the build flag \<^verbatim>\<open>CLOAKDNS_HAVE_ECH\<close>. A connection setup returns the calls
  it made beside its result, since those calls are its effect.
\<close>

section \<open>Base64\<close>

definition kBase64Alphabet :: string where
  [eval_simps]: "kBase64Alphabet = ''ABCDEFGHIJKLMNOPQRSTUVWXYZabcdefghijklmnopqrstuvwxyz0123456789+/''"

definition b64_triple :: "byte \<Rightarrow> byte \<Rightarrow> byte \<Rightarrow> u32" where
  [eval_simps]: "b64_triple b0 b1 b2 = push_bit 16 (ucast b0) OR push_bit 8 (ucast b1) OR ucast b2"

definition b64_char :: "nat \<Rightarrow> u32 \<Rightarrow> char" where
  [eval_simps]: "b64_char shift triple = kBase64Alphabet ! unat (drop_bit shift triple AND 0x3F)"

fun base64_encode :: "bytes \<Rightarrow> string" where
  "base64_encode [] = []"
| "base64_encode [b0] = (let t = b64_triple b0 0 0 in [b64_char 18 t, b64_char 12 t, CHR ''='', CHR ''=''])"
| "base64_encode [b0, b1] = (let t = b64_triple b0 b1 0 in [b64_char 18 t, b64_char 12 t, b64_char 6 t, CHR ''=''])"
| "base64_encode (b0 # b1 # b2 # rest) = (let t = b64_triple b0 b1 b2 in
     [b64_char 18 t, b64_char 12 t, b64_char 6 t, b64_char 0 t] @ base64_encode rest)"

definition kInvalid :: int where [eval_simps]: "kInvalid = - 1"

definition kLookup :: "char \<Rightarrow> int" where
  [eval_simps]: "kLookup ch = (let c = (of_char ch :: nat) in
     if 65 \<le> c \<and> c < 65 + 26 then int (c - 65)
     else if 97 \<le> c \<and> c < 97 + 26 then int (26 + (c - 97))
     else if 48 \<le> c \<and> c < 48 + 10 then int (52 + (c - 48))
     else if ch = CHR ''+'' then 62
     else if ch = CHR ''/'' then 63
     else kInvalid)"

definition b64_space :: "char \<Rightarrow> bool" where
  [eval_simps]: "b64_space c \<longleftrightarrow> c = CHR '' '' \<or> c = CHR 0x09 \<or> c = CHR 0x0A \<or> c = CHR 0x0D"

text \<open>The loop over groups of four; \<open>rest = []\<close> is \<^verbatim>\<open>i + 4 == packed.size()\<close>.\<close>

fun decode_groups :: "nat \<Rightarrow> string \<Rightarrow> bytes option" where
  "decode_groups pad (p0 # p1 # p2 # p3 # rest) =
     (let a = kLookup p0; b = kLookup p1;
          c_idx = (if p2 = CHR ''='' then 0 else kLookup p2);
          d_idx = (if p3 = CHR ''='' then 0 else kLookup p3) in
      if a = kInvalid \<or> b = kInvalid \<or> p2 \<noteq> CHR ''='' \<and> c_idx = kInvalid \<or> p3 \<noteq> CHR ''='' \<and> d_idx = kInvalid
      then None
      else
        let triple = push_bit 18 (word_of_int a) OR push_bit 12 (word_of_int b)
              OR push_bit 6 (word_of_int c_idx) OR (word_of_int d_idx :: u32);
            out = [ucast (drop_bit 16 triple AND 0xff)]
              @ (if rest \<noteq> [] \<or> pad < 2 then [ucast (drop_bit 8 triple AND 0xff)] else [])
              @ (if rest \<noteq> [] \<or> pad < 1 then [ucast (triple AND 0xff)] else []) in
        map_option (\<lambda>more. out @ more) (decode_groups pad rest))"
| "decode_groups pad _ = Some []"

definition base64_decode :: "string \<Rightarrow> bytes option" where
  [eval_simps]: "base64_decode input =
     (let packed = filter (\<lambda>c. \<not> b64_space c) input in
      if packed = [] then Some []
      else if length packed mod 4 \<noteq> 0 then None
      else
        let pad = (if packed ! (length packed - 1) = CHR ''='' then
                     (if length packed \<ge> 2 \<and> packed ! (length packed - 2) = CHR ''='' then 2 else 1) else 0) in
        decode_groups pad packed)"

section \<open>ECH parameters and pins\<close>

datatype ech_status = NotTried | Greased | Success | FailedRetry | Failed

definition ech_status_to_string :: "ech_status \<Rightarrow> string" where
  [eval_simps]: "ech_status_to_string s = (case s of
       Success \<Rightarrow> ''success'' | Greased \<Rightarrow> ''greased'' | FailedRetry \<Rightarrow> ''failed_retry_available''
     | Failed \<Rightarrow> ''failed'' | NotTried \<Rightarrow> ''not_tried'')"

text \<open>The \<^verbatim>\<open>shared_ptr\<close> to the bytes is an option (\<open>None\<close> for null); times are seconds since the epoch.\<close>

record ech_snapshot =
  ech_bytes :: "bytes option"
  outer_servername :: string
  fetched_at :: int

definition default_snapshot :: ech_snapshot where
  [eval_simps]: "default_snapshot = \<lparr>ech_bytes = None, outer_servername = [], fetched_at = 0\<rparr>"

definition ech_load :: "ech_snapshot \<Rightarrow> ech_snapshot" where
  [eval_simps]: "ech_load state = state"

definition ech_store :: "ech_snapshot \<Rightarrow> ech_snapshot \<Rightarrow> ech_snapshot" where
  [eval_simps]: "ech_store s state = s"

definition ech_update :: "(ech_snapshot \<Rightarrow> ech_snapshot) \<Rightarrow> ech_snapshot \<Rightarrow> ech_snapshot" where
  [eval_simps]: "ech_update fn state = fn state"

definition ech_config_enabled :: "ech_snapshot \<Rightarrow> bool" where
  [eval_simps]: "ech_config_enabled state = (case ech_bytes state of None \<Rightarrow> False | Some b \<Rightarrow> b \<noteq> [])"

datatype http_alpn = AlpnNone | Http1Only

record context_config =
  spki_pins :: "string list"
  ctx_servername :: string
  ctx_ech :: ech_snapshot
  ctx_ech_grease :: bool
  ctx_alpn :: http_alpn
  ctx_ca_file :: string

record tls_adapter_fields =
  taf_spki_pins :: "string list"
  taf_servername :: string
  taf_ca_file :: string
  taf_ech_grease :: bool
  taf_ech_outer_servername :: string
  taf_ech_config_list :: bytes

definition make_tls_for_adapter :: "tls_adapter_fields \<Rightarrow> http_alpn \<Rightarrow> context_config" where
  [eval_simps]: "make_tls_for_adapter f alpn =
     \<lparr>spki_pins = taf_spki_pins f, ctx_servername = taf_servername f,
      ctx_ech = \<lparr>ech_bytes = (if taf_ech_config_list f = [] then None else Some (taf_ech_config_list f)),
                 outer_servername = taf_ech_outer_servername f, fetched_at = 0\<rparr>,
      ctx_ech_grease = taf_ech_grease f, ctx_alpn = alpn, ctx_ca_file = taf_ca_file f\<rparr>"

text \<open>
  \<open>pubkey\<close> is \<^verbatim>\<open>X509_get_X509_PUBKEY\<close>, \<open>der\<close> what \<^verbatim>\<open>i2d_X509_PUBKEY\<close> gives for it and \<open>sha256\<close> the digest
  (each \<open>None\<close> when the call fails).
\<close>

definition compute_spki_pin ::
    "('x509 \<Rightarrow> 'pk option) \<Rightarrow> ('pk \<Rightarrow> bytes option) \<Rightarrow> (bytes \<Rightarrow> bytes option) \<Rightarrow> 'x509 option \<Rightarrow> string result" where
  [eval_simps]: "compute_spki_pin pubkey der sha256 cert =
     (case cert of
        None \<Rightarrow> Inl (RuntimeError ''tls: compute_spki_pin: null cert'')
      | Some x \<Rightarrow>
          (case pubkey x of
             None \<Rightarrow> Inl (RuntimeError ''tls: X509_get_X509_PUBKEY failed'')
           | Some k \<Rightarrow>
               (case der k of
                  None \<Rightarrow> Inl (RuntimeError ''tls: i2d_X509_PUBKEY failed'')
                | Some d \<Rightarrow>
                    (case sha256 d of
                       None \<Rightarrow> Inl (RuntimeError ''tls: EVP_Digest(sha256) failed'')
                     | Some h \<Rightarrow> Inr (''sha256/'' @ base64_encode h)))))"

text \<open>
  \<open>verify_callback\<close>: the arguments are what the \<^verbatim>\<open>X509_STORE_CTX\<close> and the ex-data slots hold. The boolean
  result is the return value 1 or 0.
\<close>

definition verify_callback ::
    "('x509 \<Rightarrow> 'pk option) \<Rightarrow> ('pk \<Rightarrow> bytes option) \<Rightarrow> (bytes \<Rightarrow> bytes option) \<Rightarrow> bool \<Rightarrow> int \<Rightarrow> 'x509 option \<Rightarrow> bool
      \<Rightarrow> int \<Rightarrow> context_config option \<Rightarrow> bool" where
  [eval_simps]: "verify_callback pubkey der sha256 preverify_ok depth cert has_ssl idx cfg =
     (if \<not> preverify_ok then False
      else if depth \<noteq> 0 then True
      else if cert = None then False
      else if \<not> has_ssl then False
      else if idx < 0 then True
      else case cfg of
        None \<Rightarrow> True
      | Some c \<Rightarrow>
          if spki_pins c = [] then True
          else (case compute_spki_pin pubkey der sha256 cert of
                  Inl _ \<Rightarrow> False
                | Inr actual \<Rightarrow> List.member (spki_pins c) actual))"

text \<open>
  The \<^verbatim>\<open>Context\<close> constructor as the list of calls it makes on the \<^verbatim>\<open>SSL_CTX\<close>; \<open>discovered\<close> is the file
  \<^verbatim>\<open>discover_windows_ca_file\<close> finds on Windows and is empty elsewhere, \<open>ok\<close> tells which calls succeed.
\<close>

datatype ctx_call =
    GetExNewIndex
  | SetMinProtoTls12
  | LoadVerifyLocations string
  | SetDefaultVerifyPaths
  | SetVerifyPeerWithCallback
  | SetExDataConfig
  | SetAlpnProtos bytes

text \<open>
  \<^verbatim>\<open>init\<close>: the slot of the verify callback's configuration is registered by the first context; \<^verbatim>\<open>call_once\<close>
  skips the body from the first success on, so later contexts see the same outcome.
\<close>

definition tls_init :: "(ctx_call \<Rightarrow> bool) \<Rightarrow> unit result" where
  [eval_simps]: "tls_init ok = (if ok GetExNewIndex then Inr () else Inl (RuntimeError ''tls: SSL_CTX_get_ex_new_index failed''))"

definition load_trust_anchors :: "(ctx_call \<Rightarrow> bool) \<Rightarrow> string \<Rightarrow> string \<Rightarrow> ctx_call list result" where
  [eval_simps]: "load_trust_anchors ok discovered ca_file =
     (let effective = (if ca_file = [] then discovered else ca_file) in
      if effective \<noteq> [] then
        if \<not> ok (LoadVerifyLocations effective)
        then Inl (RuntimeError (''tls: SSL_CTX_load_verify_locations('' @ effective @ '') failed''))
        else Inr [LoadVerifyLocations effective, SetDefaultVerifyPaths]
      else Inr [SetDefaultVerifyPaths])"

definition kAlpnHttp1 :: bytes where
  [eval_simps]: "kAlpnHttp1 = 8 # map char_byte ''http/1.1''"

definition make_context :: "(ctx_call \<Rightarrow> bool) \<Rightarrow> string \<Rightarrow> context_config \<Rightarrow> ctx_call list result" where
  [eval_simps]: "make_context ok discovered c =
     bind_result (tls_init ok) (\<lambda>_.
     bind_result (load_trust_anchors ok discovered (ctx_ca_file c)) (\<lambda>anchors.
     let calls = SetMinProtoTls12 # anchors @ [SetVerifyPeerWithCallback, SetExDataConfig] in
     if ctx_alpn c = Http1Only then
       if \<not> ok (SetAlpnProtos kAlpnHttp1) then Inl (RuntimeError ''tls: SSL_CTX_set_alpn_protos(http/1.1) failed'')
       else Inr (calls @ [SetAlpnProtos kAlpnHttp1])
     else Inr calls))"

datatype ssl_call =
    SetTlsextHostName string
  | Set1Host string
  | Set1EchConfigList bytes
  | EchSet1OuterServerName string
  | SetOptionsEchGrease

text \<open>A run of calls, each tried only when the one before it succeeded.\<close>

fun ssl_calls :: "(ssl_call \<Rightarrow> bool) \<Rightarrow> ssl_call list \<Rightarrow> bool \<times> ssl_call list" where
  "ssl_calls ok [] = (True, [])"
| "ssl_calls ok (c # cs) = (if ok c then let (r, tr) = ssl_calls ok cs in (r, c # tr) else (False, [c]))"

definition configure_ssl_for_connection ::
    "bool \<Rightarrow> (ssl_call \<Rightarrow> bool) \<Rightarrow> bool \<Rightarrow> context_config \<Rightarrow> string \<Rightarrow> bool \<times> ssl_call list" where
  [eval_simps]: "configure_ssl_for_connection have_ech ok has_ssl c real_sni =
     (if \<not> has_ssl \<or> real_sni = [] then (False, [])
      else let ech = ech_load (ctx_ech c) in
        if have_ech \<and> ech_config_enabled ech then
          ssl_calls ok ([SetTlsextHostName real_sni, Set1Host real_sni, Set1EchConfigList (the (ech_bytes ech))]
            @ (if outer_servername ech \<noteq> [] then [EchSet1OuterServerName (outer_servername ech)] else []))
        else
          let (r, tr) = ssl_calls ok [SetTlsextHostName real_sni, Set1Host real_sni] in
          (r, tr @ (if r \<and> have_ech \<and> ctx_ech_grease c then [SetOptionsEchGrease] else [])))"

datatype ssl_ech_code =
    RcSuccess | RcGrease | RcGreaseEch | RcFailedEch | RcFailedEchBadName | RcNotTried | RcNotConfigured | RcOther

definition ech_status_of :: "bool \<Rightarrow> ssl_ech_code option \<Rightarrow> ech_status" where
  [eval_simps]: "ech_status_of have_ech ssl =
     (if \<not> have_ech then NotTried
      else case ssl of
        None \<Rightarrow> NotTried
      | Some rc \<Rightarrow>
          (case rc of
             RcSuccess \<Rightarrow> Success
           | RcGrease \<Rightarrow> Greased
           | RcGreaseEch \<Rightarrow> Greased
           | RcFailedEch \<Rightarrow> FailedRetry
           | RcFailedEchBadName \<Rightarrow> Failed
           | RcNotTried \<Rightarrow> NotTried
           | RcNotConfigured \<Rightarrow> NotTried
           | RcOther \<Rightarrow> Failed))"

text \<open>\<open>retry\<close> is the outcome of \<^verbatim>\<open>SSL_ech_get1_retry_config\<close>: the return code and the bytes, if any.\<close>

definition ech_retry_config :: "bool \<Rightarrow> bool \<Rightarrow> int \<times> bytes option \<Rightarrow> bytes option" where
  [eval_simps]: "ech_retry_config have_ech has_ssl retry =
     (if \<not> have_ech \<or> \<not> has_ssl then None
      else case retry of (rc, p) \<Rightarrow>
        (case p of None \<Rightarrow> None | Some b \<Rightarrow> if rc \<noteq> 1 \<or> b = [] then None else Some b))"

definition maybe_apply_ech_retry ::
    "bool \<Rightarrow> ssl_ech_code option \<Rightarrow> int \<times> bytes option \<Rightarrow> int \<Rightarrow> ech_snapshot \<Rightarrow> bool \<times> ech_snapshot" where
  [eval_simps]: "maybe_apply_ech_retry have_ech ssl retry now state =
     (if ech_status_of have_ech ssl \<noteq> FailedRetry then (False, state)
      else case ech_retry_config have_ech (ssl \<noteq> None) retry of
        None \<Rightarrow> (False, state)
      | Some b \<Rightarrow> (True, ech_update (\<lambda>s. s\<lparr>ech_bytes := Some b, fetched_at := now\<rparr>) state))"

text \<open>
  \<open>probe\<close> is what OpenSSL does with the list: the context or the connection cannot be made, the list is
  taken, or it is rejected with a first diagnostic.
\<close>

datatype ech_probe = ProbeNoContext | ProbeNoSsl | ProbeAccepted | ProbeRejected string

definition validate_ech_config_list :: "bool \<Rightarrow> (bytes \<Rightarrow> ech_probe) \<Rightarrow> bytes \<Rightarrow> string option" where
  [eval_simps]: "validate_ech_config_list have_ech probe b =
     (if \<not> have_ech then None
      else if b = [] then Some ''ECHConfigList is empty''
      else case probe b of
        ProbeNoContext \<Rightarrow> Some ''validate: SSL_CTX_new failed''
      | ProbeNoSsl \<Rightarrow> Some ''validate: SSL_new failed''
      | ProbeAccepted \<Rightarrow> None
      | ProbeRejected err \<Rightarrow> Some (''ECHConfigList rejected by OpenSSL: '' @ err))"

section \<open>The codec\<close>

lemma alphabet_table:
  "list_all (\<lambda>(i, c). kLookup c = int i \<and> c \<noteq> CHR ''='' \<and> \<not> b64_space c) (enumerate 0 kBase64Alphabet)"
  by (simp add: kBase64Alphabet_def kLookup_def b64_space_def Let_def)

lemma alphabet_lookup:
  assumes "i < 64"
  shows "kLookup (kBase64Alphabet ! i) = int i" "kBase64Alphabet ! i \<noteq> CHR ''=''" "\<not> b64_space (kBase64Alphabet ! i)"
proof -
  have "i < length kBase64Alphabet" using assms by (simp add: kBase64Alphabet_def)
  then have "(i, kBase64Alphabet ! i) \<in> set (enumerate 0 kBase64Alphabet)" by (simp add: in_set_enumerate_eq)
  then show "kLookup (kBase64Alphabet ! i) = int i" "kBase64Alphabet ! i \<noteq> CHR ''=''" "\<not> b64_space (kBase64Alphabet ! i)"
    using alphabet_table by (auto simp: list_all_iff)
qed

lemma six_bits: "unat (w AND 0x3F :: u32) < 64"
proof -
  have "w AND 0x3F \<le> (0x3F :: u32)" by (rule word_and_le1)
  then show ?thesis by (simp add: word_le_nat_alt)
qed

lemma b64_char_facts [simp]:
  "kLookup (b64_char n t) = uint (drop_bit n t AND 0x3F)" "b64_char n t \<noteq> CHR ''=''" "\<not> b64_space (b64_char n t)"
proof -
  note a = alphabet_lookup [OF six_bits, of "drop_bit n t"]
  show "kLookup (b64_char n t) = uint (drop_bit n t AND 0x3F)" "b64_char n t \<noteq> CHR ''=''" "\<not> b64_space (b64_char n t)"
    using a by (simp_all add: b64_char_def)
qed

lemma uint_not_invalid [simp]: "uint (w :: u32) \<noteq> kInvalid"
  using uint_ge_0 [of w] unfolding kInvalid_def by linarith

text \<open>Four six-bit groups put together again, and the octets taken from them.\<close>

lemma masks: "(0x3F :: u32) = mask 6" "(0xff :: u32) = mask 8"
  by (simp_all add: mask_eq_exp_minus_1)

lemma bit_byte_beyond [simp]: "8 \<le> n \<Longrightarrow> \<not> bit (b :: byte) n"
  by (auto dest: bit_imp_le_length)

lemma byte_eqI:
  assumes "bit a 0 = bit b 0" "bit a 1 = bit b 1" "bit a 2 = bit b 2" "bit a 3 = bit b 3"
    "bit a 4 = bit b 4" "bit a 5 = bit b 5" "bit a 6 = bit b 6" "bit a 7 = bit b 7"
  shows "a = (b :: byte)"
proof (rule bit_word_eqI)
  fix n assume "n < LENGTH(8)"
  then consider "n = 0" | "n = 1" | "n = 2" | "n = 3" | "n = 4" | "n = 5" | "n = 6" | "n = 7" by force
  then show "bit a n = bit b n" by cases (use assms in simp_all)
qed

lemma triple_octets:
  fixes b0 b1 b2 :: byte
  defines "t \<equiv> b64_triple b0 b1 b2"
  defines "r \<equiv> push_bit 18 (drop_bit 18 t AND 0x3F) OR push_bit 12 (drop_bit 12 t AND 0x3F)
     OR push_bit 6 (drop_bit 6 t AND 0x3F) OR (drop_bit 0 t AND 0x3F)"
  shows "ucast (drop_bit 16 r AND 0xff) = b0" "ucast (drop_bit 8 r AND 0xff) = b1" "ucast (r AND 0xff) = b2"
  unfolding r_def t_def b64_triple_def masks
  by (rule byte_eqI; simp add: bit_simps)+

lemma triple_zero:
  "drop_bit 6 (b64_triple b0 0 0) AND 0x3F = 0" "drop_bit 0 (b64_triple b0 0 0) AND 0x3F = 0"
  "drop_bit 0 (b64_triple b0 b1 0) AND 0x3F = 0"
  unfolding b64_triple_def masks by (rule bit_word_eqI; auto simp: bit_simps)+

text \<open>The padding count of an encoded text, and that decoding with it gives the octets back.\<close>

definition pad_of :: "string \<Rightarrow> nat" where
  "pad_of s = (if last s = CHR ''='' then (if last (butlast s) = CHR ''='' then 2 else 1) else 0)"

lemma encode_not_Nil [simp]: "base64_encode bs = [] \<longleftrightarrow> bs = []"
  by (cases bs rule: base64_encode.cases) (auto simp: Let_def)

lemma length_encode: "length (base64_encode bs) mod 4 = 0"
proof (induction bs rule: base64_encode.induct)
  case (4 b0 b1 b2 rest)
  have "length (base64_encode (b0 # b1 # b2 # rest)) = 4 + length (base64_encode rest)" by (simp add: Let_def)
  with 4 show ?case by presburger
qed (simp_all add: Let_def)

lemma length_encode_ge: "bs \<noteq> [] \<Longrightarrow> 4 \<le> length (base64_encode bs)"
  by (cases bs rule: base64_encode.cases) (simp_all add: Let_def)

lemma equals_no_space [simp]: "\<not> b64_space CHR ''=''"
  by (simp add: b64_space_def)

lemma encode_no_space: "filter (\<lambda>c. \<not> b64_space c) (base64_encode bs) = base64_encode bs"
  by (induction bs rule: base64_encode.induct) (simp_all add: Let_def)

lemma last_two_append:
  assumes "2 \<le> length ys"
  shows "last (xs @ ys) = last ys" "last (butlast (xs @ ys)) = last (butlast ys)"
proof -
  have "ys \<noteq> []" "butlast ys \<noteq> []" using assms by (auto simp: butlast_conv_take)
  then show "last (xs @ ys) = last ys" "last (butlast (xs @ ys)) = last (butlast ys)"
    by (simp_all add: butlast_append)
qed

lemma pad_of_encode: "bs \<noteq> [] \<Longrightarrow> pad_of (base64_encode bs) = (3 - length bs mod 3) mod 3"
proof (induction bs rule: base64_encode.induct)
  case (4 b0 b1 b2 rest)
  show ?case
  proof (cases "rest = []")
    case True
    then show ?thesis by (simp add: pad_of_def Let_def)
  next
    case False
    have two: "2 \<le> length (base64_encode rest)" using length_encode_ge [OF False] by simp
    have "base64_encode (b0 # b1 # b2 # rest) = base64_encode [b0, b1, b2] @ base64_encode rest" by (simp add: Let_def)
    then have "pad_of (base64_encode (b0 # b1 # b2 # rest)) = pad_of (base64_encode rest)"
      by (simp only: pad_of_def last_two_append [OF two])
    with 4 False show ?thesis by simp
  qed
qed (auto simp: pad_of_def Let_def)

lemma decode_encode_groups: "bs \<noteq> [] \<Longrightarrow> pad = (3 - length bs mod 3) mod 3 \<Longrightarrow> decode_groups pad (base64_encode bs) = Some bs"
proof (induction bs rule: base64_encode.induct)
  case (2 b0)
  then show ?case using triple_octets(1) [of b0 0 0] by (simp add: Let_def triple_zero)
next
  case (3 b0 b1)
  then show ?case using triple_octets(1,2) [of b0 b1 0] by (simp add: Let_def triple_zero)
next
  case (4 b0 b1 b2 rest)
  show ?case
  proof (cases "rest = []")
    case True
    with 4 show ?thesis using triple_octets [of b0 b1 b2] by (simp add: Let_def)
  next
    case False
    with 4 show ?thesis using triple_octets [of b0 b1 b2] by (simp add: Let_def)
  qed
qed simp

section \<open>Properties\<close>

text \<open>Base64 round trip: decoding the encoding of any octet string gives it back.\<close>

theorem base64_roundtrip: "base64_decode (base64_encode bs) = Some bs"
proof (cases "bs = []")
  case True
  then show ?thesis by (simp add: base64_decode_def)
next
  case False
  let ?s = "base64_encode bs"
  have ne: "?s \<noteq> []" and l: "4 \<le> length ?s" using False length_encode_ge by auto
  have "?s ! (length ?s - 1) = last ?s" using ne by (simp add: last_conv_nth)
  moreover have "?s ! (length ?s - 2) = last (butlast ?s)"
    using l by (subst last_conv_nth) (auto simp: butlast_conv_take nth_butlast numeral_2_eq_2)
  ultimately have "base64_decode ?s = decode_groups (pad_of ?s) ?s"
    using l by (simp add: base64_decode_def encode_no_space length_encode pad_of_def False Let_def)
  then show ?thesis using decode_encode_groups [OF False] pad_of_encode [OF False] by simp
qed

text \<open>Two inputs on which the decoder differs from its documentation: a text without its padding
  is rejected, although the header promises to take it, and padding in the middle of a text is
  accepted and read as zero bits, although the header promises to reject invalid characters.\<close>

theorem base64_decode_padding:
  "base64_decode ''QQ'' = None \<and> base64_decode ''QQ==QQ=='' = Some [0x41, 0, 0, 0x41]"
  by (simp add: base64_decode_def eval_simps)

text \<open>Pinning is never bypassed and never replaces chain validation: when the callback accepts a
  certificate, OpenSSL's own check had accepted it; and when it accepts the leaf under a configuration
  with pins, the SHA-256 pin of the presented certificate could be computed and is one of them.\<close>

theorem verify_callback_pinned:
  assumes "verify_callback pubkey der sha256 preverify_ok depth cert has_ssl idx (Some c)"
  shows "preverify_ok \<and> (depth = 0 \<and> 0 \<le> idx \<and> spki_pins c \<noteq> [] \<longrightarrow>
     (\<exists>x k d h. cert = Some x \<and> pubkey x = Some k \<and> der k = Some d \<and> sha256 d = Some h \<and> ''sha256/'' @ base64_encode h \<in> set (spki_pins c)))"
  using assms by (auto simp: verify_callback_def compute_spki_pin_def split: if_splits option.splits sum.splits)

definition sample_context :: context_config where
  [eval_simps]: "sample_context = \<lparr>spki_pins = [''sha256/QQ==''], ctx_servername = ''d.example'',
     ctx_ech = \<lparr>ech_bytes = Some [1, 2], outer_servername = ''cover.example'', fetched_at = 0\<rparr>,
     ctx_ech_grease = True, ctx_alpn = Http1Only, ctx_ca_file = []\<rparr>"

theorem verify_callback_pinned_witness:
  "\<exists>h. (\<lambda>d :: bytes. Some [0x41 :: byte]) [7] = Some h \<and> ''sha256/'' @ base64_encode h \<in> set (spki_pins sample_context)"
proof -
  have "verify_callback (\<lambda>x :: unit. Some ()) (\<lambda>_. Some [7]) (\<lambda>d. Some [0x41]) True 0 (Some ()) True 3 (Some sample_context)"
    by (simp add: verify_callback_def compute_spki_pin_def sample_context_def eval_simps)
  from verify_callback_pinned [OF this] show ?thesis by (simp add: sample_context_def)
qed

text \<open>C30: A connection that is set up successfully verifies the right host and hides it when it can: the
  server name and the host to match the certificate against were both set to the given name and
  accepted; with ECH in the build and a non-empty configuration list loaded, that list was set after
  them, the outer name (if any) after the list, and no GREASE was sent; without a list GREASE is sent
  exactly when the build and the configuration ask for it.\<close>

theorem configure_ssl_sound:
  assumes "configure_ssl_for_connection have_ech ok has_ssl c real_sni = (True, tr)"
  shows "real_sni \<noteq> [] \<and> ok (SetTlsextHostName real_sni) \<and> ok (Set1Host real_sni) \<and>
    tr = [SetTlsextHostName real_sni, Set1Host real_sni] @
      (if have_ech \<and> ech_config_enabled (ctx_ech c)
       then Set1EchConfigList (the (ech_bytes (ctx_ech c))) #
         (if outer_servername (ctx_ech c) \<noteq> [] then [EchSet1OuterServerName (outer_servername (ctx_ech c))] else [])
       else if have_ech \<and> ctx_ech_grease c then [SetOptionsEchGrease] else [])"
  using assms by (auto simp: configure_ssl_for_connection_def ech_load_def Let_def split: if_splits prod.splits)

theorem configure_ssl_sound_witness:
  "snd (configure_ssl_for_connection True (\<lambda>_. True) True sample_context ''d.example'') =
     [SetTlsextHostName ''d.example'', Set1Host ''d.example'', Set1EchConfigList [1, 2], EchSet1OuterServerName ''cover.example'']"
proof -
  obtain tr where "configure_ssl_for_connection True (\<lambda>_. True) True sample_context ''d.example'' = (True, tr)"
    by (simp add: configure_ssl_for_connection_def eval_simps)
  from configure_ssl_sound [OF this] this show ?thesis by (simp add: sample_context_def ech_config_enabled_def)
qed

text \<open>Retry configurations are honoured exactly when they may be: the live parameters change only if
  the handshake failed with authenticated retry configurations and OpenSSL handed out a non-empty
  list; then the list is replaced, the fetch time is now, and the outer server name is kept. In every
  other case nothing changes and no retry is asked for.\<close>

theorem ech_retry_sound:
  "maybe_apply_ech_retry have_ech ssl (rc, p) now state =
     (if have_ech \<and> ssl = Some RcFailedEch \<and> rc = 1 \<and> p \<noteq> None \<and> p \<noteq> Some []
      then (True, \<lparr>ech_bytes = p, outer_servername = outer_servername state, fetched_at = now\<rparr>)
      else (False, state))"
  by (auto simp: maybe_apply_ech_retry_def ech_status_of_def ech_retry_config_def ech_update_def
      split: if_splits option.splits ssl_ech_code.splits)

lemma make_context_verifies:
  "make_context ok discovered c = Inr calls \<Longrightarrow>
     SetVerifyPeerWithCallback \<in> set calls \<and> SetMinProtoTls12 \<in> set calls \<and> SetExDataConfig \<in> set calls"
  by (auto simp: make_context_def Let_def split: if_splits)

end
