(* ===== verification/Resolver.thy ===== *)
theory Resolver
  imports Padding Tls
begin

text \<open>
  \<^verbatim>\<open>resolver.cpp\<close>: forwarding a query to the configured upstreams. An \<^verbatim>\<open>Adapter\<close> is a record of its virtual
  functions over a state \<open>'w\<close> of the outside world: one exchange, which may throw, yields a reply or
  none and leaves a new world, and a TLS adapter gives access to the live ECH parameters its context
  keeps (reading and replacing them). The random transaction id is drawn by \<open>draw_id\<close>.
\<close>

section \<open>Definitions\<close>

record upstream_reply =
  reply_bytes :: bytes
  reply_ech_status :: ech_status

record forward_result =
  fwd_response :: bytes
  fwd_upstream :: string
  fwd_ech_status :: ech_status

record 'w adapter =
  ad_label :: string
  ad_try_once :: "bytes \<Rightarrow> int \<Rightarrow> 'w \<Rightarrow> upstream_reply option result \<times> 'w"
  ad_tls_context :: "(('w \<Rightarrow> ech_snapshot) \<times> (ech_snapshot \<Rightarrow> 'w \<Rightarrow> 'w)) option"

definition reply_matches_request :: "bytes \<Rightarrow> bytes \<Rightarrow> bool" where
  [eval_simps]: "reply_matches_request client_query reply =
     (case parse client_query of
        Inl _ \<Rightarrow> False
      | Inr req \<Rightarrow>
          (case parse reply of
             Inl _ \<Rightarrow> False
           | Inr rep \<Rightarrow>
               if length (questions req) \<noteq> length (questions rep) then False
               else list_all (\<lambda>(q, r). \<not> (q_name q \<noteq> q_name r \<or> q_type q \<noteq> q_type r \<or> q_class q \<noteq> q_class r))
                      (zip (questions req) (questions rep))))"

record adapter_counters =
  queries_answered :: nat
  timeouts :: nat

record resolver_config =
  rs_timeout :: int
  retries_on_primary :: int
  padding_block_size :: nat

record 'w resolver =
  rs_cfg :: resolver_config
  rs_adapters :: "'w adapter list"
  rs_counters :: "adapter_counters list"

definition make_resolver :: "resolver_config \<Rightarrow> 'w adapter list \<Rightarrow> 'w resolver result" where
  [eval_simps]: "make_resolver c ads =
     (if ads = [] then Inl (InvalidArgument ''Resolver: at least one Adapter required'')
      else Inr \<lparr>rs_cfg = c, rs_adapters = ads, rs_counters = replicate (length ads) \<lparr>queries_answered = 0, timeouts = 0\<rparr>\<rparr>)"

text \<open>The local variables of \<^verbatim>\<open>forward\<close> that the two loops read.\<close>

record job =
  client_query :: bytes
  client_id :: u16
  our_id :: u16
  outbound :: bytes
  job_timeout :: int

text \<open>The inner loop, and the loop over the adapters; \<open>Inr None\<close> is falling out of a loop.\<close>

fun try_attempts :: "job \<Rightarrow> 'w adapter \<Rightarrow> nat \<Rightarrow> adapter_counters \<Rightarrow> 'w \<Rightarrow> forward_result option result \<times> adapter_counters \<times> 'w" where
  "try_attempts j ad 0 ctr w = (Inr None, ctr, w)"
| "try_attempts j ad (Suc n) ctr w =
     (case ad_try_once ad (outbound j) (job_timeout j) w of
        (Inl e, w') \<Rightarrow> (Inl e, ctr, w')
      | (Inr None, w') \<Rightarrow> try_attempts j ad n (ctr\<lparr>timeouts := timeouts ctr + 1\<rparr>) w'
      | (Inr (Some reply), w') \<Rightarrow>
          if length (reply_bytes reply) < 12 then try_attempts j ad n ctr w'
          else if read_u16_be (reply_bytes reply) 0 \<noteq> our_id j then try_attempts j ad n ctr w'
          else if \<not> reply_matches_request (client_query j) (reply_bytes reply) then try_attempts j ad n ctr w'
          else (Inr (Some \<lparr>fwd_response = write_u16_be (reply_bytes reply) 0 (client_id j),
                           fwd_upstream = ad_label ad, fwd_ech_status = reply_ech_status reply\<rparr>),
                ctr\<lparr>queries_answered := queries_answered ctr + 1\<rparr>, w'))"

fun try_adapters :: "job \<Rightarrow> nat \<Rightarrow> 'w adapter list \<Rightarrow> adapter_counters list \<Rightarrow> 'w \<Rightarrow>
    forward_result option result \<times> adapter_counters list \<times> 'w" where
  "try_adapters j attempts (ad # ads) (ctr # ctrs) w =
     (case try_attempts j ad attempts ctr w of
        (Inr None, ctr', w') \<Rightarrow>
          (case try_adapters j 1 ads ctrs w' of (r, ctrs', w'') \<Rightarrow> (r, ctr' # ctrs', w''))
      | (r, ctr', w') \<Rightarrow> (r, ctr' # ctrs, w'))"
| "try_adapters j attempts _ ctrs w = (Inr None, ctrs, w)"

definition outbound_for :: "resolver_config \<Rightarrow> bytes \<Rightarrow> u16 \<Rightarrow> bytes" where
  [eval_simps]: "outbound_for c query i =
     write_u16_be (if padding_block_size c = 0 then query else pad_query query (padding_block_size c)) 0 i"

definition forward :: "('w \<Rightarrow> u16 \<times> 'w) \<Rightarrow> bytes \<Rightarrow> 'w resolver \<Rightarrow> 'w \<Rightarrow> forward_result result \<times> 'w resolver \<times> 'w" where
  [eval_simps]: "forward draw_id query rs w =
     (if length query < 12 then (Inl (RuntimeError ''resolver: query too short''), rs, w)
      else
        let (i, w1) = draw_id w;
            j = \<lparr>client_query = query, client_id = read_u16_be query 0, our_id = i,
                 outbound = outbound_for (rs_cfg rs) query i, job_timeout = rs_timeout (rs_cfg rs)\<rparr>;
            (r, ctrs, w2) = try_adapters j (nat (1 + retries_on_primary (rs_cfg rs))) (rs_adapters rs) (rs_counters rs) w1;
            rs' = rs\<lparr>rs_counters := ctrs\<rparr>
        in case r of
             Inl e \<Rightarrow> (Inl e, rs', w2)
           | Inr (Some f) \<Rightarrow> (Inr f, rs', w2)
           | Inr None \<Rightarrow> (Inl (RuntimeError ''resolver: all adapters exhausted''), rs', w2))"

definition resolver_forward :: "('w \<Rightarrow> u16 \<times> 'w) \<Rightarrow> bytes \<Rightarrow> 'w resolver \<Rightarrow> 'w \<Rightarrow> bytes result \<times> 'w resolver \<times> 'w" where
  [eval_simps]: "resolver_forward draw_id query rs w =
     (case forward draw_id query rs w of (r, rs', w') \<Rightarrow> (bind_result r (\<lambda>f. Inr (fwd_response f)), rs', w'))"

definition swap_ech :: "'w resolver \<Rightarrow> bytes \<Rightarrow> string \<Rightarrow> int \<Rightarrow> 'w \<Rightarrow> 'w" where
  [eval_simps]: "swap_ech rs ech_list outer at w =
     (let bytes_ptr = (if ech_list = [] then None else Some ech_list) in
      foldl (\<lambda>w ad. case ad_tls_context ad of
          None \<Rightarrow> w
        | Some (_, store) \<Rightarrow> store \<lparr>ech_bytes = bytes_ptr, outer_servername = outer, fetched_at = at\<rparr> w) w (rs_adapters rs))"

record adapter_stats =
  stat_label :: string
  stat_answered :: nat
  stat_timeouts :: nat
  stat_ech_fetched_at :: "int option"

definition resolver_stats :: "'w resolver \<Rightarrow> 'w \<Rightarrow> adapter_stats list" where
  [eval_simps]: "resolver_stats rs w =
     map (\<lambda>(ad, ctr). \<lparr>stat_label = ad_label ad, stat_answered = queries_answered ctr, stat_timeouts = timeouts ctr,
          stat_ech_fetched_at = (case ad_tls_context ad of
             None \<Rightarrow> None
           | Some (load, _) \<Rightarrow> if fetched_at (load w) > 0 then Some (fetched_at (load w)) else None)\<rparr>)
       (zip (rs_adapters rs) (rs_counters rs))"

section \<open>Accepted replies\<close>

lemma reply_matches_request_iff:
  "reply_matches_request q r \<longleftrightarrow> (\<exists>mq mr. parse q = Inr mq \<and> parse r = Inr mr \<and> questions mr = questions mq)"
proof -
  have "list_all (\<lambda>(q, r). \<not> (q_name q \<noteq> q_name r \<or> q_type q \<noteq> q_type r \<or> q_class q \<noteq> q_class r)) (zip xs ys) \<longleftrightarrow> xs = ys"
    if "length xs = length ys" for xs ys :: "question list"
    using that by (induction xs ys rule: list_induct2) auto
  then show ?thesis by (auto simp: reply_matches_request_def split: sum.splits)
qed

text \<open>What the code requires of a reply before it uses it.\<close>

definition acceptable :: "job \<Rightarrow> bytes \<Rightarrow> bool" where
  "acceptable j b \<longleftrightarrow> 12 \<le> length b \<and> read_u16_be b 0 = our_id j \<and> reply_matches_request (client_query j) b"

definition accepted_result :: "job \<Rightarrow> 'w adapter \<Rightarrow> upstream_reply \<Rightarrow> forward_result" where
  "accepted_result j ad reply = \<lparr>fwd_response = write_u16_be (reply_bytes reply) 0 (client_id j),
     fwd_upstream = ad_label ad, fwd_ech_status = reply_ech_status reply\<rparr>"

lemma try_attempts_Suc:
  "try_attempts j ad (Suc n) ctr w =
     (case ad_try_once ad (outbound j) (job_timeout j) w of
        (Inl e, w') \<Rightarrow> (Inl e, ctr, w')
      | (Inr None, w') \<Rightarrow> try_attempts j ad n (ctr\<lparr>timeouts := timeouts ctr + 1\<rparr>) w'
      | (Inr (Some reply), w') \<Rightarrow>
          if acceptable j (reply_bytes reply)
          then (Inr (Some (accepted_result j ad reply)), ctr\<lparr>queries_answered := queries_answered ctr + 1\<rparr>, w')
          else try_attempts j ad n ctr w')"
  by (auto simp: acceptable_def accepted_result_def not_less split: prod.split sum.split option.split)

lemmas try_attempts_step = try_attempts_Suc try_attempts.simps(1)
declare try_attempts.simps(2) [simp del]

lemma try_attempts_accepts:
  assumes "try_attempts j ad n ctr w = (Inr (Some f), ctr', w')"
  shows "\<exists>w0 w1 reply. ad_try_once ad (outbound j) (job_timeout j) w0 = (Inr (Some reply), w1) \<and>
    acceptable j (reply_bytes reply) \<and> f = accepted_result j ad reply"
  using assms
proof (induction n arbitrary: ctr w)
  case (Suc n)
  then show ?case
    by (auto simp: try_attempts_Suc split: prod.splits sum.splits option.splits if_splits)
qed simp

lemma try_adapters_accepts:
  assumes "try_adapters j k ads ctrs w = (Inr (Some f), ctrs', w')"
  shows "\<exists>ad \<in> set ads. \<exists>w0 w1 reply. ad_try_once ad (outbound j) (job_timeout j) w0 = (Inr (Some reply), w1) \<and>
    acceptable j (reply_bytes reply) \<and> f = accepted_result j ad reply"
  using assms
proof (induction ads arbitrary: k ctrs ctrs' w)
  case (Cons ad ads)
  show ?case
  proof (cases ctrs)
    case Nil
    with Cons.prems show ?thesis by simp
  next
    case (Cons ctr cs)
    obtain r c1 w1 where t: "try_attempts j ad k ctr w = (r, c1, w1)" by (cases "try_attempts j ad k ctr w") auto
    consider e where "r = Inl e" | "r = Inr None" | f' where "r = Inr (Some f')" by (cases r) auto
    then show ?thesis
    proof cases
      case 2
      with Cons.prems Cons t obtain cs' where "try_adapters j 1 ads cs w1 = (Inr (Some f), cs', w')" by (auto split: prod.splits)
      from Cons.IH [OF this] show ?thesis by auto
    next
      case 3
      with Cons.prems Cons t have "try_attempts j ad k ctr w = (Inr (Some f), c1, w1)" by simp
      from try_attempts_accepts [OF this] show ?thesis by auto
    qed (use Cons.prems Cons t in simp)
  qed
qed simp

section \<open>The schedule of attempts\<close>

text \<open>
  An adapter that also writes down, in front of the world, whom it was asked to send what. The two
  loops treat it like the adapter it wraps, and the log shows every exchange they made.
\<close>

definition recording :: "'w adapter \<Rightarrow> ('w \<times> (string \<times> bytes) list) adapter" where
  "recording ad = \<lparr>ad_label = ad_label ad,
     ad_try_once = (\<lambda>out t (w, log). case ad_try_once ad out t w of (r, w') \<Rightarrow> (r, (w', log @ [(ad_label ad, out)]))),
     ad_tls_context = None\<rparr>"

lemma recording_label [simp]: "ad_label (recording ad) = ad_label ad"
  by (simp add: recording_def)

lemma accepted_result_recording [simp]: "accepted_result j (recording ad) reply = accepted_result j ad reply"
  by (simp add: accepted_result_def)

text \<open>
  One adapter: the recorded run gives the same outcome, and its log is the same packet at most \<open>n\<close>
  times, exactly \<open>n\<close> times when no attempt was accepted.
\<close>

lemma try_attempts_recorded:
  assumes "try_attempts j ad n ctr w = (r, ctr', w')"
  shows "\<exists>k \<le> n. try_attempts j (recording ad) n ctr (w, log) = (r, ctr', (w', log @ replicate k (ad_label ad, outbound j)))
    \<and> (r = Inr None \<longrightarrow> k = n)"
  using assms
proof (induction n arbitrary: ctr w log)
  case 0
  then show ?case by simp
next
  case (Suc n)
  obtain x w1 where t: "ad_try_once ad (outbound j) (job_timeout j) w = (x, w1)" by fastforce
  let ?log = "log @ [(ad_label ad, outbound j)]"
  have tr: "ad_try_once (recording ad) (outbound j) (job_timeout j) (w, log) = (x, (w1, ?log))"
    by (simp add: recording_def t)
  have more: "\<exists>k \<le> Suc n. try_attempts j (recording ad) n c (w1, ?log) = (r, ctr', (w', log @ replicate k (ad_label ad, outbound j)))
      \<and> (r = Inr None \<longrightarrow> k = Suc n)" if "try_attempts j ad n c w1 = (r, ctr', w')" for c
  proof -
    from Suc.IH [OF that, of ?log] obtain k where "k \<le> n" "r = Inr None \<longrightarrow> k = n"
      "try_attempts j (recording ad) n c (w1, ?log) = (r, ctr', (w', ?log @ replicate k (ad_label ad, outbound j)))" by blast
    then show ?thesis by (intro exI [of _ "Suc k"]) simp
  qed
  have once: "\<exists>k \<le> Suc n. ?log = log @ replicate k (ad_label ad, outbound j) \<and> (r = Inr None \<longrightarrow> k = Suc n)"
    if "r \<noteq> Inr None" using that by (intro exI [of _ "Suc 0"]) simp
  consider e where "x = Inl e" | "x = Inr None" | reply where "x = Inr (Some reply)" by (cases x) auto
  then show ?case
  proof cases
    case 1
    then have "r = Inl e \<and> ctr' = ctr \<and> w' = w1" using Suc.prems t by (simp add: try_attempts_Suc)
    then show ?thesis using once 1 tr by (auto simp: try_attempts_Suc)
  next
    case 2
    then have "try_attempts j ad n (ctr\<lparr>timeouts := timeouts ctr + 1\<rparr>) w1 = (r, ctr', w')"
      using Suc.prems t by (simp add: try_attempts_Suc)
    from more [OF this] 2 tr show ?thesis by (simp add: try_attempts_Suc)
  next
    case 3
    show ?thesis
    proof (cases "acceptable j (reply_bytes reply)")
      case True
      then have "r = Inr (Some (accepted_result j ad reply)) \<and> ctr' = ctr\<lparr>queries_answered := queries_answered ctr + 1\<rparr> \<and> w' = w1"
        using Suc.prems t 3 by (simp add: try_attempts_Suc)
      then show ?thesis using once 3 tr True by (auto simp: try_attempts_Suc)
    next
      case False
      then have "try_attempts j ad n ctr w1 = (r, ctr', w')" using Suc.prems t 3 by (simp add: try_attempts_Suc)
      from more [OF this] 3 tr False show ?thesis by (simp add: try_attempts_Suc)
    qed
  qed
qed

definition schedule :: "job \<Rightarrow> nat \<Rightarrow> 'w adapter list \<Rightarrow> (string \<times> bytes) list" where
  "schedule j k ads = (case ads of [] \<Rightarrow> []
     | ad # rest \<Rightarrow> replicate k (ad_label ad, outbound j) @ map (\<lambda>ad. (ad_label ad, outbound j)) rest)"

lemma schedule_Cons: "schedule j k (ad # ads) = replicate k (ad_label ad, outbound j) @ schedule j 1 ads"
  by (cases ads) (simp_all add: schedule_def)

lemma try_adapters_recorded:
  assumes "try_adapters j k ads ctrs w = (r, ctrs', w')" "length ctrs = length ads"
  shows "\<exists>made. try_adapters j k (map recording ads) ctrs (w, log) = (r, ctrs', (w', log @ made)) \<and>
    prefix made (schedule j k ads) \<and> (r = Inr None \<longrightarrow> made = schedule j k ads)"
  using assms
proof (induction ads arbitrary: k ctrs ctrs' w log r w')
  case Nil
  then show ?case by (simp add: schedule_def)
next
  case (Cons ad ads)
  obtain ctr cs where ctrs: "ctrs = ctr # cs" "length cs = length ads" using Cons.prems by (cases ctrs) auto
  obtain x c1 w1 where t: "try_attempts j ad k ctr w = (x, c1, w1)" by (metis prod.exhaust)
  obtain n where n: "n \<le> k" "x = Inr None \<longrightarrow> n = k"
    "try_attempts j (recording ad) k ctr (w, log) = (x, c1, (w1, log @ replicate n (ad_label ad, outbound j)))"
    using try_attempts_recorded [OF t, of log] by blast
  show ?case
  proof (cases "x = Inr None")
    case False
    then have "r = x \<and> ctrs' = c1 # cs \<and> w' = w1" using Cons.prems ctrs t by (auto split: sum.splits option.splits)
    moreover have "prefix (replicate n (ad_label ad, outbound j)) (schedule j k (ad # ads))"
      unfolding schedule_Cons using n(1) by (metis le_add_diff_inverse prefixI replicate_add append_assoc)
    ultimately show ?thesis using n(3) False ctrs
      by (intro exI [of _ "replicate n (ad_label ad, outbound j)"]) (auto split: sum.splits option.splits)
  next
    case True
    obtain r2 cs2 w2 where t2: "try_adapters j 1 ads cs w1 = (r2, cs2, w2)" by (metis prod.exhaust)
    have eq: "r = r2" "w' = w2" "ctrs' = c1 # cs2" using Cons.prems ctrs t True t2 by auto
    from Cons.IH [OF t2 ctrs(2), of "log @ replicate n (ad_label ad, outbound j)"] obtain d where
      d: "try_adapters j 1 (map recording ads) cs (w1, log @ replicate n (ad_label ad, outbound j)) =
          (r2, cs2, (w2, (log @ replicate n (ad_label ad, outbound j)) @ d))"
        "prefix d (schedule j 1 ads)" "r2 = Inr None \<longrightarrow> d = schedule j 1 ads" by blast
    show ?thesis unfolding schedule_Cons using d n True eq ctrs
      by (intro exI [of _ "replicate k (ad_label ad, outbound j) @ d"]) simp
  qed
qed

definition job_of :: "'w resolver \<Rightarrow> bytes \<Rightarrow> u16 \<Rightarrow> job" where
  "job_of rs query i = \<lparr>client_query = query, client_id = read_u16_be query 0, our_id = i,
     outbound = outbound_for (rs_cfg rs) query i, job_timeout = rs_timeout (rs_cfg rs)\<rparr>"

definition recording_resolver :: "'w resolver \<Rightarrow> ('w \<times> (string \<times> bytes) list) resolver" where
  "recording_resolver rs = \<lparr>rs_cfg = rs_cfg rs, rs_adapters = map recording (rs_adapters rs), rs_counters = rs_counters rs\<rparr>"

definition recording_draw :: "('w \<Rightarrow> u16 \<times> 'w) \<Rightarrow> 'w \<times> (string \<times> bytes) list \<Rightarrow> u16 \<times> 'w \<times> (string \<times> bytes) list" where
  "recording_draw draw_id wl = (case draw_id (fst wl) of (i, w') \<Rightarrow> (i, (w', snd wl)))"

lemma forward_unfold:
  assumes "12 \<le> length query" "draw_id w = (i, w1)"
    "try_adapters (job_of rs query i) (nat (1 + retries_on_primary (rs_cfg rs))) (rs_adapters rs) (rs_counters rs) w1 = (r, ctrs, w2)"
  shows "forward draw_id query rs w =
    ((case r of Inl e \<Rightarrow> Inl e | Inr (Some f) \<Rightarrow> Inr f
      | Inr None \<Rightarrow> Inl (RuntimeError ''resolver: all adapters exhausted'')), rs\<lparr>rs_counters := ctrs\<rparr>, w2)"
  using assms by (auto simp: forward_def job_of_def split: sum.splits option.splits)

text \<open>
  The contract the interface documents for an adapter: a transport, framing or TLS failure is the
  result \<^verbatim>\<open>nullopt\<close>, never an exception. \<open>fits\<close> says which packets the contract is given for.
\<close>

locale quiet_adapter =
  fixes ad :: "'w adapter" and fits :: "bytes \<Rightarrow> bool"
  assumes no_throw: "fits out \<Longrightarrow> \<exists>x w'. ad_try_once ad out t w = (Inr x, w')"
begin

lemma attempts_no_throw: "fits (outbound j) \<Longrightarrow> \<exists>x ctr' w'. try_attempts j ad n ctr w = (Inr x, ctr', w')"
proof (induction n arbitrary: ctr w)
  case (Suc n)
  then show ?case using no_throw [of "outbound j" "job_timeout j" w]
    by (auto simp: try_attempts_Suc split: option.split)
qed simp

end

lemma try_adapters_no_throw:
  assumes "\<forall>ad \<in> set ads. quiet_adapter ad fits" "fits (outbound j)"
  shows "\<exists>x ctrs' w'. try_adapters j k ads ctrs w = (Inr x, ctrs', w')"
  using assms(1)
proof (induction ads arbitrary: k ctrs w)
  case (Cons ad ads)
  show ?case
  proof (cases ctrs)
    case (Cons ctr cs)
    obtain x c1 w1 where t: "try_attempts j ad k ctr w = (Inr x, c1, w1)"
      using quiet_adapter.attempts_no_throw [of ad fits j k ctr w] assms(2) Cons.prems by auto
    obtain y cs2 w2 where t2: "try_adapters j 1 ads cs w1 = (Inr y, cs2, w2)" using Cons.IH [of 1 cs w1] Cons.prems by auto
    show ?thesis using Cons t t2 by (cases x) auto
  qed simp
qed simp

lemma forward_accepts:
  assumes "forward draw_id query rs w = (Inr f, rs', w')"
  shows "\<exists>ad \<in> set (rs_adapters rs). \<exists>w0 w1 reply. let j = job_of rs query (fst (draw_id w)) in
    ad_try_once ad (outbound j) (job_timeout j) w0 = (Inr (Some reply), w1) \<and> acceptable j (reply_bytes reply) \<and>
    f = accepted_result j ad reply \<and> 12 \<le> length query"
proof -
  obtain i w1 where d: "draw_id w = (i, w1)" by fastforce
  have len: "12 \<le> length query" using assms by (auto simp: forward_def split: if_splits)
  obtain r ctrs w2 where t: "try_adapters (job_of rs query i) (nat (1 + retries_on_primary (rs_cfg rs))) (rs_adapters rs) (rs_counters rs) w1 = (r, ctrs, w2)"
    by (metis prod.exhaust)
  have "r = Inr (Some f)" using forward_unfold [of query draw_id w, OF len d t] assms by (auto split: sum.splits option.splits)
  with t have "try_adapters (job_of rs query i) (nat (1 + retries_on_primary (rs_cfg rs))) (rs_adapters rs) (rs_counters rs) w1
      = (Inr (Some f), ctrs, w2)" by simp
  from try_adapters_accepts [OF this] d len show ?thesis by (auto simp: Let_def)
qed

section \<open>Properties\<close>

text \<open>C18: Only a reply to the question that was asked gets through. When \<^verbatim>\<open>forward\<close> returns, the answer is
  the reply some configured adapter gave to the very packet that was sent out, with the transaction id
  replaced by the client's; the reply carried the random id of the request, and its question section
  equals that of the client's query, name, type and class.\<close>

theorem forward_sound:
  assumes "forward draw_id query rs w = (Inr f, rs', w')"
  shows "\<exists>ad w0 w1 reply mq mr. ad \<in> set (rs_adapters rs) \<and>
    ad_try_once ad (outbound_for (rs_cfg rs) query (fst (draw_id w))) (rs_timeout (rs_cfg rs)) w0 = (Inr (Some reply), w1) \<and>
    fwd_upstream f = ad_label ad \<and> fwd_ech_status f = reply_ech_status reply \<and>
    12 \<le> length query \<and> 12 \<le> length (reply_bytes reply) \<and> read_u16_be (reply_bytes reply) 0 = fst (draw_id w) \<and>
    parse query = Inr mq \<and> parse (reply_bytes reply) = Inr mr \<and> questions mr = questions mq \<and>
    fwd_response f = write_u16_be (reply_bytes reply) 0 (read_u16_be query 0) \<and>
    read_u16_be (fwd_response f) 0 = read_u16_be query 0"
proof -
  from forward_accepts [OF assms] show ?thesis
    by (fastforce simp: job_of_def acceptable_def accepted_result_def reply_matches_request_iff read_write_u16_same Let_def)
qed

definition echo_adapter :: "unit adapter" where
  [eval_simps]: "echo_adapter = \<lparr>ad_label = ''1.1.1.1:53'',
     ad_try_once = (\<lambda>out t w. (Inr (Some \<lparr>reply_bytes = sample_response, reply_ech_status = NotTried\<rparr>), w)),
     ad_tls_context = None\<rparr>"

definition sample_resolver :: "unit resolver" where
  [eval_simps]: "sample_resolver = \<lparr>rs_cfg = \<lparr>rs_timeout = 2000, retries_on_primary = 1, padding_block_size = 0\<rparr>,
     rs_adapters = [echo_adapter], rs_counters = [\<lparr>queries_answered = 0, timeouts = 0\<rparr>]\<rparr>"

definition sample_draw :: "unit \<Rightarrow> u16 \<times> unit" where
  [eval_simps]: "sample_draw w = (0x1234, w)"

lemma sample_match: "reply_matches_request sample_query sample_response"
  unfolding reply_matches_request_iff parse_sample_query parse_sample_response by simp

lemma sample_forward:
  "forward sample_draw sample_query sample_resolver () =
     (Inr \<lparr>fwd_response = sample_response, fwd_upstream = ''1.1.1.1:53'', fwd_ech_status = NotTried\<rparr>,
      sample_resolver\<lparr>rs_counters := [\<lparr>queries_answered = 1, timeouts = 0\<rparr>]\<rparr>, ())"
proof -
  have ids: "read_u16_be sample_query 0 = 0x1234" "read_u16_be sample_response 0 = 0x1234"
    "write_u16_be sample_response 0 0x1234 = sample_response" "12 \<le> length sample_query" "12 \<le> length sample_response"
    by (simp_all add: eval_simps)
  show ?thesis
    by (subst forward_unfold [of sample_query sample_draw "()" "0x1234" "()" sample_resolver
          "Inr (Some \<lparr>fwd_response = sample_response, fwd_upstream = ''1.1.1.1:53'', fwd_ech_status = NotTried\<rparr>)"
          "[\<lparr>queries_answered = 1, timeouts = 0\<rparr>]" "()"])
       (simp_all add: ids sample_draw_def sample_resolver_def echo_adapter_def job_of_def numeral_2_eq_2 try_attempts_Suc
         acceptable_def accepted_result_def sample_match)
qed

theorem forward_sound_witness:
  "\<exists>(reply :: upstream_reply) mq mr. read_u16_be (reply_bytes reply) 0 = 0x1234 \<and>
     parse sample_query = Inr mq \<and> parse (reply_bytes reply) = Inr mr \<and> questions mr = questions mq"
  using forward_sound [OF sample_forward] by (auto simp: sample_draw_def)



text \<open>A negative retry count, which a large configured value turns into, silently disables upstreams:
  a resolver with a single adapter and \<^verbatim>\<open>retries_on_primary = -1\<close> fails every query without asking it.\<close>

theorem negative_retries_skip_primary:
  assumes "rs_adapters rs = [ad]" "rs_counters rs = [ctr]" "retries_on_primary (rs_cfg rs) < 0" "12 \<le> length query"
  shows "forward draw_id query rs w = (Inl (RuntimeError ''resolver: all adapters exhausted''), rs, snd (draw_id w))"
  using assms by (cases "draw_id w") (auto simp: forward_def)

theorem negative_retries_skip_primary_witness:
  "fst (forward sample_draw sample_query (sample_resolver\<lparr>rs_cfg := \<lparr>rs_timeout = 2000, retries_on_primary = - 1, padding_block_size = 0\<rparr>\<rparr>) ())
     = Inl (RuntimeError ''resolver: all adapters exhausted'')"
  by (subst negative_retries_skip_primary) (simp_all add: eval_simps)

end
