(* ===== verification/Uncloaker.thy ===== *)
theory Uncloaker
  imports Writer Etld Blocklist Resolver
begin

text \<open>
  \<^verbatim>\<open>uncloaker.cpp\<close>: following a CNAME chain through the upstream's answers, re-querying when an answer
  stops short, and checking every hop against the block rules. The loop of \<^verbatim>\<open>uncloak\<close> is a terminating
  function: every re-query is preceded by at least one new hop, and the depth limit bounds the chain.
\<close>

section \<open>Definitions\<close>

datatype uncloak_status = UnClean | UnBlocked | UnAborted

record uncloak_result =
  un_status :: uncloak_status
  un_chain :: "string list"
  un_hit :: match_result
  abort_reason :: string
  crossed_etldp1 :: bool
  crossed_to :: string

record walk_output =
  new_hops :: "string list"
  terminated :: bool

text \<open>One pass of the inner loop of \<^verbatim>\<open>walk_answers\<close> over the answer section for the name \<open>current\<close>.\<close>

datatype scan_step = ScanNone | ScanAddress | ScanHop string

fun scan_answers :: "bytes \<Rightarrow> resource_record list \<Rightarrow> string \<Rightarrow> scan_step result" where
  "scan_answers packet [] current = Inr ScanNone"
| "scan_answers packet (rr # rrs) current =
     (if rr_name rr \<noteq> current then scan_answers packet rrs current
      else if rr_type rr = dns_type_A \<or> rr_type rr = dns_type_AAAA then Inr ScanAddress
      else if rr_type rr \<noteq> dns_type_CNAME then scan_answers packet rrs current
      else bind_result (decode_name_at packet (rr_off rr)) (\<lambda>target. Inr (ScanHop target)))"

fun walk_loop :: "bytes \<Rightarrow> resource_record list \<Rightarrow> nat \<Rightarrow> string \<Rightarrow> string list \<Rightarrow> walk_output result" where
  "walk_loop packet rrs 0 current hops = Inr \<lparr>new_hops = hops, terminated = False\<rparr>"
| "walk_loop packet rrs (Suc iter) current hops =
     bind_result (scan_answers packet rrs current) (\<lambda>s.
       case s of
         ScanAddress \<Rightarrow> Inr \<lparr>new_hops = hops, terminated = True\<rparr>
       | ScanNone \<Rightarrow> Inr \<lparr>new_hops = hops, terminated = False\<rparr>
       | ScanHop target \<Rightarrow> walk_loop packet rrs iter target (hops @ [target]))"

definition walk_answers :: "dns_message \<Rightarrow> bytes \<Rightarrow> string \<Rightarrow> walk_output result" where
  [eval_simps]: "walk_answers msg packet start = walk_loop packet (answers msg) (length (answers msg) + 1) start []"

text \<open>The \<^verbatim>\<open>for (auto& hop : walk.new_hops)\<close> loop; \<open>Inl\<close> is its \<^verbatim>\<open>co_return\<close>.\<close>

definition note_crossing :: "string \<Rightarrow> string \<Rightarrow> uncloak_result \<Rightarrow> uncloak_result" where
  [eval_simps]: "note_crossing original_etldp1 hop res =
     (if \<not> crossed_etldp1 res \<and> original_etldp1 \<noteq> [] then
        let hop_etldp1 = etld_plus_one hop in
        if hop_etldp1 \<noteq> [] \<and> hop_etldp1 \<noteq> original_etldp1
        then res\<lparr>crossed_etldp1 := True, crossed_to := hop_etldp1\<rparr> else res
      else res)"

definition abort :: "string \<Rightarrow> uncloak_result \<Rightarrow> uncloak_result" where
  [eval_simps]: "abort reason res = res\<lparr>un_status := UnAborted, abort_reason := reason\<rparr>"

fun process_hops :: "blocklist \<Rightarrow> int \<Rightarrow> string \<Rightarrow> string list \<Rightarrow> uncloak_result \<Rightarrow> string set \<Rightarrow>
    uncloak_result + (uncloak_result \<times> string set)" where
  "process_hops bl max_depth original_etldp1 [] res seen = Inr (res, seen)"
| "process_hops bl max_depth original_etldp1 (hop # hops) res seen =
     (if hop \<in> seen then Inl (abort ''CNAME loop'' res)
      else if int (length (un_chain res)) \<ge> max_depth then Inl (abort ''depth limit reached'' res)
      else
        let res = res\<lparr>un_chain := un_chain res @ [hop]\<rparr>;
            res = note_crossing original_etldp1 hop res;
            m = blocklist_match bl hop in
        if blocked m then Inl (res\<lparr>un_status := UnBlocked, un_hit := m\<rparr>)
        else process_hops bl max_depth original_etldp1 hops res (insert hop seen))"

lemma process_hops_length:
  "process_hops bl d o1 hops res seen = Inr (res', seen') \<Longrightarrow> length (un_chain res') = length (un_chain res) + length hops"
  by (induction hops arbitrary: res seen) (auto simp: note_crossing_def Let_def split: if_splits)

function uncloak_loop :: "('w \<Rightarrow> u16 \<times> 'w) \<Rightarrow> blocklist \<Rightarrow> int \<Rightarrow> string \<Rightarrow> bytes \<Rightarrow> uncloak_result \<Rightarrow> string set \<Rightarrow>
    'w resolver \<Rightarrow> 'w \<Rightarrow> uncloak_result \<times> 'w resolver \<times> 'w" where
  "uncloak_loop draw_id bl max_depth original_etldp1 current res seen rs w =
     (case parse current of
        Inl _ \<Rightarrow> (abort ''parse error in upstream response'' res, rs, w)
      | Inr msg \<Rightarrow>
     (case walk_answers msg current (last (un_chain res)) of
        Inl _ \<Rightarrow> (abort ''malformed CNAME target'' res, rs, w)
      | Inr walk \<Rightarrow>
     (case process_hops bl max_depth original_etldp1 (new_hops walk) res seen of
        Inl res \<Rightarrow> (res, rs, w)
      | Inr (res, seen) \<Rightarrow>
          if terminated walk \<or> new_hops walk = [] then (res\<lparr>un_status := UnClean\<rparr>, rs, w)
          else if int (length (un_chain res)) \<ge> max_depth then (abort ''depth limit reached'' res, rs, w)
          else (case build_a_query (last (un_chain res)) 0 of
                  Inl _ \<Rightarrow> (abort ''cannot encode re-query name'' res, rs, w)
                | Inr req \<Rightarrow>
                    (case resolver_forward draw_id req rs w of
                       (Inl _, rs, w) \<Rightarrow> (abort ''re-query failed'' res, rs, w)
                     | (Inr owned_packet, rs, w) \<Rightarrow>
                         uncloak_loop draw_id bl max_depth original_etldp1 owned_packet res seen rs w)))))"
  by pat_completeness auto
termination
  by (relation "measure (\<lambda>(draw_id, bl, d, o1, cur, res, seen, rs, w). nat (d - int (length (un_chain res))))")
    (auto dest!: process_hops_length)

declare uncloak_loop.simps [simp del]

definition uncloak :: "('w \<Rightarrow> u16 \<times> 'w) \<Rightarrow> blocklist \<Rightarrow> int \<Rightarrow> string \<Rightarrow> bytes \<Rightarrow> 'w resolver \<Rightarrow> 'w \<Rightarrow>
    uncloak_result \<times> 'w resolver \<times> 'w" where
  [eval_simps]: "uncloak draw_id bl max_depth original_qname first_response rs w =
     uncloak_loop draw_id bl max_depth (etld_plus_one original_qname) first_response
       \<lparr>un_status = UnClean, un_chain = [original_qname], un_hit = no_match, abort_reason = [],
        crossed_etldp1 = False, crossed_to = []\<rparr> {original_qname} rs w"

section \<open>Walking one response\<close>

text \<open>\<open>cname_link packet rrs a b\<close>: the section has a CNAME record for \<open>a\<close> whose data names \<open>b\<close>.\<close>

definition cname_link :: "bytes \<Rightarrow> resource_record list \<Rightarrow> string \<Rightarrow> string \<Rightarrow> bool" where
  "cname_link packet rrs a b \<longleftrightarrow>
     (\<exists>rr \<in> set rrs. rr_name rr = a \<and> rr_type rr = dns_type_CNAME \<and> decode_name_at packet (rr_off rr) = Inr b)"

lemma scan_answers_spec:
  assumes "scan_answers packet rrs current = Inr s"
  shows "case s of
      ScanHop b \<Rightarrow> cname_link packet rrs current b
    | ScanAddress \<Rightarrow> \<exists>rr \<in> set rrs. rr_name rr = current \<and> (rr_type rr = dns_type_A \<or> rr_type rr = dns_type_AAAA)
    | ScanNone \<Rightarrow> \<forall>rr \<in> set rrs. rr_name rr = current \<longrightarrow> rr_type rr \<notin> {dns_type_A, dns_type_AAAA, dns_type_CNAME}"
  using assms
proof (induction rrs)
  case (Cons rr rrs)
  then show ?case by (cases s) (auto simp: cname_link_def split: if_splits)
qed simp

lemma walk_loop_spec:
  assumes "walk_loop packet rrs n current hops = Inr wo" "successively (cname_link packet rrs) (start # hops)"
    "current = last (start # hops)"
  shows "successively (cname_link packet rrs) (start # new_hops wo) \<and> length (new_hops wo) \<le> length hops + n \<and>
    (terminated wo \<longrightarrow> (\<exists>rr \<in> set rrs. rr_name rr = last (start # new_hops wo) \<and> (rr_type rr = dns_type_A \<or> rr_type rr = dns_type_AAAA))) \<and>
    (\<not> terminated wo \<and> length (new_hops wo) < length hops + n \<longrightarrow>
      (\<forall>rr \<in> set rrs. rr_name rr = last (start # new_hops wo) \<longrightarrow> rr_type rr \<notin> {dns_type_A, dns_type_AAAA, dns_type_CNAME}))"
  using assms
proof (induction packet rrs n current hops rule: walk_loop.induct)
  case (2 packet rrs n current hops)
  obtain s where s: "scan_answers packet rrs current = Inr s" using "2.prems"(1) by auto
  note sp = scan_answers_spec [OF s]
  show ?case
  proof (cases s)
    case (ScanHop target)
    have "walk_loop packet rrs n target (hops @ [target]) = Inr wo" using "2.prems"(1) s ScanHop by simp
    moreover have "successively (cname_link packet rrs) (start # hops @ [target])"
      using "2.prems"(2,3) sp ScanHop successively_append_iff [of _ "start # hops" "[target]"] by simp
    ultimately show ?thesis using "2.IH" [OF s ScanHop] by simp
  next
    case ScanNone
    with "2.prems" s sp show ?thesis by auto
  next
    case ScanAddress
    with "2.prems" s sp show ?thesis by auto
  qed
qed auto

section \<open>The chain invariant\<close>

text \<open>The hops that leave the registrable domain \<open>o1\<close> of the original name.\<close>

definition crossings :: "string \<Rightarrow> string list \<Rightarrow> string list" where
  "crossings o1 hops = filter (\<lambda>h. etld_plus_one h \<noteq> [] \<and> etld_plus_one h \<noteq> o1) (if o1 = [] then [] else hops)"

definition chain_ok :: "int \<Rightarrow> string \<Rightarrow> uncloak_result \<Rightarrow> bool" where
  "chain_ok d orig res \<longleftrightarrow>
     un_chain res \<noteq> [] \<and> hd (un_chain res) = orig \<and> distinct (un_chain res) \<and> int (length (un_chain res)) \<le> max 1 d \<and>
     (crossed_etldp1 res \<longleftrightarrow> crossings (etld_plus_one orig) (tl (un_chain res)) \<noteq> []) \<and>
     crossed_to res = (case crossings (etld_plus_one orig) (tl (un_chain res)) of [] \<Rightarrow> [] | h # _ \<Rightarrow> etld_plus_one h)"

definition hops_clean :: "blocklist \<Rightarrow> string list \<Rightarrow> bool" where
  "hops_clean bl hops \<longleftrightarrow> (\<forall>h \<in> set hops. \<not> blocked (blocklist_match bl h))"

definition abort_reasons :: "string set" where
  "abort_reasons = {''parse error in upstream response'', ''malformed CNAME target'', ''CNAME loop'', ''depth limit reached'',
     ''cannot encode re-query name'', ''re-query failed''}"

definition outcome_ok :: "blocklist \<Rightarrow> uncloak_result \<Rightarrow> bool" where
  "outcome_ok bl res \<longleftrightarrow> (case un_status res of
       UnClean \<Rightarrow> hops_clean bl (tl (un_chain res)) \<and> un_hit res = no_match
     | UnBlocked \<Rightarrow> tl (un_chain res) \<noteq> [] \<and> un_hit res = blocklist_match bl (last (un_chain res)) \<and> blocked (un_hit res) \<and>
         hops_clean bl (butlast (tl (un_chain res)))
     | UnAborted \<Rightarrow> hops_clean bl (tl (un_chain res)) \<and> un_hit res = no_match \<and> abort_reason res \<in> abort_reasons)"

definition running :: "int \<Rightarrow> blocklist \<Rightarrow> string \<Rightarrow> uncloak_result \<Rightarrow> string set \<Rightarrow> bool" where
  "running d bl orig res seen \<longleftrightarrow> chain_ok d orig res \<and> hops_clean bl (tl (un_chain res)) \<and> un_hit res = no_match \<and> seen = set (un_chain res)"

lemma crossings_snoc: "crossings o1 (hops @ [h]) = crossings o1 hops @ crossings o1 [h]"
  by (simp add: crossings_def)

lemma note_crossing_frame [simp]:
  "un_chain (note_crossing o1 h res) = un_chain res" "un_hit (note_crossing o1 h res) = un_hit res"
  "un_status (note_crossing o1 h res) = un_status res" "abort_reason (note_crossing o1 h res) = abort_reason res"
  by (simp_all add: note_crossing_def Let_def)

lemma note_crossing_spec:
  assumes "crossed_etldp1 res \<longleftrightarrow> C \<noteq> []" "crossed_to res = (case C of [] \<Rightarrow> [] | h # _ \<Rightarrow> etld_plus_one h)"
  shows "crossed_etldp1 (note_crossing o1 hop res) \<longleftrightarrow> C @ crossings o1 [hop] \<noteq> []"
    "crossed_to (note_crossing o1 hop res) = (case C @ crossings o1 [hop] of [] \<Rightarrow> [] | h # _ \<Rightarrow> etld_plus_one h)"
proof -
  show "crossed_etldp1 (note_crossing o1 hop res) \<longleftrightarrow> C @ crossings o1 [hop] \<noteq> []"
    using assms(1) by (simp add: note_crossing_def crossings_def Let_def)
  show "crossed_to (note_crossing o1 hop res) = (case C @ crossings o1 [hop] of [] \<Rightarrow> [] | h # _ \<Rightarrow> etld_plus_one h)"
    using assms by (cases C) (simp_all add: note_crossing_def crossings_def Let_def)
qed

lemma extend_chain:
  assumes "running d bl orig res seen" "hop \<notin> seen" "\<not> int (length (un_chain res)) \<ge> d"
  shows "chain_ok d orig (note_crossing (etld_plus_one orig) hop (res\<lparr>un_chain := un_chain res @ [hop]\<rparr>))"
proof -
  let ?C = "crossings (etld_plus_one orig) (tl (un_chain res))"
  let ?r = "res\<lparr>un_chain := un_chain res @ [hop]\<rparr>"
  have ok: "un_chain res \<noteq> []" "hd (un_chain res) = orig" "distinct (un_chain res)" "seen = set (un_chain res)"
    "crossed_etldp1 ?r \<longleftrightarrow> ?C \<noteq> []" "crossed_to ?r = (case ?C of [] \<Rightarrow> [] | h # _ \<Rightarrow> etld_plus_one h)"
    using assms(1) by (simp_all add: running_def chain_ok_def)
  have tl: "tl (un_chain res @ [hop]) = tl (un_chain res) @ [hop]" "hd (un_chain res @ [hop]) = orig" using ok by simp_all
  note nc = note_crossing_spec [OF ok(5,6), of "etld_plus_one orig" hop]
  show ?thesis unfolding chain_ok_def note_crossing_frame using nc ok(1,3,4) tl assms(2,3)
    by (simp add: crossings_snoc)
qed

lemma abort_ok: "running d bl orig res seen \<Longrightarrow> r \<in> abort_reasons \<Longrightarrow> chain_ok d orig (abort r res) \<and> outcome_ok bl (abort r res)"
  by (simp add: running_def chain_ok_def outcome_ok_def abort_def)

lemma process_hops_ok:
  assumes "running d bl orig res seen"
  shows "case process_hops bl d (etld_plus_one orig) hops res seen of
      Inl res' \<Rightarrow> chain_ok d orig res' \<and> outcome_ok bl res'
    | Inr (res', seen') \<Rightarrow> running d bl orig res' seen'"
  using assms
proof (induction hops arbitrary: res seen)
  case (Cons hop hops)
  let ?r = "note_crossing (etld_plus_one orig) hop (res\<lparr>un_chain := un_chain res @ [hop]\<rparr>)"
  have ne: "un_chain res \<noteq> []" "un_hit res = no_match" "hops_clean bl (tl (un_chain res))" "seen = set (un_chain res)"
    using Cons.prems by (simp_all add: running_def chain_ok_def)
  show ?case
  proof (cases "hop \<in> seen \<or> int (length (un_chain res)) \<ge> d")
    case True
    then show ?thesis using abort_ok [OF Cons.prems] by (auto simp: abort_reasons_def)
  next
    case False
    then have ok: "chain_ok d orig ?r" using extend_chain [OF Cons.prems] by simp
    show ?thesis
    proof (cases "blocked (blocklist_match bl hop)")
      case True
      have "outcome_ok bl (?r\<lparr>un_status := UnBlocked, un_hit := blocklist_match bl hop\<rparr>)"
        using ne True by (simp add: outcome_ok_def)
      moreover have "chain_ok d orig (?r\<lparr>un_status := UnBlocked, un_hit := blocklist_match bl hop\<rparr>)"
        using ok by (simp add: chain_ok_def)
      ultimately show ?thesis using False True by (simp add: Let_def)
    next
      case nb: False
      have "running d bl orig ?r (insert hop seen)" using ok ne nb by (auto simp: running_def hops_clean_def)
      from Cons.IH [OF this] False nb show ?thesis by (simp add: Let_def)
    qed
  qed
qed simp

text \<open>One round of the loop: it stops without a look at the answers, at a hop, clean, with the hops taken, or it asks again.\<close>

lemma uncloak_loop_cases [consumes 1, case_names Unread Hop Clean Stuck Again]:
  assumes run: "uncloak_loop draw_id bl d o1 cur res seen rs w = (res', rs', w')"
  obtains r where "r \<in> abort_reasons" "res' = abort r res"
  | walk :: walk_output where "process_hops bl d o1 (new_hops walk) res seen = Inl res'"
  | walk :: walk_output and res1 seen1 where "process_hops bl d o1 (new_hops walk) res seen = Inr (res1, seen1)" "res' = res1\<lparr>un_status := UnClean\<rparr>"
  | walk :: walk_output and res1 seen1 r where "process_hops bl d o1 (new_hops walk) res seen = Inr (res1, seen1)" "r \<in> abort_reasons" "res' = abort r res1"
  | msg walk res1 seen1 req p rs1 w1 where "parse cur = Inr msg" "walk_answers msg cur (last (un_chain res)) = Inr walk"
      "process_hops bl d o1 (new_hops walk) res seen = Inr (res1, seen1)" "\<not> (terminated walk \<or> new_hops walk = [])"
      "\<not> d \<le> int (length (un_chain res1))" "build_a_query (last (un_chain res1)) 0 = Inr req"
      "resolver_forward draw_id req rs w = (Inr p, rs1, w1)" "uncloak_loop draw_id bl d o1 p res1 seen1 rs1 w1 = (res', rs', w')"
proof (cases "parse cur")
  case (Inl e)
  then show ?thesis using run that(1) by (subst (asm) uncloak_loop.simps) (auto simp: abort_reasons_def)
next
  case msg: (Inr msg)
  show ?thesis
  proof (cases "walk_answers msg cur (last (un_chain res))")
    case (Inl e)
    then show ?thesis using run that(1) msg by (subst (asm) uncloak_loop.simps) (auto simp: abort_reasons_def)
  next
    case walk: (Inr walk)
    show ?thesis
    proof (cases "process_hops bl d o1 (new_hops walk) res seen")
      case (Inl r)
      then show ?thesis using run that(2) msg walk by (subst (asm) uncloak_loop.simps) auto
    next
      case hops: (Inr x)
      obtain res1 seen1 where x: "process_hops bl d o1 (new_hops walk) res seen = Inr (res1, seen1)" using hops by (cases x) auto
      obtain fr rs1 w1 where f: "resolver_forward draw_id (projr (build_a_query (last (un_chain res1)) 0)) rs w = (fr, rs1, w1)" by (metis prod.exhaust)
      note step = run [unfolded uncloak_loop.simps [of draw_id bl d o1 cur]]
      consider "terminated walk \<or> new_hops walk = []"
        | "\<not> (terminated walk \<or> new_hops walk = [])" "d \<le> int (length (un_chain res1)) \<or> isl (build_a_query (last (un_chain res1)) 0) \<or> isl fr"
        | req p where "\<not> (terminated walk \<or> new_hops walk = [])" "\<not> d \<le> int (length (un_chain res1))"
            "build_a_query (last (un_chain res1)) 0 = Inr req" "fr = Inr p"
        by (cases "build_a_query (last (un_chain res1)) 0"; cases fr) auto
      then show ?thesis
      proof cases
        case 1
        then show ?thesis using that(3) [OF x] step msg walk x by simp
      next
        case 2
        then show ?thesis using that(4) [OF x] step msg walk x f
          by (cases "build_a_query (last (un_chain res1)) 0"; cases fr) (auto simp: abort_reasons_def split: if_splits)
      next
        case 3
        then show ?thesis using that(5) [OF msg walk x] step msg walk x f by simp
      qed
    qed
  qed
qed

lemma uncloak_loop_ok:
  assumes "running d bl orig res seen" "uncloak_loop draw_id bl d (etld_plus_one orig) cur res seen rs w = (res', rs', w')"
  shows "chain_ok d orig res' \<and> outcome_ok bl res'"
  using assms
proof (induction draw_id bl d "etld_plus_one orig" cur res seen rs w rule: uncloak_loop.induct)
  case (1 draw_id bl d cur res seen rs w)
  note ph = process_hops_ok [OF "1.prems"(1)]
  from "1.prems"(2) show ?case
  proof (cases rule: uncloak_loop_cases)
    case (Unread r)
    then show ?thesis using abort_ok [OF "1.prems"(1)] by simp
  next
    case (Hop walk)
    then show ?thesis using ph [of "new_hops walk"] by simp
  next
    case (Clean walk res1 seen1)
    then have "running d bl orig res1 seen1" using ph [of "new_hops walk"] by simp
    then show ?thesis using Clean(2) by (simp add: running_def chain_ok_def outcome_ok_def)
  next
    case (Stuck walk res1 seen1 r)
    then have "running d bl orig res1 seen1" using ph [of "new_hops walk"] by simp
    then show ?thesis using abort_ok Stuck(2,3) by simp
  next
    case (Again msg walk res1 seen1 req p rs1 w1)
    then have "running d bl orig res1 seen1" using ph [of "new_hops walk"] by simp
    from "1.hyps" [OF Again(1-3) refl Again(4-6) Again(7) [symmetric] refl refl this Again(8)] show ?thesis .
  qed
qed

text \<open>A clean verdict clears every hop the first response shows.\<close>

definition clean_response :: "blocklist \<Rightarrow> string \<Rightarrow> bytes \<Rightarrow> bool" where
  "clean_response bl qname resp \<longleftrightarrow>
     (\<exists>m walk. parse resp = Inr m \<and> walk_answers m resp qname = Inr walk \<and> hops_clean bl (new_hops walk))"

lemma process_hops_clean:
  "process_hops bl d o1 hops res seen = Inr (res', seen') \<Longrightarrow> hops_clean bl hops"
  by (induction hops arbitrary: res seen) (auto simp: hops_clean_def Let_def split: if_splits)

lemma process_hops_not_clean:
  "process_hops bl d o1 hops res seen = Inl res' \<Longrightarrow> un_status res' \<noteq> UnClean"
  by (induction hops arbitrary: res seen) (auto simp: abort_def Let_def split: if_splits)

lemma uncloak_clean_first:
  assumes "uncloak draw_id bl d qname resp rs w = (res, rs', w')" "un_status res = UnClean"
  shows "clean_response bl qname resp"
proof -
  let ?r0 = "\<lparr>un_status = UnClean, un_chain = [qname], un_hit = no_match, abort_reason = [], crossed_etldp1 = False, crossed_to = []\<rparr>"
  have run: "uncloak_loop draw_id bl d (etld_plus_one qname) resp ?r0 {qname} rs w = (res, rs', w')"
    using assms(1) by (simp add: uncloak_def)
  obtain m where m: "parse resp = Inr m"
    using run assms(2) by (subst (asm) uncloak_loop.simps) (auto simp: abort_def split: sum.splits)
  obtain walk where walk: "walk_answers m resp qname = Inr walk"
    using run assms(2) m by (subst (asm) uncloak_loop.simps) (auto simp: abort_def split: sum.splits)
  obtain x where "process_hops bl d (etld_plus_one qname) (new_hops walk) ?r0 {qname} = Inr x"
    using run assms(2) m walk process_hops_not_clean
    by (subst (asm) uncloak_loop.simps) (cases "process_hops bl d (etld_plus_one qname) (new_hops walk) ?r0 {qname}", auto)
  then show ?thesis using m walk process_hops_clean by (cases x) (auto simp: clean_response_def)
qed

section \<open>Properties\<close>

text \<open>C17: The verdict of the uncloaker can be trusted. It always returns, whatever the upstream answers. The
  chain starts with the queried name, repeats no name and is no longer than the depth limit. A clean
  verdict means no hop is blocked; a blocked verdict names the match of the last hop, and no earlier
  hop was blocked; an aborted one carries one of the six reasons and no hop was blocked either. The
  crossing flag is set exactly when some hop has a registrable domain other than that of the queried
  name (when both are defined), and it names that of the first such hop.\<close>

theorem uncloak_verdict:
  "let res = fst (uncloak draw_id bl max_depth qname first_response rs w) in
     chain_ok max_depth qname res \<and> outcome_ok bl res"
proof -
  let ?res = "\<lparr>un_status = UnClean, un_chain = [qname], un_hit = no_match, abort_reason = [],
        crossed_etldp1 = False, crossed_to = []\<rparr>"
  obtain res rs' w' where u: "uncloak_loop draw_id bl max_depth (etld_plus_one qname) first_response ?res {qname} rs w = (res, rs', w')"
    by (metis prod.exhaust)
  have "running max_depth bl qname ?res {qname}"
    by (simp add: running_def chain_ok_def hops_clean_def crossings_def)
  from uncloak_loop_ok [OF this u] u show ?thesis by (simp add: uncloak_def)
qed

text \<open>Every hop taken from a response is backed by it. When walking a response succeeds, each new hop is
  the target of a CNAME record for the name before it, starting from the name asked for; a walk that
  ended at an address found an A or AAAA record for the last name; a walk that ended early found no
  address and no CNAME record for it; and there are at most one more hops than answers.\<close>

theorem walk_answers_links:
  assumes "walk_answers msg packet start = Inr wo"
  shows "successively (cname_link packet (answers msg)) (start # new_hops wo) \<and> length (new_hops wo) \<le> length (answers msg) + 1 \<and>
    (terminated wo \<longrightarrow> (\<exists>rr \<in> set (answers msg). rr_name rr = last (start # new_hops wo) \<and> (rr_type rr = dns_type_A \<or> rr_type rr = dns_type_AAAA))) \<and>
    (\<not> terminated wo \<and> length (new_hops wo) \<le> length (answers msg) \<longrightarrow>
      (\<forall>rr \<in> set (answers msg). rr_name rr = last (start # new_hops wo) \<longrightarrow> rr_type rr \<notin> {dns_type_A, dns_type_AAAA, dns_type_CNAME}))"
  using walk_loop_spec [of packet "answers msg" "length (answers msg) + 1" start "[]" wo start] assms
  by (simp add: walk_answers_def)

theorem walk_answers_links_witness:
  "\<exists>m wo. parse sample_response = Inr m \<and> walk_answers m sample_response ''ad.x'' = Inr wo \<and> new_hops wo = [''t.y''] \<and>
     successively (cname_link sample_response (answers m)) (''ad.x'' # new_hops wo)"
proof -
  obtain m where m: "parse sample_response = Inr m" "walk_answers m sample_response ''ad.x'' = Inr \<lparr>new_hops = [''t.y''], terminated = False\<rparr>"
    unfolding parse_sample_response by (simp add: eval_simps decode_name_loop.simps char_of_eq_iff)
  from walk_answers_links [OF m(2)] m show ?thesis by auto
qed

end
