(* ===== verification/Coroutines.thy ===== *)
theory Coroutines
  imports Uncloaker
begin

text \<open>
  \<^verbatim>\<open>Resolver::Impl::forward\<close> and \<^verbatim>\<open>CnameUncloaker::uncloak\<close> as the coroutines they are: each is suspended at
  \<^verbatim>\<open>co_await adapter.try_once(...)\<close>, the only await they have, and other handlers run meanwhile. The frame
  of a suspended coroutine is a record of the locals that live across the await. \<open>forward_begin\<close> and
  \<open>uncloak_begin\<close> run to the first await, \<open>forward_exchange\<close> and \<open>uncloak_exchange\<close> make the exchange and run
  to the next one. Left alone from call to end, the coroutines compute what \<open>forward\<close> and \<open>uncloak\<close> say.
\<close>

section \<open>Forwarding\<close>

subsection \<open>Definitions\<close>

text \<open>
  The frame of a suspended \<^verbatim>\<open>forward\<close>: its constant locals, the index of the adapter it waits for, and
  how many attempts of the inner loop remain, the one under way included.
\<close>

record fwd_frame =
  fr_job :: job
  fr_adapter :: nat
  fr_left :: nat

text \<open>
  Where the two loops stand next when \<open>left\<close> attempts remain on adapter \<open>i\<close> of \<open>n\<close>: at an attempt, or
  behind both loops.
\<close>

definition forward_seek :: "nat \<Rightarrow> job \<Rightarrow> nat \<Rightarrow> nat \<Rightarrow> fwd_frame result" where
  [eval_simps]: "forward_seek n j i left =
     (if i < n \<and> 0 < left then Inr \<lparr>fr_job = j, fr_adapter = i, fr_left = left\<rparr>
      else if Suc i < n then Inr \<lparr>fr_job = j, fr_adapter = Suc i, fr_left = 1\<rparr>
      else Inl (RuntimeError ''resolver: all adapters exhausted''))"

definition forward_begin :: "('w \<Rightarrow> u16 \<times> 'w) \<Rightarrow> bytes \<Rightarrow> 'w resolver \<Rightarrow> 'w \<Rightarrow> fwd_frame result \<times> 'w" where
  [eval_simps]: "forward_begin draw_id query rs w =
     (if length query < 12 then (Inl (RuntimeError ''resolver: query too short''), w)
      else
        let (i, w1) = draw_id w;
            j = \<lparr>client_query = query, client_id = read_u16_be query 0, our_id = i,
                 outbound = outbound_for (rs_cfg rs) query i, job_timeout = rs_timeout (rs_cfg rs)\<rparr>
        in (forward_seek (length (rs_adapters rs)) j 0 (nat (1 + retries_on_primary (rs_cfg rs))), w1))"

definition count_timeout :: "nat \<Rightarrow> 'w resolver \<Rightarrow> 'w resolver" where
  [eval_simps]: "count_timeout i rs =
     rs\<lparr>rs_counters := (rs_counters rs)[i := (rs_counters rs ! i)\<lparr>timeouts := timeouts (rs_counters rs ! i) + 1\<rparr>]\<rparr>"

definition count_answer :: "nat \<Rightarrow> 'w resolver \<Rightarrow> 'w resolver" where
  [eval_simps]: "count_answer i rs =
     rs\<lparr>rs_counters := (rs_counters rs)[i := (rs_counters rs ! i)\<lparr>queries_answered := queries_answered (rs_counters rs ! i) + 1\<rparr>]\<rparr>"

text \<open>
  One exchange and the code behind it: \<open>Inl\<close> the exception that leaves \<^verbatim>\<open>forward\<close>, \<open>Inr (Inl f)\<close> its
  \<^verbatim>\<open>co_return\<close>, \<open>Inr (Inr fr)\<close> the next suspension.
\<close>

definition forward_exchange :: "fwd_frame \<Rightarrow> 'w resolver \<Rightarrow> 'w \<Rightarrow> (forward_result + fwd_frame) result \<times> 'w resolver \<times> 'w" where
  [eval_simps]: "forward_exchange fr rs w =
     (let j = fr_job fr; i = fr_adapter fr; adapter = rs_adapters rs ! i;
          next = (case forward_seek (length (rs_adapters rs)) j i (fr_left fr - 1) of Inl e \<Rightarrow> Inl e | Inr fr' \<Rightarrow> Inr (Inr fr')) in
      case ad_try_once adapter (outbound j) (job_timeout j) w of
        (Inl e, w') \<Rightarrow> (Inl e, rs, w')
      | (Inr None, w') \<Rightarrow> (next, count_timeout i rs, w')
      | (Inr (Some reply), w') \<Rightarrow>
          if length (reply_bytes reply) < 12 then (next, rs, w')
          else if read_u16_be (reply_bytes reply) 0 \<noteq> our_id j then (next, rs, w')
          else if \<not> reply_matches_request (client_query j) (reply_bytes reply) then (next, rs, w')
          else (Inr (Inl \<lparr>fwd_response = write_u16_be (reply_bytes reply) 0 (client_id j),
                          fwd_upstream = ad_label adapter, fwd_ech_status = reply_ech_status reply\<rparr>),
                count_answer i rs, w'))"

subsection \<open>Frames\<close>

lemma count_frame [simp]:
  "rs_adapters (count_timeout i rs) = rs_adapters rs" "rs_cfg (count_timeout i rs) = rs_cfg rs"
  "rs_adapters (count_answer i rs) = rs_adapters rs" "rs_cfg (count_answer i rs) = rs_cfg rs"
  "length (rs_counters (count_timeout i rs)) = length (rs_counters rs)"
  "length (rs_counters (count_answer i rs)) = length (rs_counters rs)"
  by (simp_all add: count_timeout_def count_answer_def)

text \<open>How many exchanges a frame can still lead to, with two units for each further adapter so that an exhausted inner loop counts too.\<close>

definition exchanges_left :: "nat \<Rightarrow> fwd_frame \<Rightarrow> nat" where
  "exchanges_left n fr = 2 * (n - fr_adapter fr) + fr_left fr"

definition frame_ok :: "nat \<Rightarrow> fwd_frame \<Rightarrow> bool" where
  "frame_ok n fr \<longleftrightarrow> fr_adapter fr < n \<and> 0 < fr_left fr"

lemma forward_seek_ok:
  assumes "forward_seek n j i left = Inr fr"
  shows "frame_ok n fr" "fr_job fr = j" "fr_adapter fr = i \<and> fr_left fr = left \<or> fr_adapter fr = Suc i \<and> fr_left fr = 1"
  using assms by (auto simp: forward_seek_def frame_ok_def split: if_splits)

text \<open>What an exchange does, read with the acceptance test of the reply in one word.\<close>

lemma forward_exchange_cases [consumes 1, case_names Thrown Accepted Timeout Rejected]:
  assumes "forward_exchange fr rs w = (x, rs', w')"
  obtains e where "ad_try_once (rs_adapters rs ! fr_adapter fr) (outbound (fr_job fr)) (job_timeout (fr_job fr)) w = (Inl e, w')"
      "x = Inl e" "rs' = rs"
  | reply where "ad_try_once (rs_adapters rs ! fr_adapter fr) (outbound (fr_job fr)) (job_timeout (fr_job fr)) w = (Inr (Some reply), w')"
      "acceptable (fr_job fr) (reply_bytes reply)"
      "x = Inr (Inl (accepted_result (fr_job fr) (rs_adapters rs ! fr_adapter fr) reply))" "rs' = count_answer (fr_adapter fr) rs"
  | "ad_try_once (rs_adapters rs ! fr_adapter fr) (outbound (fr_job fr)) (job_timeout (fr_job fr)) w = (Inr None, w')"
      "x = map_sum id Inr (forward_seek (length (rs_adapters rs)) (fr_job fr) (fr_adapter fr) (fr_left fr - 1))"
      "rs' = count_timeout (fr_adapter fr) rs"
  | reply where "ad_try_once (rs_adapters rs ! fr_adapter fr) (outbound (fr_job fr)) (job_timeout (fr_job fr)) w = (Inr (Some reply), w')"
      "\<not> acceptable (fr_job fr) (reply_bytes reply)"
      "x = map_sum id Inr (forward_seek (length (rs_adapters rs)) (fr_job fr) (fr_adapter fr) (fr_left fr - 1))" "rs' = rs"
proof -
  let ?ad = "rs_adapters rs ! fr_adapter fr"
  obtain y w1 where y: "ad_try_once ?ad (outbound (fr_job fr)) (job_timeout (fr_job fr)) w = (y, w1)" by fastforce
  have seek: "(case s of Inl e \<Rightarrow> Inl e | Inr fr' \<Rightarrow> Inr (Inr fr')) = map_sum id Inr s" for s :: "fwd_frame result"
    by (cases s) auto
  note ex = assms [unfolded forward_exchange_def Let_def y seek]
  consider e where "y = Inl e" | "y = Inr None"
    | reply where "y = Inr (Some reply)" "acceptable (fr_job fr) (reply_bytes reply)"
    | reply where "y = Inr (Some reply)" "\<not> acceptable (fr_job fr) (reply_bytes reply)" by (cases y) auto
  then show ?thesis
  proof cases
    case 1
    from ex have "x = Inl e" "rs' = rs" "w' = w1" unfolding 1 by simp_all
    with that(1) y 1 show ?thesis by blast
  next
    case 2
    from ex have "x = map_sum id Inr (forward_seek (length (rs_adapters rs)) (fr_job fr) (fr_adapter fr) (fr_left fr - 1))"
      "rs' = count_timeout (fr_adapter fr) rs" "w' = w1" unfolding 2 by simp_all
    with that(3) y 2 show ?thesis by blast
  next
    case 3
    from ex 3(2) have "x = Inr (Inl (accepted_result (fr_job fr) ?ad reply))" "rs' = count_answer (fr_adapter fr) rs" "w' = w1"
      unfolding 3(1) by (simp_all add: acceptable_def accepted_result_def)
    with that(2) y 3 show ?thesis by blast
  next
    case 4
    from ex 4(2) have "x = map_sum id Inr (forward_seek (length (rs_adapters rs)) (fr_job fr) (fr_adapter fr) (fr_left fr - 1))"
      "rs' = rs" "w' = w1" unfolding 4(1) by (auto simp: acceptable_def split: if_splits)
    with that(4) y 4 show ?thesis by blast
  qed
qed

lemma map_sum_Inr_iff: "map_sum id Inr s = Inr (Inr x) \<longleftrightarrow> s = Inr x" "map_sum id Inr s \<noteq> Inr (Inl y)" "map_sum id Inr s = Inl e \<longleftrightarrow> s = Inl e"
  by (cases s; auto)+

lemma forward_exchange_resolver:
  assumes "forward_exchange fr rs w = (x, rs', w')"
  shows "rs_adapters rs' = rs_adapters rs" "rs_cfg rs' = rs_cfg rs" "length (rs_counters rs') = length (rs_counters rs)"
  using assms by (cases rule: forward_exchange_cases; simp)+

lemma forward_exchange_next:
  assumes "forward_exchange fr rs w = (Inr (Inr fr'), rs', w')"
  shows "fr_job fr' = fr_job fr" "frame_ok (length (rs_adapters rs)) fr'"
    "exchanges_left (length (rs_adapters rs)) fr' < exchanges_left (length (rs_adapters rs)) fr"
proof -
  have "forward_seek (length (rs_adapters rs)) (fr_job fr) (fr_adapter fr) (fr_left fr - 1) = Inr fr'"
    using assms by (cases rule: forward_exchange_cases) (auto simp: map_sum_Inr_iff dest: sym)
  from forward_seek_ok [OF this] show "fr_job fr' = fr_job fr" "frame_ok (length (rs_adapters rs)) fr'"
    "exchanges_left (length (rs_adapters rs)) fr' < exchanges_left (length (rs_adapters rs)) fr"
    by (auto simp: exchanges_left_def frame_ok_def)
qed

lemma forward_exchange_accepts:
  assumes "forward_exchange fr rs w = (Inr (Inl f), rs', w')"
  shows "\<exists>reply. ad_try_once (rs_adapters rs ! fr_adapter fr) (outbound (fr_job fr)) (job_timeout (fr_job fr)) w = (Inr (Some reply), w') \<and>
    acceptable (fr_job fr) (reply_bytes reply) \<and> f = accepted_result (fr_job fr) (rs_adapters rs ! fr_adapter fr) reply"
  using assms by (cases rule: forward_exchange_cases) (auto simp: map_sum_Inr_iff dest: sym)

lemma forward_begin_frame:
  assumes "forward_begin draw_id query rs w = (Inr fr, w')"
  shows "fr_job fr = job_of rs query (fst (draw_id w))" "frame_ok (length (rs_adapters rs)) fr" "12 \<le> length query"
proof -
  have len: "12 \<le> length query" using assms by (auto simp: forward_begin_def split: if_splits)
  then have "forward_seek (length (rs_adapters rs)) (job_of rs query (fst (draw_id w))) 0 (nat (1 + retries_on_primary (rs_cfg rs))) = Inr fr"
    using assms by (auto simp: forward_begin_def job_of_def Let_def split: prod.splits)
  from forward_seek_ok [OF this] len show "fr_job fr = job_of rs query (fst (draw_id w))" "frame_ok (length (rs_adapters rs)) fr" "12 \<le> length query"
    by simp_all
qed

subsection \<open>Left alone, the coroutine is the function\<close>

function run_forward :: "fwd_frame \<Rightarrow> 'w resolver \<Rightarrow> 'w \<Rightarrow> forward_result result \<times> 'w resolver \<times> 'w" where
  "run_forward fr rs w =
     (case forward_exchange fr rs w of
        (Inl e, rs', w') \<Rightarrow> (Inl e, rs', w')
      | (Inr (Inl f), rs', w') \<Rightarrow> (Inr f, rs', w')
      | (Inr (Inr fr'), rs', w') \<Rightarrow> run_forward fr' rs' w')"
  by pat_completeness auto
termination
  by (relation "measure (\<lambda>(fr, rs, w). exchanges_left (length (rs_adapters rs)) fr)")
    (auto dest!: sym [of "(Inr (Inr _), _, _)"] dest: forward_exchange_next(3) simp: forward_exchange_resolver(1))

declare run_forward.simps [simp del]

text \<open>What is left of the two loops of \<^verbatim>\<open>forward\<close> when \<open>left\<close> attempts remain on adapter \<open>i\<close>.\<close>

definition rest_of_loops :: "job \<Rightarrow> nat \<Rightarrow> nat \<Rightarrow> 'w resolver \<Rightarrow> 'w \<Rightarrow> forward_result result \<times> 'w resolver \<times> 'w" where
  "rest_of_loops j i left rs w =
     (case try_adapters j left (drop i (rs_adapters rs)) (drop i (rs_counters rs)) w of (r, cs, w') \<Rightarrow>
        (case r of Inl e \<Rightarrow> Inl e | Inr (Some f) \<Rightarrow> Inr f | Inr None \<Rightarrow> Inl (RuntimeError ''resolver: all adapters exhausted''),
         rs\<lparr>rs_counters := take i (rs_counters rs) @ cs\<rparr>, w'))"

definition resolver_shape :: "'w resolver \<Rightarrow> bool" where
  "resolver_shape rs \<longleftrightarrow> rs_adapters rs \<noteq> [] \<and> length (rs_counters rs) = length (rs_adapters rs)"

lemma try_adapters_none: "try_adapters j left [] cs w = (Inr None, cs, w)"
  by (cases cs) auto

lemma rest_of_loops_exhausted:
  assumes "resolver_shape rs" "i < length (rs_adapters rs)"
  shows "rest_of_loops j i 0 rs w = rest_of_loops j (Suc i) 1 rs w"
proof -
  have "drop i (rs_adapters rs) = rs_adapters rs ! i # drop (Suc i) (rs_adapters rs)"
    "drop i (rs_counters rs) = rs_counters rs ! i # drop (Suc i) (rs_counters rs)"
    "take (Suc i) (rs_counters rs) = take i (rs_counters rs) @ [rs_counters rs ! i]"
    using assms by (simp_all add: Cons_nth_drop_Suc resolver_shape_def take_Suc_conv_app_nth)
  then show ?thesis by (simp add: rest_of_loops_def split: prod.split)
qed

lemma rest_of_loops_end:
  assumes "length (rs_adapters rs) \<le> i" "resolver_shape rs"
  shows "rest_of_loops j i left rs w = (Inl (RuntimeError ''resolver: all adapters exhausted''), rs, w)"
  using assms by (simp add: rest_of_loops_def resolver_shape_def try_adapters_none)

lemma forward_seek_loops:
  assumes "resolver_shape rs" "i < length (rs_adapters rs)"
  shows "rest_of_loops j i left rs w = (case forward_seek (length (rs_adapters rs)) j i left of
      Inl e \<Rightarrow> (Inl e, rs, w)
    | Inr fr \<Rightarrow> rest_of_loops (fr_job fr) (fr_adapter fr) (fr_left fr) rs w)"
  using assms rest_of_loops_exhausted [OF assms] rest_of_loops_end [of rs "Suc i" j 1 w]
  by (cases "left = 0") (auto simp: forward_seek_def)

lemma rest_of_loops_attempt:
  assumes "resolver_shape rs" "i < length (rs_adapters rs)"
  shows "rest_of_loops j i (Suc n) rs w =
     (case ad_try_once (rs_adapters rs ! i) (outbound j) (job_timeout j) w of
        (Inl e, w') \<Rightarrow> (Inl e, rs, w')
      | (Inr None, w') \<Rightarrow> rest_of_loops j i n (count_timeout i rs) w'
      | (Inr (Some reply), w') \<Rightarrow>
          if acceptable j (reply_bytes reply) then (Inr (accepted_result j (rs_adapters rs ! i) reply), count_answer i rs, w')
          else rest_of_loops j i n rs w')"
proof -
  let ?ad = "rs_adapters rs ! i" and ?c = "rs_counters rs ! i" and ?cs = "drop (Suc i) (rs_counters rs)"
  have i: "i < length (rs_counters rs)" using assms by (simp add: resolver_shape_def)
  have d: "drop i (rs_adapters rs) = ?ad # drop (Suc i) (rs_adapters rs)" "drop i (rs_counters rs) = ?c # ?cs"
    using assms i by (simp_all add: Cons_nth_drop_Suc)
  have upd: "drop i ((rs_counters rs)[i := c]) = c # ?cs" "take i (rs_counters rs) @ c # ?cs = (rs_counters rs)[i := c]" for c
    using i by (simp_all add: drop_update_swap d(2) upd_conv_take_nth_drop)
  have self: "take i (rs_counters rs) @ ?c # ?cs = rs_counters rs" using i by (metis d(2) append_take_drop_id)
  obtain y w1 where y: "ad_try_once ?ad (outbound j) (job_timeout j) w = (y, w1)" by fastforce
  consider e where "y = Inl e" | "y = Inr None" | reply where "y = Inr (Some reply)" by (cases y) auto
  then show ?thesis
    by cases (simp_all add: rest_of_loops_def d y try_attempts_Suc count_timeout_def count_answer_def upd self)
qed

lemma run_forward_loops:
  assumes "resolver_shape rs" "frame_ok (length (rs_adapters rs)) fr"
  shows "run_forward fr rs w = rest_of_loops (fr_job fr) (fr_adapter fr) (fr_left fr) rs w"
  using assms
proof (induction fr rs w rule: run_forward.induct)
  case (1 fr rs w)
  let ?j = "fr_job fr" and ?i = "fr_adapter fr" and ?n = "fr_left fr - 1" and ?N = "length (rs_adapters rs)"
  have i: "?i < ?N" "Suc ?n = fr_left fr" using "1.prems"(2) by (auto simp: frame_ok_def)
  obtain x rs1 w1 where x: "forward_exchange fr rs w = (x, rs1, w1)" by (metis prod.exhaust)
  note at = rest_of_loops_attempt [OF "1.prems"(1) i(1), of ?j ?n w, unfolded i(2)]
  have keep: "resolver_shape rs1" "rs_adapters rs1 = rs_adapters rs"
    using forward_exchange_resolver [OF x] "1.prems"(1) by (simp_all add: resolver_shape_def)
  have go: "run_forward fr rs w = rest_of_loops ?j ?i ?n rs1 w1" if x': "x = map_sum id Inr (forward_seek ?N ?j ?i ?n)"
  proof (cases "forward_seek ?N ?j ?i ?n")
    case (Inl e)
    then show ?thesis using x x' forward_seek_loops [OF keep(1), of ?i ?j ?n w1] keep(2) i(1) by (simp add: run_forward.simps [of fr])
  next
    case (Inr fr')
    then have "forward_exchange fr rs w = (Inr (Inr fr'), rs1, w1)" using x x' by simp
    from "1.IH" [OF this [symmetric] refl refl refl keep(1)] forward_exchange_next(2) [OF this] keep(2)
    have "run_forward fr' rs1 w1 = rest_of_loops (fr_job fr') (fr_adapter fr') (fr_left fr') rs1 w1" by simp
    then show ?thesis using x x' Inr forward_seek_loops [OF keep(1), of ?i ?j ?n w1] keep(2) i(1) by (simp add: run_forward.simps [of fr])
  qed
  from x show ?case
    by (cases rule: forward_exchange_cases) (use x at go in \<open>simp_all add: run_forward.simps [of fr]\<close>)
qed

text \<open>\<^verbatim>\<open>forward\<close> from its call to its end, as the coroutine.\<close>

definition call_forward :: "('w \<Rightarrow> u16 \<times> 'w) \<Rightarrow> bytes \<Rightarrow> 'w resolver \<Rightarrow> 'w \<Rightarrow> forward_result result \<times> 'w resolver \<times> 'w" where
  [eval_simps]: "call_forward draw_id query rs w =
     (case forward_begin draw_id query rs w of
        (Inl e, w') \<Rightarrow> (Inl e, rs, w')
      | (Inr fr, w') \<Rightarrow> run_forward fr rs w')"

lemma call_forward_eq:
  assumes "resolver_shape rs"
  shows "call_forward draw_id query rs w = forward draw_id query rs w"
proof (cases "length query < 12")
  case False
  obtain i w1 where d: "draw_id w = (i, w1)" by fastforce
  let ?j = "job_of rs query i" and ?n = "nat (1 + retries_on_primary (rs_cfg rs))"
  have b: "forward_begin draw_id query rs w = (forward_seek (length (rs_adapters rs)) ?j 0 ?n, w1)"
    using False by (simp add: forward_begin_def d job_of_def)
  have "call_forward draw_id query rs w = rest_of_loops ?j 0 ?n rs w1"
    using forward_seek_loops [OF assms(1), of 0 ?j ?n w1] assms [unfolded resolver_shape_def] run_forward_loops [OF assms(1)] forward_seek_ok(1) b
    by (auto simp: call_forward_def split: sum.split)
  moreover obtain r cs w2 where "try_adapters ?j ?n (rs_adapters rs) (rs_counters rs) w1 = (r, cs, w2)" by (metis prod.exhaust)
  ultimately show ?thesis using forward_unfold [of query draw_id w i w1 rs r cs w2] False d by (simp add: rest_of_loops_def)
qed (simp add: call_forward_def forward_begin_def forward_def)

lemma run_forward_resolver:
  assumes "run_forward fr rs w = (r, rs', w')"
  shows "rs_adapters rs' = rs_adapters rs" "rs_cfg rs' = rs_cfg rs" "length (rs_counters rs') = length (rs_counters rs)"
proof -
  have "rs_adapters rs' = rs_adapters rs \<and> rs_cfg rs' = rs_cfg rs \<and> length (rs_counters rs') = length (rs_counters rs)"
    using assms
  proof (induction fr rs w rule: run_forward.induct)
    case (1 fr rs w)
    obtain x rs1 w1 where x: "forward_exchange fr rs w = (x, rs1, w1)" by (metis prod.exhaust)
    note keep = forward_exchange_resolver [OF x] and step = "1.prems" [unfolded run_forward.simps [of fr rs w] x]
    consider "isl x" | f where "x = Inr (Inl f)" | fr' where "x = Inr (Inr fr')" by (metis old.sum.exhaust isl_def)
    then show ?case
    proof cases
      case 3
      then show ?thesis using "1.IH" [OF x [unfolded 3, symmetric] refl refl refl] step keep by simp
    qed (use step keep in \<open>auto simp: isl_def\<close>)
  qed
  then show "rs_adapters rs' = rs_adapters rs" "rs_cfg rs' = rs_cfg rs" "length (rs_counters rs') = length (rs_counters rs)" by simp_all
qed

lemma forward_shape:
  assumes "forward draw_id query rs w = (r, rs', w')" "resolver_shape rs"
  shows "resolver_shape rs'"
proof -
  obtain x w1 where x: "forward_begin draw_id query rs w = (x, w1)" by fastforce
  then show ?thesis using assms call_forward_eq [OF assms(2), of draw_id query w] run_forward_resolver [of _ rs w1 r rs' w']
    by (cases x) (auto simp: call_forward_def resolver_shape_def)
qed

section \<open>Uncloaking\<close>

subsection \<open>Definitions\<close>

text \<open>The locals of \<^verbatim>\<open>uncloak\<close> that live across a re-query.\<close>

record uncloak_frame =
  uf_etldp1 :: string
  uf_result :: uncloak_result
  uf_seen :: "string set"

text \<open>The body of \<^verbatim>\<open>while (true)\<close> up to the re-query: \<open>Inl\<close> is a \<^verbatim>\<open>co_return\<close>, \<open>Inr\<close> the query to send.\<close>

definition uncloak_turn :: "blocklist \<Rightarrow> int \<Rightarrow> bytes \<Rightarrow> uncloak_frame \<Rightarrow> uncloak_result + (bytes \<times> uncloak_frame)" where
  [eval_simps]: "uncloak_turn bl max_depth current uf =
     (let res = uf_result uf in
      case parse current of
        Inl _ \<Rightarrow> Inl (abort ''parse error in upstream response'' res)
      | Inr msg \<Rightarrow>
     (case walk_answers msg current (last (un_chain res)) of
        Inl _ \<Rightarrow> Inl (abort ''malformed CNAME target'' res)
      | Inr walk \<Rightarrow>
     (case process_hops bl max_depth (uf_etldp1 uf) (new_hops walk) res (uf_seen uf) of
        Inl res \<Rightarrow> Inl res
      | Inr (res, seen) \<Rightarrow>
          if terminated walk \<or> new_hops walk = [] then Inl (res\<lparr>un_status := UnClean\<rparr>)
          else if int (length (un_chain res)) \<ge> max_depth then Inl (abort ''depth limit reached'' res)
          else (case build_a_query (last (un_chain res)) 0 of
                  Inl _ \<Rightarrow> Inl (abort ''cannot encode re-query name'' res)
                | Inr req \<Rightarrow> Inr (req, \<lparr>uf_etldp1 = uf_etldp1 uf, uf_result = res, uf_seen = seen\<rparr>)))))"

text \<open>
  From the top of the loop with the packet \<open>current\<close> to the await of the re-query inside
  \<^verbatim>\<open>resolver_.forward(req)\<close>, or to a \<^verbatim>\<open>co_return\<close>.
\<close>

definition uncloak_continue :: "('w \<Rightarrow> u16 \<times> 'w) \<Rightarrow> blocklist \<Rightarrow> int \<Rightarrow> bytes \<Rightarrow> uncloak_frame \<Rightarrow> 'w resolver \<Rightarrow> 'w \<Rightarrow>
    (uncloak_result + (uncloak_frame \<times> fwd_frame)) \<times> 'w" where
  [eval_simps]: "uncloak_continue draw_id bl max_depth current uf rs w =
     (case uncloak_turn bl max_depth current uf of
        Inl res \<Rightarrow> (Inl res, w)
      | Inr (req, uf') \<Rightarrow>
          (case forward_begin draw_id req rs w of
             (Inl _, w') \<Rightarrow> (Inl (abort ''re-query failed'' (uf_result uf')), w')
           | (Inr fr, w') \<Rightarrow> (Inr (uf', fr), w')))"

definition uncloak_start :: "string \<Rightarrow> uncloak_frame" where
  [eval_simps]: "uncloak_start original_qname = \<lparr>uf_etldp1 = etld_plus_one original_qname,
     uf_result = \<lparr>un_status = UnClean, un_chain = [original_qname], un_hit = no_match, abort_reason = [],
        crossed_etldp1 = False, crossed_to = []\<rparr>, uf_seen = {original_qname}\<rparr>"

definition uncloak_begin :: "('w \<Rightarrow> u16 \<times> 'w) \<Rightarrow> blocklist \<Rightarrow> int \<Rightarrow> string \<Rightarrow> bytes \<Rightarrow> 'w resolver \<Rightarrow> 'w \<Rightarrow>
    (uncloak_result + (uncloak_frame \<times> fwd_frame)) \<times> 'w" where
  [eval_simps]: "uncloak_begin draw_id bl max_depth original_qname first_response rs w =
     uncloak_continue draw_id bl max_depth first_response (uncloak_start original_qname) rs w"

text \<open>One exchange of the re-query and the code behind it.\<close>

definition uncloak_exchange :: "('w \<Rightarrow> u16 \<times> 'w) \<Rightarrow> blocklist \<Rightarrow> int \<Rightarrow> uncloak_frame \<Rightarrow> fwd_frame \<Rightarrow> 'w resolver \<Rightarrow> 'w \<Rightarrow>
    (uncloak_result + (uncloak_frame \<times> fwd_frame)) \<times> 'w resolver \<times> 'w" where
  [eval_simps]: "uncloak_exchange draw_id bl max_depth uf fr rs w =
     (case forward_exchange fr rs w of
        (Inl _, rs', w') \<Rightarrow> (Inl (abort ''re-query failed'' (uf_result uf)), rs', w')
      | (Inr (Inl f), rs', w') \<Rightarrow>
          (case uncloak_continue draw_id bl max_depth (fwd_response f) uf rs' w' of (x, w'') \<Rightarrow> (x, rs', w''))
      | (Inr (Inr fr'), rs', w') \<Rightarrow> (Inr (uf, fr'), rs', w'))"

subsection \<open>Frames\<close>

definition chain_left :: "int \<Rightarrow> uncloak_frame \<Rightarrow> nat" where
  "chain_left max_depth uf = nat (max_depth - int (length (un_chain (uf_result uf))))"

lemma uncloak_turn_again:
  assumes "uncloak_turn bl d current uf = Inr (req, uf')"
  obtains msg walk where "parse current = Inr msg" "walk_answers msg current (last (un_chain (uf_result uf))) = Inr walk"
    "process_hops bl d (uf_etldp1 uf) (new_hops walk) (uf_result uf) (uf_seen uf) = Inr (uf_result uf', uf_seen uf')"
    "\<not> (terminated walk \<or> new_hops walk = [])" "int (length (un_chain (uf_result uf'))) < d"
    "build_a_query (last (un_chain (uf_result uf'))) 0 = Inr req" "uf_etldp1 uf' = uf_etldp1 uf"
proof -
  obtain msg where msg: "parse current = Inr msg" using assms by (auto simp: uncloak_turn_def Let_def split: sum.splits)
  obtain walk where walk: "walk_answers msg current (last (un_chain (uf_result uf))) = Inr walk"
    using assms msg by (auto simp: uncloak_turn_def Let_def split: sum.splits)
  obtain res seen where ph: "process_hops bl d (uf_etldp1 uf) (new_hops walk) (uf_result uf) (uf_seen uf) = Inr (res, seen)"
    using assms msg walk by (auto simp: uncloak_turn_def Let_def split: sum.splits)
  show ?thesis
    by (rule that [OF msg walk]) (use assms msg walk ph in \<open>auto simp: uncloak_turn_def Let_def split: sum.splits if_splits\<close>)
qed

lemma uncloak_turn_left:
  assumes "uncloak_turn bl d current uf = Inr (req, uf')"
  shows "chain_left d uf' < chain_left d uf"
proof -
  obtain walk :: walk_output where w: "process_hops bl d (uf_etldp1 uf) (new_hops walk) (uf_result uf) (uf_seen uf) = Inr (uf_result uf', uf_seen uf')"
      "new_hops walk \<noteq> []" "int (length (un_chain (uf_result uf'))) < d"
    by (rule uncloak_turn_again [OF assms]) blast
  from process_hops_length [OF w(1)] w(2,3) show ?thesis by (cases "new_hops walk") (auto simp: chain_left_def)
qed

lemma uncloak_continue_frame:
  assumes "uncloak_continue draw_id bl d current uf rs w = (Inr (uf', fr), w')"
  shows "chain_left d uf' < chain_left d uf" "frame_ok (length (rs_adapters rs)) fr"
    "\<exists>req. uncloak_turn bl d current uf = Inr (req, uf') \<and> fr_job fr = job_of rs req (fst (draw_id w))"
proof -
  obtain req where t: "uncloak_turn bl d current uf = Inr (req, uf')" and b: "forward_begin draw_id req rs w = (Inr fr, w')"
    using assms by (auto simp: uncloak_continue_def split: sum.splits prod.splits)
  show "chain_left d uf' < chain_left d uf" using uncloak_turn_left [OF t] .
  show "frame_ok (length (rs_adapters rs)) fr" using forward_begin_frame(2) [OF b] .
  show "\<exists>req. uncloak_turn bl d current uf = Inr (req, uf') \<and> fr_job fr = job_of rs req (fst (draw_id w))"
    using t forward_begin_frame(1) [OF b] by blast
qed

lemma uncloak_exchange_resolver:
  assumes "uncloak_exchange draw_id bl d uf fr rs w = (x, rs', w')"
  shows "rs_adapters rs' = rs_adapters rs" "rs_cfg rs' = rs_cfg rs" "length (rs_counters rs') = length (rs_counters rs)"
proof -
  obtain y rs1 w1 where y: "forward_exchange fr rs w = (y, rs1, w1)" by (metis prod.exhaust)
  then have "rs' = rs1" using assms by (auto simp: uncloak_exchange_def split: sum.splits prod.splits)
  with forward_exchange_resolver [OF y] show "rs_adapters rs' = rs_adapters rs" "rs_cfg rs' = rs_cfg rs"
    "length (rs_counters rs') = length (rs_counters rs)" by simp_all
qed

lemma uncloak_exchange_next:
  assumes "uncloak_exchange draw_id bl d uf fr rs w = (Inr (uf', fr'), rs', w')"
  shows "chain_left d uf' < chain_left d uf \<or>
      chain_left d uf' = chain_left d uf \<and> exchanges_left (length (rs_adapters rs)) fr' < exchanges_left (length (rs_adapters rs)) fr"
    "frame_ok (length (rs_adapters rs)) fr'"
proof -
  obtain y rs1 w1 where y: "forward_exchange fr rs w = (y, rs1, w1)" by (metis prod.exhaust)
  consider f where "y = Inr (Inl f)" "uncloak_continue draw_id bl d (fwd_response f) uf rs1 w1 = (Inr (uf', fr'), w')"
    | "y = Inr (Inr fr')" "uf' = uf" "rs1 = rs'"
    using assms y by (auto simp: uncloak_exchange_def split: sum.splits prod.splits)
  then have "(chain_left d uf' < chain_left d uf \<or>
      chain_left d uf' = chain_left d uf \<and> exchanges_left (length (rs_adapters rs)) fr' < exchanges_left (length (rs_adapters rs)) fr) \<and>
    frame_ok (length (rs_adapters rs)) fr'"
  proof cases
    case 1
    then show ?thesis using uncloak_continue_frame(1,2) [OF 1(2)] forward_exchange_resolver(1) [OF y] by simp
  next
    case 2
    then show ?thesis using forward_exchange_next(2,3) [of fr rs w fr' rs1 w1] y by simp
  qed
  then show "chain_left d uf' < chain_left d uf \<or>
      chain_left d uf' = chain_left d uf \<and> exchanges_left (length (rs_adapters rs)) fr' < exchanges_left (length (rs_adapters rs)) fr"
    "frame_ok (length (rs_adapters rs)) fr'" by simp_all
qed

subsection \<open>Left alone, the coroutine is the function\<close>

function run_uncloak :: "('w \<Rightarrow> u16 \<times> 'w) \<Rightarrow> blocklist \<Rightarrow> int \<Rightarrow> uncloak_frame \<Rightarrow> fwd_frame \<Rightarrow> 'w resolver \<Rightarrow> 'w \<Rightarrow>
    uncloak_result \<times> 'w resolver \<times> 'w" where
  "run_uncloak draw_id bl max_depth uf fr rs w =
     (case uncloak_exchange draw_id bl max_depth uf fr rs w of
        (Inl res, rs', w') \<Rightarrow> (res, rs', w')
      | (Inr (uf', fr'), rs', w') \<Rightarrow> run_uncloak draw_id bl max_depth uf' fr' rs' w')"
  by pat_completeness auto
termination
proof (relation "measures [\<lambda>(draw_id, bl, d, uf, fr, rs, w). chain_left d uf,
    \<lambda>(draw_id, bl, d, uf, fr, rs, w). exchanges_left (length (rs_adapters rs)) fr]", goal_cases)
  case (2 draw_id bl d uf fr rs w x y a uf' fr' rs' w')
  then have "uncloak_exchange draw_id bl d uf fr rs w = (Inr (uf', fr'), rs', w')" by simp
  from uncloak_exchange_next(1) [OF this] uncloak_exchange_resolver(1) [OF this] show ?case by auto
qed simp

declare run_uncloak.simps [simp del]

definition call_uncloak :: "('w \<Rightarrow> u16 \<times> 'w) \<Rightarrow> blocklist \<Rightarrow> int \<Rightarrow> string \<Rightarrow> bytes \<Rightarrow> 'w resolver \<Rightarrow> 'w \<Rightarrow> uncloak_result \<times> 'w resolver \<times> 'w" where
  [eval_simps]: "call_uncloak draw_id bl max_depth original_qname first_response rs w =
     (case uncloak_begin draw_id bl max_depth original_qname first_response rs w of
        (Inl res, w') \<Rightarrow> (res, rs, w')
      | (Inr (uf, fr), w') \<Rightarrow> run_uncloak draw_id bl max_depth uf fr rs w')"

lemma uncloak_loop_turn:
  "uncloak_loop draw_id bl d (uf_etldp1 uf) cur (uf_result uf) (uf_seen uf) rs w =
     (case uncloak_turn bl d cur uf of
        Inl res \<Rightarrow> (res, rs, w)
      | Inr (req, uf') \<Rightarrow>
          (case forward draw_id req rs w of
             (Inl _, rs', w') \<Rightarrow> (abort ''re-query failed'' (uf_result uf'), rs', w')
           | (Inr f, rs', w') \<Rightarrow> uncloak_loop draw_id bl d (uf_etldp1 uf') (fwd_response f) (uf_result uf') (uf_seen uf') rs' w'))"
proof -
  let ?res = "uf_result uf" and ?o1 = "uf_etldp1 uf"
  note step = uncloak_loop.simps [of draw_id bl d ?o1 cur ?res "uf_seen uf" rs w] uncloak_turn_def
  show ?thesis
  proof (cases "parse cur")
    case (Inl e)
    then show ?thesis by (simp add: step)
  next
    case msg: (Inr msg)
    show ?thesis
    proof (cases "walk_answers msg cur (last (un_chain ?res))")
      case (Inl e)
      then show ?thesis using msg by (simp add: step)
    next
      case walk: (Inr walk)
      show ?thesis
      proof (cases "process_hops bl d ?o1 (new_hops walk) ?res (uf_seen uf)")
        case (Inl r)
        then show ?thesis using msg walk by (simp add: step)
      next
        case (Inr x)
        obtain res seen where x: "process_hops bl d ?o1 (new_hops walk) ?res (uf_seen uf) = Inr (res, seen)" using Inr by (cases x) auto
        obtain r rs1 w1 where f: "forward draw_id (projr (build_a_query (last (un_chain res)) 0)) rs w = (r, rs1, w1)" by (metis prod.exhaust)
        show ?thesis using msg walk x f
          by (cases "build_a_query (last (un_chain res)) 0"; cases r) (simp_all add: step resolver_forward_def)
      qed
    qed
  qed
qed

lemma run_uncloak_loop:
  assumes "resolver_shape rs" "frame_ok (length (rs_adapters rs)) fr"
  shows "run_uncloak draw_id bl d uf fr rs w =
     (case run_forward fr rs w of
        (Inl _, rs', w') \<Rightarrow> (abort ''re-query failed'' (uf_result uf), rs', w')
      | (Inr f, rs', w') \<Rightarrow> uncloak_loop draw_id bl d (uf_etldp1 uf) (fwd_response f) (uf_result uf) (uf_seen uf) rs' w')"
  using assms
proof (induction draw_id bl d uf fr rs w rule: run_uncloak.induct)
  case (1 draw_id bl d uf fr rs w)
  obtain y rs1 w1 where y: "forward_exchange fr rs w = (y, rs1, w1)" by (metis prod.exhaust)
  note f = run_forward.simps [of fr rs w, unfolded y, simplified] and keep = forward_exchange_resolver [OF y]
  have shape: "resolver_shape rs1" using keep "1.prems"(1) by (simp add: resolver_shape_def)
  have IH: "run_uncloak draw_id bl d uf' fr' rs1 w' =
     (case run_forward fr' rs1 w' of
        (Inl _, rs', w') \<Rightarrow> (abort ''re-query failed'' (uf_result uf'), rs', w')
      | (Inr f, rs', w') \<Rightarrow> uncloak_loop draw_id bl d (uf_etldp1 uf') (fwd_response f) (uf_result uf') (uf_seen uf') rs' w')"
    if "uncloak_exchange draw_id bl d uf fr rs w = (Inr (uf', fr'), rs1, w')" for uf' fr' w'
    using "1.IH" [OF that [symmetric] refl refl refl shape] uncloak_exchange_next(2) [OF that] keep(1) by simp
  consider e where "y = Inl e" | fr' where "y = Inr (Inr fr')"
    | g r w2 where "y = Inr (Inl g)" "uncloak_continue draw_id bl d (fwd_response g) uf rs1 w1 = (Inl r, w2)"
    | g uf' fr' w2 where "y = Inr (Inl g)" "uncloak_continue draw_id bl d (fwd_response g) uf rs1 w1 = (Inr (uf', fr'), w2)"
    by (metis old.sum.exhaust prod.exhaust)
  then show ?case
  proof cases
    case 1
    then show ?thesis using f y by (simp add: run_uncloak.simps [of draw_id bl d uf fr rs w] uncloak_exchange_def)
  next
    case 2
    then have "uncloak_exchange draw_id bl d uf fr rs w = (Inr (uf, fr'), rs1, w1)" using y by (simp add: uncloak_exchange_def)
    then show ?thesis using f 2 IH by (simp add: run_uncloak.simps [of draw_id bl d uf fr rs w])
  next
    case 3
    then have "uncloak_exchange draw_id bl d uf fr rs w = (Inl r, rs1, w2)" using y by (simp add: uncloak_exchange_def)
    moreover have "uncloak_loop draw_id bl d (uf_etldp1 uf) (fwd_response g) (uf_result uf) (uf_seen uf) rs1 w1 = (r, rs1, w2)"
      using 3(2) by (auto simp: uncloak_loop_turn [of _ _ _ uf] uncloak_continue_def call_forward_def simp flip: call_forward_eq [OF shape]
        split: sum.splits prod.splits)
    ultimately show ?thesis using f 3 by (simp add: run_uncloak.simps [of draw_id bl d uf fr rs w])
  next
    case 4
    then have ex: "uncloak_exchange draw_id bl d uf fr rs w = (Inr (uf', fr'), rs1, w2)" using y by (simp add: uncloak_exchange_def)
    obtain req where t: "uncloak_turn bl d (fwd_response g) uf = Inr (req, uf')" "forward_begin draw_id req rs1 w1 = (Inr fr', w2)"
      using 4(2) by (auto simp: uncloak_continue_def split: sum.splits prod.splits)
    then have "forward draw_id req rs1 w1 = run_forward fr' rs1 w2" using call_forward_eq [OF shape, of draw_id req w1] by (simp add: call_forward_def)
    then show ?thesis using f 4(1) IH [OF ex] ex t(1) by (simp add: run_uncloak.simps [of draw_id bl d uf fr rs w] uncloak_loop_turn [of _ _ _ uf])
  qed
qed

lemma call_uncloak_eq:
  assumes "resolver_shape rs"
  shows "call_uncloak draw_id bl d qname resp rs w = uncloak draw_id bl d qname resp rs w"
proof -
  have u: "uncloak draw_id bl d qname resp rs w = uncloak_loop draw_id bl d (uf_etldp1 (uncloak_start qname)) resp
      (uf_result (uncloak_start qname)) (uf_seen (uncloak_start qname)) rs w" by (simp add: uncloak_def uncloak_start_def)
  show ?thesis unfolding u uncloak_loop_turn [of _ _ _ "uncloak_start qname"] call_uncloak_def uncloak_begin_def uncloak_continue_def
    using run_uncloak_loop [OF assms] forward_begin_frame(2) [of draw_id _ rs w]
    by (auto simp flip: call_forward_eq [OF assms] simp: call_forward_def split: sum.splits prod.splits)
qed

section \<open>What suspended coroutines keep\<close>

text \<open>
  Whatever runs in between, the frame of \<^verbatim>\<open>uncloak\<close> stands for a chain that started at the queried name and
  is clean so far, and every end of it is a verdict in order.
\<close>

definition uncloak_frame_ok :: "int \<Rightarrow> blocklist \<Rightarrow> string \<Rightarrow> uncloak_frame \<Rightarrow> bool" where
  "uncloak_frame_ok d bl orig uf \<longleftrightarrow> running d bl orig (uf_result uf) (uf_seen uf) \<and> uf_etldp1 uf = etld_plus_one orig"

definition verdict_ok :: "int \<Rightarrow> blocklist \<Rightarrow> string \<Rightarrow> uncloak_result \<Rightarrow> bool" where
  "verdict_ok d bl orig res \<longleftrightarrow> chain_ok d orig res \<and> outcome_ok bl res"

lemma uncloak_start_ok [simp]: "uncloak_frame_ok d bl orig (uncloak_start orig)"
  by (simp add: uncloak_frame_ok_def uncloak_start_def running_def chain_ok_def hops_clean_def crossings_def)

lemma requery_failed_ok: "uncloak_frame_ok d bl orig uf \<Longrightarrow> verdict_ok d bl orig (abort ''re-query failed'' (uf_result uf))"
  using abort_ok [of d bl orig "uf_result uf" "uf_seen uf" "''re-query failed''"]
  by (simp add: uncloak_frame_ok_def verdict_ok_def abort_reasons_def)

lemma uncloak_turn_ok:
  assumes "uncloak_frame_ok d bl orig uf"
  shows "case uncloak_turn bl d current uf of
      Inl res \<Rightarrow> verdict_ok d bl orig res \<and> (un_status res = UnClean \<longrightarrow> clean_response bl (last (un_chain (uf_result uf))) current)
    | Inr (req, uf') \<Rightarrow> uncloak_frame_ok d bl orig uf' \<and> clean_response bl (last (un_chain (uf_result uf))) current"
proof -
  have run: "running d bl orig (uf_result uf) (uf_seen uf)" and o1: "uf_etldp1 uf = etld_plus_one orig"
    using assms by (simp_all add: uncloak_frame_ok_def)
  have ab: "verdict_ok d bl orig (abort r res)" if "running d bl orig res seen" "r \<in> abort_reasons" for r res seen
    using abort_ok [OF that] by (simp add: verdict_ok_def)
  have bad: "un_status (abort r res) \<noteq> UnClean" for r res by (simp add: abort_def)
  note reasons = abort_reasons_def
  show ?thesis
  proof (cases "parse current")
    case (Inl e)
    then show ?thesis using ab [OF run] bad by (simp add: uncloak_turn_def reasons)
  next
    case msg: (Inr msg)
    show ?thesis
    proof (cases "walk_answers msg current (last (un_chain (uf_result uf)))")
      case (Inl e)
      then show ?thesis using msg ab [OF run] bad by (simp add: uncloak_turn_def reasons)
    next
      case walk: (Inr walk)
      note ph = process_hops_ok [OF run, of "new_hops walk"]
      show ?thesis
      proof (cases "process_hops bl d (etld_plus_one orig) (new_hops walk) (uf_result uf) (uf_seen uf)")
        case (Inl res)
        then show ?thesis using msg walk ph o1 process_hops_not_clean [OF Inl] by (simp add: uncloak_turn_def verdict_ok_def)
      next
        case (Inr x)
        obtain res seen where x: "process_hops bl d (etld_plus_one orig) (new_hops walk) (uf_result uf) (uf_seen uf) = Inr (res, seen)"
          using Inr by (cases x) auto
        then have r: "running d bl orig res seen" and clean: "clean_response bl (last (un_chain (uf_result uf))) current"
          using ph msg walk process_hops_clean [OF x] by (auto simp: clean_response_def)
        from r have "verdict_ok d bl orig (res\<lparr>un_status := UnClean\<rparr>)"
          by (simp add: verdict_ok_def running_def chain_ok_def outcome_ok_def)
        then show ?thesis using msg walk x o1 r clean ab [OF r] bad
          by (simp add: uncloak_turn_def uncloak_frame_ok_def reasons split: sum.split)
      qed
    qed
  qed
qed

lemma uncloak_continue_ok:
  assumes "uncloak_frame_ok d bl orig uf" "uncloak_continue draw_id bl d current uf rs w = (x, w')"
  shows "case x of
      Inl res \<Rightarrow> verdict_ok d bl orig res \<and> (un_status res = UnClean \<longrightarrow> clean_response bl (last (un_chain (uf_result uf))) current)
    | Inr (uf', fr) \<Rightarrow> uncloak_frame_ok d bl orig uf' \<and> clean_response bl (last (un_chain (uf_result uf))) current"
  using uncloak_turn_ok [OF assms(1), of current] assms(2) requery_failed_ok
  by (auto simp: uncloak_continue_def abort_def split: sum.splits prod.splits)

lemma uncloak_begin_ok:
  assumes "uncloak_begin draw_id bl d qname resp rs w = (x, w')"
  shows "case x of
      Inl res \<Rightarrow> verdict_ok d bl qname res \<and> (un_status res = UnClean \<longrightarrow> clean_response bl qname resp)
    | Inr (uf, fr) \<Rightarrow> uncloak_frame_ok d bl qname uf \<and> clean_response bl qname resp"
  using uncloak_continue_ok [OF uncloak_start_ok assms [unfolded uncloak_begin_def]]
  by (simp add: uncloak_start_def cong: sum.case_cong)

lemma uncloak_exchange_ok:
  assumes "uncloak_frame_ok d bl orig uf" "uncloak_exchange draw_id bl d uf fr rs w = (x, rs', w')"
  shows "case x of Inl res \<Rightarrow> verdict_ok d bl orig res | Inr (uf', fr') \<Rightarrow> uncloak_frame_ok d bl orig uf'"
proof -
  obtain y rs1 w1 where y: "forward_exchange fr rs w = (y, rs1, w1)" by (metis prod.exhaust)
  consider e where "y = Inl e" | g where "y = Inr (Inl g)" | fr' where "y = Inr (Inr fr')" by (metis old.sum.exhaust)
  then show ?thesis
  proof cases
    case 2
    obtain z w2 where z: "uncloak_continue draw_id bl d (fwd_response g) uf rs1 w1 = (z, w2)" by fastforce
    then have "x = z" using assms(2) y 2 by (simp add: uncloak_exchange_def)
    with uncloak_continue_ok [OF assms(1) z] show ?thesis by (auto split: sum.splits)
  qed (use assms y requery_failed_ok [OF assms(1)] in \<open>auto simp: uncloak_exchange_def\<close>)
qed

section \<open>Properties\<close>



end
