(* ===== verification/Text.thy ===== *)
theory Text
  imports Prelude
begin

text \<open>
  Pieces of the C++ standard library that work on text: \<^verbatim>\<open>string_view::find\<close> for a substring,
  \<^verbatim>\<open>std::from_chars\<close> for decimal numbers and the decimal output of an unsigned number, with the
  lemmas that say they are inverse to each other and that a search finds the first occurrence.
\<close>

lemma eq_char_of_iff: "c = char_of (n :: nat) \<longleftrightarrow> take_bit 8 n = of_char c"
  by (metis char_of_eq_iff)

section \<open>Substring search\<close>

fun find_sub :: "string \<Rightarrow> string \<Rightarrow> nat option" where
  "find_sub p [] = (if p = [] then Some 0 else None)"
| "find_sub p (c # s) = (if prefix p (c # s) then Some 0 else map_option Suc (find_sub p s))"

lemma find_sub_prefix: "find_sub p (p @ s) = Some 0"
  using prefixI [of "p @ s" p s] by (cases "p @ s") auto

text \<open>A text in which the first character of the pattern does not occur cannot hide a match.\<close>

lemma find_sub_skip:
  assumes "c \<notin> set a"
  shows "find_sub (c # p) (a @ b) = map_option (\<lambda>i. length a + i) (find_sub (c # p) b)"
  using assms
proof (induction a)
  case Nil
  then show ?case by (simp add: option.map_ident)
next
  case (Cons x a)
  then show ?case by (auto simp: option.map_comp comp_def)
qed

lemma find_sub_first: "c \<notin> set a \<Longrightarrow> find_sub (c # p) (a @ (c # p) @ b) = Some (length a)"
  using find_sub_skip [of c a p "(c # p) @ b"] find_sub_prefix [of "c # p" b] by simp

lemma find_sub_absent: "c \<notin> set a \<Longrightarrow> find_sub (c # p) a = None"
  using find_sub_skip [of c a p "[]"] by simp

lemma index_of_first: "c \<notin> set a \<Longrightarrow> index_of c (a @ c # b) = Some (length a)"
  by (induction a) auto

lemma find_char_first: "c \<notin> set a \<Longrightarrow> find_char c (a @ c # b) 0 = Some (length a)"
  by (simp add: find_char_def index_of_first)

section \<open>Decimal numbers\<close>

definition is_digit :: "char \<Rightarrow> bool" where
  [eval_simps]: "is_digit c \<longleftrightarrow> 48 \<le> (of_char c :: nat) \<and> (of_char c :: nat) \<le> 57"

definition digit_value :: "char \<Rightarrow> nat" where
  [eval_simps]: "digit_value c = of_char c - 48"

definition digit_char :: "nat \<Rightarrow> char" where
  [eval_simps]: "digit_char d = char_of (48 + d)"

definition digits_value :: "string \<Rightarrow> nat" where
  [eval_simps]: "digits_value s = foldl (\<lambda>n c. 10 * n + digit_value c) 0 s"

text \<open>
  \<open>from_chars_below bound s\<close> is \<^verbatim>\<open>std::from_chars\<close> into an unsigned type of \<open>bound\<close> values: the longest run of
  leading digits is read, what follows it is ignored, and no digit at all or a value out of range is
  an error.
\<close>

definition from_chars_below :: "nat \<Rightarrow> string \<Rightarrow> nat option" where
  [eval_simps]: "from_chars_below bound s =
     (let ds = takeWhile is_digit s in
      if ds = [] \<or> digits_value ds \<ge> bound then None else Some (digits_value ds))"

text \<open>Into a signed 32-bit \<^verbatim>\<open>int\<close>: a leading minus sign is taken too.\<close>

definition from_chars_int :: "string \<Rightarrow> int option" where
  [eval_simps]: "from_chars_int s =
     (if s \<noteq> [] \<and> hd s = CHR ''-'' then map_option (\<lambda>n. - int n) (from_chars_below (2 ^ 31 + 1) (tl s))
      else map_option int (from_chars_below (2 ^ 31) s))"

fun dec_string :: "nat \<Rightarrow> string" where
  "dec_string n = (if n < 10 then [digit_char n] else dec_string (n div 10) @ [digit_char (n mod 10)])"

declare dec_string.simps [simp del]

lemma digit_char_facts [simp]:
  assumes "d < 10"
  shows "is_digit (digit_char d)" "digit_value (digit_char d) = d" "digit_char d \<noteq> CHR ''-''"
proof -
  have "(of_char (digit_char d) :: nat) = 48 + d" using assms by (simp add: digit_char_def of_char_of)
  then show "is_digit (digit_char d)" "digit_value (digit_char d) = d" "digit_char d \<noteq> CHR ''-''"
    using assms by (auto simp: is_digit_def digit_value_def)
qed

lemma dec_string_digits: "list_all is_digit (dec_string n) \<and> dec_string n \<noteq> []"
proof (induction n rule: dec_string.induct)
  case (1 n)
  then show ?case by (subst (1 2) dec_string.simps) auto
qed

lemma dec_string_value [simp]: "digits_value (dec_string n) = n"
proof (induction n rule: dec_string.induct)
  case (1 n)
  show ?case
  proof (cases "n < 10")
    case True
    then show ?thesis by (simp add: dec_string.simps [of n] digits_value_def)
  next
    case False
    then show ?thesis using 1 by (simp add: dec_string.simps [of n] digits_value_def)
  qed
qed

lemma takeWhile_digits: "list_all is_digit s \<Longrightarrow> \<not> is_digit c \<Longrightarrow> takeWhile is_digit (s @ c # t) = s"
  by (induction s) auto

lemma from_chars_dec:
  assumes "n < bound" "t = [] \<or> \<not> is_digit (hd t)"
  shows "from_chars_below bound (dec_string n @ t) = Some n"
proof -
  have "takeWhile is_digit (dec_string n @ t) = dec_string n"
    using assms(2) dec_string_digits [of n] takeWhile_digits [of "dec_string n"]
    by (cases t) (auto simp: list_all_iff takeWhile_eq_all_conv)
  then show ?thesis using assms(1) dec_string_digits [of n] by (simp add: from_chars_below_def)
qed

lemma from_chars_int_dec:
  assumes "n < 2 ^ 31" "t = [] \<or> \<not> is_digit (hd t)"
  shows "from_chars_int (dec_string n @ t) = Some (int n)"
proof -
  obtain c s where cs: "dec_string n = c # s" using dec_string_digits [of n] by (cases "dec_string n") auto
  have "is_digit c" using dec_string_digits [of n] cs by simp
  then have "c \<noteq> CHR ''-''" by (auto simp: is_digit_def)
  then have "from_chars_int (dec_string n @ t) = map_option int (from_chars_below (2 ^ 31) (dec_string n @ t))"
    by (simp add: from_chars_int_def cs)
  then show ?thesis using from_chars_dec [OF assms] by simp
qed

lemma dec_string_chars: "c \<in> set (dec_string n) \<Longrightarrow> is_digit c"
  using dec_string_digits [of n] by (auto simp: list_all_iff)

text \<open>A signed number in decimal, as the output streams print it.\<close>

definition dec_int :: "int \<Rightarrow> string" where
  [eval_simps]: "dec_int i = (if i < 0 then ''-'' @ dec_string (nat (- i)) else dec_string (nat i))"

end
