(* ===== verification/QueryLog.thy ===== *)
theory QueryLog
  imports Wire Text
begin

text \<open>
  \<^verbatim>\<open>query_log.cpp\<close>: the JSON line of a query and the logger with its bounded queue and rotating file. Times
  are milliseconds since the epoch; the latency is kept as the text \<^verbatim>\<open>snprintf("%.3f")\<close> gives for it. The
  operations of the logger run under one mutex and are atomic steps; what the writer thread does
  between two waits is one such step. A file is its content, an output stream appends to it at once
  (buffering is not modelled), and \<open>log_env\<close> tells which calls on the outside succeed: the outside is
  asked at increasing ticks, so every answer may differ.
\<close>

section \<open>Definitions\<close>

subsection \<open>JSON lines\<close>

datatype log_action = Allow | Block | Uncloak | Cached | ServFail | Refuse | Suspicious

definition log_action_to_string :: "log_action \<Rightarrow> string" where
  [eval_simps]: "log_action_to_string a = (case a of
       Allow \<Rightarrow> ''allow'' | Block \<Rightarrow> ''block'' | Uncloak \<Rightarrow> ''uncloak'' | Cached \<Rightarrow> ''cached''
     | ServFail \<Rightarrow> ''servfail'' | Refuse \<Rightarrow> ''refuse'' | Suspicious \<Rightarrow> ''suspicious'')"

definition qtype_name :: "u16 \<Rightarrow> string" where
  [eval_simps]: "qtype_name qt =
     (if qt = dns_type_A then ''A''
      else if qt = dns_type_CNAME then ''CNAME''
      else if qt = dns_type_AAAA then ''AAAA''
      else if qt = dns_type_OPT then ''OPT''
      else if qt = 2 then ''NS''
      else if qt = 6 then ''SOA''
      else if qt = 12 then ''PTR''
      else if qt = 15 then ''MX''
      else if qt = 16 then ''TXT''
      else if qt = 33 then ''SRV''
      else if qt = 257 then ''CAA''
      else [])"

definition hex_digit :: "nat \<Rightarrow> char" where
  [eval_simps]: "hex_digit n = (if n < 10 then char_of (48 + n) else char_of (87 + n))"

text \<open>\<^verbatim>\<open>%0<w>x\<close> for a value of at most \<open>w\<close> hexadecimal digits.\<close>

primrec hex_pad :: "nat \<Rightarrow> nat \<Rightarrow> string" where
  "hex_pad 0 n = []"
| "hex_pad (Suc w) n = hex_pad w (n div 16) @ [hex_digit (n mod 16)]"

definition json_char :: "char \<Rightarrow> string" where
  [eval_simps]: "json_char c =
     (if c = CHR 0x22 then [CHR 0x5C, CHR 0x22]
      else if c = CHR 0x5C then [CHR 0x5C, CHR 0x5C]
      else if c = CHR 0x08 then [CHR 0x5C, CHR ''b'']
      else if c = CHR 0x0C then [CHR 0x5C, CHR ''f'']
      else if c = CHR 0x0A then [CHR 0x5C, CHR ''n'']
      else if c = CHR 0x0D then [CHR 0x5C, CHR ''r'']
      else if c = CHR 0x09 then [CHR 0x5C, CHR ''t'']
      else if (of_char c :: nat) < 0x20 then [CHR 0x5C, CHR ''u''] @ hex_pad 4 (of_char c)
      else [c])"

definition append_json_escaped :: "string \<Rightarrow> string \<Rightarrow> string" where
  [eval_simps]: "append_json_escaped out s = out @ concat (map json_char s)"

definition append_json_string :: "string \<Rightarrow> string \<Rightarrow> string" where
  [eval_simps]: "append_json_string out s = append_json_escaped (out @ [CHR 0x22]) s @ [CHR 0x22]"

text \<open>\<^verbatim>\<open>gmtime_r\<close>: the calendar date of a day counted from 1970-01-01, and the time of day.\<close>

record tm =
  tm_year :: nat
  tm_mon :: nat
  tm_mday :: nat
  tm_hour :: nat
  tm_min :: nat
  tm_sec :: nat

definition gmtime :: "nat \<Rightarrow> tm" where
  [eval_simps]: "gmtime secs =
     (let z = secs div 86400 + 719468; era = z div 146097; doe = z mod 146097;
          yoe = (doe - doe div 1460 + doe div 36524 - doe div 146096) div 365;
          doy = doe - (365 * yoe + yoe div 4 - yoe div 100);
          mp = (5 * doy + 2) div 153;
          mday = doy - (153 * mp + 2) div 5 + 1;
          mon = (if mp < 10 then mp + 3 else mp - 9);
          year = yoe + era * 400 + (if mon \<le> 2 then 1 else 0);
          rest = secs mod 86400 in
      \<lparr>tm_year = year, tm_mon = mon, tm_mday = mday, tm_hour = rest div 3600, tm_min = rest mod 3600 div 60, tm_sec = rest mod 60\<rparr>)"

text \<open>\<^verbatim>\<open>%0<w>d\<close>.\<close>

definition dec_pad :: "nat \<Rightarrow> nat \<Rightarrow> string" where
  [eval_simps]: "dec_pad w n = replicate (w - length (dec_string n)) (CHR ''0'') @ dec_string n"

definition append_timestamp :: "string \<Rightarrow> nat \<Rightarrow> string" where
  [eval_simps]: "append_timestamp out ts =
     (let tmv = gmtime (ts div 1000); ms = ts mod 1000 in
      out @ dec_pad 4 (tm_year tmv) @ ''-'' @ dec_pad 2 (tm_mon tmv) @ ''-'' @ dec_pad 2 (tm_mday tmv) @ ''T''
        @ dec_pad 2 (tm_hour tmv) @ '':'' @ dec_pad 2 (tm_min tmv) @ '':'' @ dec_pad 2 (tm_sec tmv) @ ''.'' @ dec_pad 3 ms @ ''Z'')"

definition fnv1a64 :: "string \<Rightarrow> 64 word" where
  [eval_simps]: "fnv1a64 s = foldl (\<lambda>h c. (h XOR ucast (char_byte c)) * 0x100000001b3) 0xcbf29ce484222325 s"

definition redact_client_id :: "string \<Rightarrow> string" where
  [eval_simps]: "redact_client_id client =
     (let h = fnv1a64 client in ''hash:'' @ hex_pad 8 (unat (ucast (drop_bit 32 h) :: u32)))"

record query_log =
  ql_ts :: nat
  ql_qname :: string
  ql_qtype :: u16
  ql_action :: log_action
  ql_rule :: string
  ql_cname_chain :: "string list"
  ql_upstream :: "string option"
  ql_latency :: string
  ql_client :: string
  ql_tls_ech_status :: "string option"

definition kQueryLogSchemaVersion :: nat where [eval_simps]: "kQueryLogSchemaVersion = 3"

text \<open>The loop over the CNAME chain, a comma before every element but the first.\<close>

fun append_chain :: "string \<Rightarrow> bool \<Rightarrow> string list \<Rightarrow> string" where
  "append_chain out first [] = out"
| "append_chain out first (h # hs) = append_chain (append_json_string (if first then out else out @ '','') h) False hs"

definition to_json_line :: "query_log \<Rightarrow> string" where
  [eval_simps]: "to_json_line r =
     (let out = ''{\"v\":'' @ dec_string kQueryLogSchemaVersion @ '',\"ts\":\"'';
          out = append_timestamp out (ql_ts r) @ ''\",\"qname\":'';
          out = append_json_string out (ql_qname r) @ '',\"qtype\":'';
          out = (if qtype_name (ql_qtype r) \<noteq> [] then append_json_string out (qtype_name (ql_qtype r))
                 else out @ dec_string (unat (ql_qtype r)));
          out = out @ '',\"action\":\"'' @ log_action_to_string (ql_action r) @ ''\",\"rule\":'';
          out = (if ql_rule r = [] then out @ ''null'' else append_json_string out (ql_rule r));
          out = append_chain (out @ '',\"cname_chain\":['') True (ql_cname_chain r);
          out = out @ ''],\"upstream\":'';
          out = (case ql_upstream r of Some u \<Rightarrow> append_json_string out u | None \<Rightarrow> out @ ''null'');
          out = out @ '',\"latency_ms\":'' @ ql_latency r @ '',\"client\":'';
          out = append_json_string out (ql_client r);
          out = (case ql_tls_ech_status r of Some e \<Rightarrow> append_json_string (out @ '',\"tls_ech_status\":'') e | None \<Rightarrow> out) in
      out @ ''}'')"

subsection \<open>The logger\<close>

record logger_config =
  lc_path :: string
  lc_async :: bool
  lc_queue_size :: nat
  lc_max_size_bytes :: nat
  lc_redact_client :: bool

record log_env =
  le_open_ok :: "nat \<Rightarrow> bool"
  le_rename_ok :: "nat \<Rightarrow> bool"
  le_write_ok :: "nat \<Rightarrow> bool"
  le_size_ok :: "nat \<Rightarrow> bool"
  le_clock :: "nat \<Rightarrow> nat"

record log_fs =
  fs_files :: "string \<Rightarrow> string option"
  fs_tick :: nat

text \<open>\<open>lg_stream\<close> is that \<^verbatim>\<open>!stream_\<close> is false; \<open>lg_writer\<close> that the writer thread was started.\<close>

record query_logger =
  lg_cfg :: logger_config
  lg_stream :: bool
  lg_bytes_written :: nat
  lg_queue :: "string list"
  lg_dropped :: nat
  lg_rotations :: nat
  lg_writer :: bool

definition open_append :: "log_env \<Rightarrow> string \<Rightarrow> log_fs \<Rightarrow> bool \<times> log_fs" where
  [eval_simps]: "open_append env path fs =
     (let fs' = fs\<lparr>fs_tick := fs_tick fs + 1\<rparr> in
      if le_open_ok env (fs_tick fs)
      then (True, fs'\<lparr>fs_files := (fs_files fs)(path := Some (case fs_files fs path of None \<Rightarrow> [] | Some c \<Rightarrow> c))\<rparr>)
      else (False, fs'))"

text \<open>\<^verbatim>\<open>fs::rename\<close> replaces an existing target.\<close>

definition rename_file :: "log_env \<Rightarrow> string \<Rightarrow> string \<Rightarrow> log_fs \<Rightarrow> bool \<times> log_fs" where
  [eval_simps]: "rename_file env old new fs =
     (let fs' = fs\<lparr>fs_tick := fs_tick fs + 1\<rparr> in
      if le_rename_ok env (fs_tick fs) \<and> fs_files fs old \<noteq> None
      then (True, fs'\<lparr>fs_files := (fs_files fs)(new := fs_files fs old, old := None)\<rparr>)
      else (False, fs'))"

definition append_file :: "log_env \<Rightarrow> string \<Rightarrow> string \<Rightarrow> log_fs \<Rightarrow> bool \<times> log_fs" where
  [eval_simps]: "append_file env path s fs =
     (let fs' = fs\<lparr>fs_tick := fs_tick fs + 1\<rparr> in
      if le_write_ok env (fs_tick fs)
      then (True, fs'\<lparr>fs_files := (fs_files fs)(path := Some ((case fs_files fs path of None \<Rightarrow> [] | Some c \<Rightarrow> c) @ s))\<rparr>)
      else (False, fs'))"

definition make_logger :: "log_env \<Rightarrow> logger_config \<Rightarrow> log_fs \<Rightarrow> query_logger \<times> log_fs" where
  [eval_simps]: "make_logger env c fs =
     (let lg = \<lparr>lg_cfg = c, lg_stream = True, lg_bytes_written = 0, lg_queue = [], lg_dropped = 0, lg_rotations = 0, lg_writer = False\<rparr> in
      if lc_path c = [] then (lg, fs)
      else case open_append env (lc_path c) fs of
        (False, fs1) \<Rightarrow> (lg\<lparr>lg_stream := False\<rparr>, fs1)
      | (True, fs1) \<Rightarrow>
          let sz = (case fs_files fs1 (lc_path c) of None \<Rightarrow> 0 | Some content \<Rightarrow> length content);
              lg = (if le_size_ok env (fs_tick fs1) then lg\<lparr>lg_bytes_written := sz\<rparr> else lg) in
          (lg\<lparr>lg_writer := lc_async c\<rparr>, fs1\<lparr>fs_tick := fs_tick fs1 + 1\<rparr>))"

definition rotated_path :: "string \<Rightarrow> nat \<Rightarrow> string" where
  [eval_simps]: "rotated_path path secs =
     (let tmv = gmtime secs in
      path @ ''.'' @ dec_pad 4 (tm_year tmv) @ dec_pad 2 (tm_mon tmv) @ dec_pad 2 (tm_mday tmv) @ ''T''
        @ dec_pad 2 (tm_hour tmv) @ dec_pad 2 (tm_min tmv) @ dec_pad 2 (tm_sec tmv) @ ''Z'')"

definition maybe_rotate :: "log_env \<Rightarrow> query_logger \<Rightarrow> log_fs \<Rightarrow> query_logger \<times> log_fs" where
  [eval_simps]: "maybe_rotate env lg fs =
     (if lc_max_size_bytes (lg_cfg lg) = 0 then (lg, fs)
      else if lg_bytes_written lg < lc_max_size_bytes (lg_cfg lg) then (lg, fs)
      else if \<not> lg_stream lg then (lg, fs)
      else
        let path = lc_path (lg_cfg lg);
            (_, fs1) = rename_file env path (rotated_path path (le_clock env (fs_tick fs))) fs in
        case open_append env path fs1 of
          (False, fs2) \<Rightarrow> (lg\<lparr>lg_stream := False, lg_bytes_written := 0\<rparr>, fs2)
        | (True, fs2) \<Rightarrow> (lg\<lparr>lg_bytes_written := 0, lg_rotations := lg_rotations lg + 1\<rparr>, fs2))"

definition write_one :: "log_env \<Rightarrow> string \<Rightarrow> query_logger \<Rightarrow> log_fs \<Rightarrow> query_logger \<times> log_fs" where
  [eval_simps]: "write_one env line lg fs =
     (if \<not> lg_stream lg then (lg, fs)
      else
        let (lg1, fs1) = maybe_rotate env lg fs in
        if \<not> lg_stream lg1 then (lg1, fs1)
        else
          let (ok, fs2) = append_file env (lc_path (lg_cfg lg1)) (line @ [CHR 0x0A]) fs1 in
          (lg1\<lparr>lg_stream := ok, lg_bytes_written := lg_bytes_written lg1 + (length line + 1)\<rparr>, fs2))"

definition log_query :: "log_env \<Rightarrow> query_log \<Rightarrow> query_logger \<Rightarrow> log_fs \<Rightarrow> query_logger \<times> log_fs" where
  [eval_simps]: "log_query env r lg fs =
     (if lc_path (lg_cfg lg) = [] then (lg, fs)
      else
        let r = (if lc_redact_client (lg_cfg lg) \<and> ql_client r \<noteq> [] then r\<lparr>ql_client := redact_client_id (ql_client r)\<rparr> else r);
            line = to_json_line r in
        if \<not> lc_async (lg_cfg lg) then write_one env line lg fs
        else if length (lg_queue lg) \<ge> lc_queue_size (lg_cfg lg) then (lg\<lparr>lg_dropped := lg_dropped lg + 1\<rparr>, fs)
        else (lg\<lparr>lg_queue := lg_queue lg @ [line]\<rparr>, fs))"

text \<open>The inner loop of the writer and of the destructor: write the queued lines from the front.\<close>

fun write_lines :: "log_env \<Rightarrow> string list \<Rightarrow> query_logger \<Rightarrow> log_fs \<Rightarrow> query_logger \<times> log_fs" where
  "write_lines env [] lg fs = (lg, fs)"
| "write_lines env (line # lines) lg fs = (let (lg1, fs1) = write_one env line lg fs in write_lines env lines lg1 fs1)"

definition drain :: "log_env \<Rightarrow> query_logger \<Rightarrow> log_fs \<Rightarrow> query_logger \<times> log_fs" where
  [eval_simps]: "drain env lg fs = write_lines env (lg_queue lg) (lg\<lparr>lg_queue := []\<rparr>) fs"

text \<open>
  \<^verbatim>\<open>flush\<close> waits until the queue is empty, which only the writer thread makes it: \<open>None\<close> is waiting forever.
\<close>

definition flush :: "log_env \<Rightarrow> query_logger \<Rightarrow> log_fs \<Rightarrow> (query_logger \<times> log_fs) option" where
  [eval_simps]: "flush env lg fs =
     (if lg_queue lg = [] then Some (lg, fs)
      else if lg_writer lg then Some (drain env lg fs)
      else None)"

definition destroy_logger :: "log_env \<Rightarrow> query_logger \<Rightarrow> log_fs \<Rightarrow> query_logger \<times> log_fs" where
  [eval_simps]: "destroy_logger env lg fs =
     (let (lg, fs) = (if lg_writer lg then drain env lg fs else (lg, fs)) in
      drain env (lg\<lparr>lg_writer := False\<rparr>) fs)"

definition dropped_count :: "query_logger \<Rightarrow> nat" where [eval_simps]: "dropped_count lg = lg_dropped lg"
definition rotated_count :: "query_logger \<Rightarrow> nat" where [eval_simps]: "rotated_count lg = lg_rotations lg"

section \<open>Reading a line back\<close>

text \<open>A reader for JSON strings and for the lines the logger writes, as a consumer of the file has one.\<close>

definition hex_value :: "char \<Rightarrow> nat" where
  "hex_value c = (let n = of_char c in if n < 58 then n - 48 else n - 87)"

definition json_unescape :: "char \<Rightarrow> char option" where
  "json_unescape e = map_of [(CHR 0x22, CHR 0x22), (CHR 0x5C, CHR 0x5C), (CHR ''b'', CHR 0x08), (CHR ''f'', CHR 0x0C),
     (CHR ''n'', CHR 0x0A), (CHR ''r'', CHR 0x0D), (CHR ''t'', CHR 0x09)] e"

fun read_chars :: "string \<Rightarrow> (string \<times> string) option" where
  "read_chars [] = None"
| "read_chars (c # cs) =
     (if c = CHR 0x22 then Some ([], cs)
      else if c = CHR 0x5C then
        (case cs of
           [] \<Rightarrow> None
         | e # r \<Rightarrow>
             if e = CHR ''u'' then
               (case r of
                  h1 # h2 # h3 # h4 # r' \<Rightarrow>
                    map_option (apfst (Cons (char_of (4096 * hex_value h1 + 256 * hex_value h2 + 16 * hex_value h3 + hex_value h4)))) (read_chars r')
                | _ \<Rightarrow> None)
             else (case json_unescape e of None \<Rightarrow> None | Some d \<Rightarrow> map_option (apfst (Cons d)) (read_chars r)))
      else map_option (apfst (Cons c)) (read_chars cs))"

abbreviation json_text :: "string \<Rightarrow> string" where
  "json_text s \<equiv> CHR 0x22 # concat (map json_char s) @ [CHR 0x22]"

lemma append_json_string_eq: "append_json_string out s = out @ json_text s"
  by (simp add: append_json_string_def append_json_escaped_def)

lemma hex_digit_value: "n < 16 \<Longrightarrow> hex_value (hex_digit n) = n"
  by (auto simp: hex_value_def hex_digit_def of_char_of Let_def)

lemma read_chars_hex:
  assumes "(of_char c :: nat) < 0x20"
  shows "read_chars ([CHR 0x5C, CHR ''u''] @ hex_pad 4 (of_char c) @ rest) = map_option (apfst (Cons c)) (read_chars rest)"
proof -
  let ?n = "of_char c :: nat"
  have hex: "hex_pad 4 ?n = [hex_digit 0, hex_digit 0, hex_digit (?n div 16), hex_digit (?n mod 16)]"
  proof -
    have four: "(4 :: nat) = Suc (Suc (Suc (Suc 0)))" by simp
    have d: "?n div 16 < 16" "?n div 16 div 16 = 0" using assms by (auto simp: div_mult2_eq [symmetric])
    show ?thesis unfolding four hex_pad.simps d(2) using d(1) by simp
  qed
  have "16 * (?n div 16) + ?n mod 16 = ?n" by simp
  then have "char_of (16 * (?n div 16) + ?n mod 16) = c" by simp
  moreover have "?n div 16 < 16" "?n mod 16 < 16" using assms by auto
  ultimately show ?thesis unfolding hex by (simp add: hex_digit_value)
qed

lemma read_chars_json_char: "read_chars (json_char c @ rest) = map_option (apfst (Cons c)) (read_chars rest)"
proof -
  consider "c = CHR 0x22" | "c = CHR 0x5C" | "c = CHR 0x08" | "c = CHR 0x0C" | "c = CHR 0x0A" | "c = CHR 0x0D" | "c = CHR 0x09"
    | "c \<notin> {CHR 0x22, CHR 0x5C, CHR 0x08, CHR 0x0C, CHR 0x0A, CHR 0x0D, CHR 0x09}" by blast
  then show ?thesis
  proof cases
    case 8
    then show ?thesis using read_chars_hex [of c rest]
      by (cases "(of_char c :: nat) < 0x20") (simp_all add: json_char_def)
  qed (simp_all add: json_char_def json_unescape_def)
qed

lemma read_chars_text: "read_chars (concat (map json_char s) @ CHR 0x22 # rest) = Some (s, rest)"
  by (induction s) (simp_all add: read_chars_json_char)

lemma read_chars_shorter: "read_chars s = Some (t, rest) \<Longrightarrow> length rest < length s"
proof (induction s arbitrary: t rest rule: length_induct)
  case (1 s)
  then have IH: "\<And>s' u n. read_chars s' = Some (u, rest) \<Longrightarrow> length s' < length s \<Longrightarrow> length s' \<le> n \<Longrightarrow> length rest < n"
    by (meson order_less_le_trans)
  show ?case
  proof (cases s)
    case (Cons c cs)
    with "1.prems" show ?thesis
      by (auto split: if_splits list.splits option.splits) (rule IH, assumption, simp_all)+
  qed (use "1.prems" in simp)
qed

definition expect :: "string \<Rightarrow> string \<Rightarrow> string option" where
  "expect lit s = (if prefix lit s then Some (drop (length lit) s) else None)"

lemma expect_append [simp]: "expect lit (lit @ s) = Some s"
  by (simp add: expect_def)

function read_items :: "string \<Rightarrow> (string list \<times> string) option" where
  "read_items s =
     (case expect [CHR 0x22] s of
        None \<Rightarrow> None
      | Some s1 \<Rightarrow>
          (case read_chars s1 of
             None \<Rightarrow> None
           | Some (item, s2) \<Rightarrow>
               if prefix '','' s2 then map_option (apfst (Cons item)) (read_items (tl s2)) else Some ([item], s2)))"
  by pat_completeness auto
termination
proof (relation "measure length")
  fix s s1 item s2 and p :: "string \<times> string"
  assume "expect [CHR 0x22] s = Some s1" "read_chars s1 = Some p" "(item, s2) = p" "prefix '','' s2"
  then have "length s1 < length s" "length s2 < length s1" "s2 \<noteq> []"
    by (auto simp: expect_def prefix_def split: if_splits dest: read_chars_shorter)
  then show "(tl s2, s) \<in> measure length" by (cases s2) auto
qed simp

declare read_items.simps [simp del]

definition read_list :: "string \<Rightarrow> (string list \<times> string) option" where
  "read_list s = (if prefix '']'' s then Some ([], s) else read_items s)"

definition read_nullable :: "string \<Rightarrow> (string option \<times> string) option" where
  "read_nullable s = (case expect ''null'' s of
       Some r \<Rightarrow> Some (None, r)
     | None \<Rightarrow> Option.bind (expect [CHR 0x22] s) (\<lambda>r. map_option (apfst Some) (read_chars r)))"

definition read_until_char :: "char \<Rightarrow> string \<Rightarrow> string \<times> string" where
  "read_until_char c s = (takeWhile (\<lambda>x. x \<noteq> c) s, dropWhile (\<lambda>x. x \<noteq> c) s)"

record log_view =
  lv_ts :: string
  lv_qname :: string
  lv_qtype :: string
  lv_action :: string
  lv_rule :: "string option"
  lv_chain :: "string list"
  lv_upstream :: "string option"
  lv_latency :: string
  lv_client :: string
  lv_ech :: "string option"

definition read_qtype :: "string \<Rightarrow> (string \<times> string) option" where
  "read_qtype s = (case expect [CHR 0x22] s of Some r \<Rightarrow> read_chars r | None \<Rightarrow> Some (takeWhile is_digit s, dropWhile is_digit s))"

definition read_ech :: "string \<Rightarrow> (string option \<times> string) option" where
  "read_ech s = (case expect '',\"tls_ech_status\":'' s of None \<Rightarrow> Some (None, s)
     | Some r \<Rightarrow> Option.bind (expect [CHR 0x22] r) (\<lambda>r. map_option (apfst Some) (read_chars r)))"

definition read_log_line :: "string \<Rightarrow> log_view option" where
  "read_log_line s =
     Option.bind (expect ''{\"v\":3,\"ts\":\"'' s) (\<lambda>s. let (ts, s) = read_until_char (CHR 0x22) s in
     Option.bind (expect ''\",\"qname\":\"'' s) (\<lambda>s. Option.bind (read_chars s) (\<lambda>(qname, s).
     Option.bind (expect '',\"qtype\":'' s) (\<lambda>s. Option.bind (read_qtype s) (\<lambda>(qtype, s).
     Option.bind (expect '',\"action\":\"'' s) (\<lambda>s. let (action, s) = read_until_char (CHR 0x22) s in
     Option.bind (expect ''\",\"rule\":'' s) (\<lambda>s. Option.bind (read_nullable s) (\<lambda>(rule, s).
     Option.bind (expect '',\"cname_chain\":['' s) (\<lambda>s. Option.bind (read_list s) (\<lambda>(chain, s).
     Option.bind (expect ''],\"upstream\":'' s) (\<lambda>s. Option.bind (read_nullable s) (\<lambda>(upstream, s).
     Option.bind (expect '',\"latency_ms\":'' s) (\<lambda>s. let (latency, s) = read_until_char (CHR '','') s in
     Option.bind (expect '',\"client\":\"'' s) (\<lambda>s. Option.bind (read_chars s) (\<lambda>(client, s).
     Option.bind (read_ech s) (\<lambda>(ech, s).
     if s = ''}'' then Some \<lparr>lv_ts = ts, lv_qname = qname, lv_qtype = qtype, lv_action = action, lv_rule = rule, lv_chain = chain,
       lv_upstream = upstream, lv_latency = latency, lv_client = client, lv_ech = ech\<rparr> else None))))))))))))))))"

text \<open>The text of the chain, and the pieces in the shape the reader meets them.\<close>

fun chain_text :: "string list \<Rightarrow> string" where
  "chain_text [] = []"
| "chain_text [h] = json_text h"
| "chain_text (h # h' # hs) = json_text h @ '','' @ chain_text (h' # hs)"

lemma append_chain_eq: "append_chain out True hs = out @ chain_text hs"
proof -
  have more: "append_chain out False hs = out @ concat (map (\<lambda>h. '','' @ json_text h) hs)" for out hs
    by (induction hs arbitrary: out) (simp_all add: append_json_string_eq)
  have tail: "chain_text (h # hs) = json_text h @ concat (map (\<lambda>h. '','' @ json_text h) hs)" for h hs
    by (induction hs arbitrary: h) simp_all
  show ?thesis
  proof (cases hs)
    case (Cons h hs')
    then show ?thesis using more [of "append_json_string out h" hs'] tail [of h hs'] by (simp add: append_json_string_eq)
  qed simp
qed

lemma read_items_text: "hs \<noteq> [] \<Longrightarrow> read_items (chain_text hs @ CHR '']'' # rest) = Some (hs, CHR '']'' # rest)"
proof (induction hs rule: chain_text.induct)
  case (2 h)
  then show ?case by (simp add: read_items.simps expect_def read_chars_text)
next
  case (3 h h' hs)
  have "read_items (chain_text (h # h' # hs) @ CHR '']'' # rest) = map_option (apfst (Cons h)) (read_items (chain_text (h' # hs) @ CHR '']'' # rest))"
    by (subst read_items.simps) (simp add: expect_def read_chars_text)
  then show ?case using 3 by simp
qed simp

lemma read_list_text: "read_list (chain_text hs @ CHR '']'' # rest) = Some (hs, CHR '']'' # rest)"
proof (cases "hs = []")
  case False
  then obtain r where "chain_text hs = CHR 0x22 # r" by (cases hs rule: chain_text.cases) auto
  then show ?thesis using read_items_text [OF False, of rest] by (simp add: read_list_def)
qed (simp add: read_list_def)

lemma read_nullable_text:
  "read_nullable (''null'' @ rest) = Some (None, rest)" "read_nullable (json_text s @ rest) = Some (Some s, rest)"
  by (simp_all add: read_nullable_def expect_def read_chars_text)

lemma read_until_char_text: "c \<notin> set a \<Longrightarrow> read_until_char c (a @ c # b) = (a, c # b)"
  by (auto simp: read_until_char_def takeWhile_append dropWhile_append takeWhile_eq_all_conv)

definition timestamp_text :: "nat \<Rightarrow> string" where
  "timestamp_text ts = append_timestamp [] ts"

lemma append_timestamp_eq: "append_timestamp out ts = out @ timestamp_text ts"
  by (simp add: timestamp_text_def append_timestamp_def Let_def)

lemma dec_pad_digits: "c \<in> set (dec_pad w n) \<Longrightarrow> is_digit c"
  using dec_string_chars [of c n] by (auto simp: dec_pad_def is_digit_def)

lemma timestamp_chars: "c \<in> set (timestamp_text ts) \<Longrightarrow> is_digit c \<or> c \<in> set ''-T:.Z''"
  by (auto simp: timestamp_text_def append_timestamp_def Let_def dest: dec_pad_digits)

lemma timestamp_no_quote: "CHR 0x22 \<notin> set (timestamp_text ts)"
  using timestamp_chars [of "CHR 0x22" ts] by (auto simp: is_digit_def)

lemma action_no_quote: "CHR 0x22 \<notin> set (log_action_to_string a)"
  by (cases a) (simp_all add: log_action_to_string_def)

definition qtype_text :: "u16 \<Rightarrow> string" where
  "qtype_text qt = (if qtype_name qt \<noteq> [] then qtype_name qt else dec_string (unat qt))"

text \<open>What a line says about a record.\<close>

definition view_of :: "query_log \<Rightarrow> log_view" where
  "view_of r = \<lparr>lv_ts = timestamp_text (ql_ts r), lv_qname = ql_qname r, lv_qtype = qtype_text (ql_qtype r),
     lv_action = log_action_to_string (ql_action r), lv_rule = (if ql_rule r = [] then None else Some (ql_rule r)),
     lv_chain = ql_cname_chain r, lv_upstream = ql_upstream r, lv_latency = ql_latency r, lv_client = ql_client r,
     lv_ech = ql_tls_ech_status r\<rparr>"

definition qtype_json :: "u16 \<Rightarrow> string" where
  "qtype_json qt = (if qtype_name qt \<noteq> [] then json_text (qtype_name qt) else dec_string (unat qt))"

definition nullable_json :: "string option \<Rightarrow> string" where
  "nullable_json v = (case v of None \<Rightarrow> ''null'' | Some s \<Rightarrow> json_text s)"

definition ech_json :: "string option \<Rightarrow> string" where
  "ech_json v = (case v of None \<Rightarrow> [] | Some s \<Rightarrow> '',\"tls_ech_status\":'' @ json_text s)"

lemma to_json_line_text:
  "to_json_line r = ''{\"v\":3,\"ts\":\"'' @ timestamp_text (ql_ts r) @ ''\",\"qname\":'' @ json_text (ql_qname r) @ '',\"qtype\":'' @ qtype_json (ql_qtype r)
     @ '',\"action\":\"'' @ log_action_to_string (ql_action r) @ ''\",\"rule\":'' @ nullable_json (lv_rule (view_of r))
     @ '',\"cname_chain\":['' @ chain_text (ql_cname_chain r) @ ''],\"upstream\":'' @ nullable_json (ql_upstream r)
     @ '',\"latency_ms\":'' @ ql_latency r @ '',\"client\":'' @ json_text (ql_client r) @ ech_json (ql_tls_ech_status r) @ ''}''"
proof -
  have three: "dec_string kQueryLogSchemaVersion = ''3''"
    by (simp add: kQueryLogSchemaVersion_def dec_string.simps digit_char_def char_of_eq_iff)
  show ?thesis
    by (simp add: to_json_line_def three append_timestamp_eq append_json_string_eq append_chain_eq view_of_def nullable_json_def
        qtype_json_def ech_json_def Let_def split: option.split)
qed

lemma read_qtype_json: "read_qtype (qtype_json qt @ '','' @ rest) = Some (qtype_text qt, '','' @ rest)"
proof (cases "qtype_name qt = []")
  case True
  let ?d = "dec_string (unat qt)"
  have dig: "list_all is_digit ?d" "?d \<noteq> []" using dec_string_digits [of "unat qt"] by auto
  then have "expect [CHR 0x22] (?d @ CHR '','' # rest) = None"
    by (cases ?d) (auto simp: expect_def is_digit_def)
  moreover have "takeWhile is_digit (?d @ CHR '','' # rest) = ?d" using dig(1) by (intro takeWhile_digits) (simp_all add: is_digit_def)
  moreover have "dropWhile is_digit (?d @ CHR '','' # rest) = CHR '','' # rest"
    using dig(1) by (subst dropWhile_append2) (auto simp: list_all_iff is_digit_def)
  ultimately show ?thesis using True by (simp add: read_qtype_def qtype_json_def qtype_text_def)
next
  case False
  then show ?thesis by (simp add: read_qtype_def qtype_json_def qtype_text_def expect_def read_chars_text)
qed

lemma read_nullable_json: "read_nullable (nullable_json v @ '','' @ rest) = Some (v, '','' @ rest)"
  using read_nullable_text [where rest = "'','' @ rest"] by (cases v) (simp_all add: nullable_json_def)

lemma read_ech_json: "read_ech (ech_json v @ ''}'') = Some (v, ''}'')"
  by (cases v) (simp_all add: read_ech_def ech_json_def expect_def read_chars_text)

section \<open>Properties of the lines\<close>

text \<open>C39: The log can be read back: a consumer that reads JSON strings recovers from a line every field the
  record had (the time as text, an empty rule as null), whatever bytes the query name, the rule, the
  chain, the upstream or the client contain. The only condition is that the rendered latency contains
  no comma.\<close>

theorem log_line_roundtrip:
  assumes "CHR '','' \<notin> set (ql_latency r)"
  shows "read_log_line (to_json_line r) = Some (view_of r)"
proof -
  have lat: "read_until_char (CHR '','') (ql_latency r @ CHR '','' # s) = (ql_latency r, CHR '','' # s)" for s
    using assms by (rule read_until_char_text)
  have ts: "read_until_char (CHR 0x22) (timestamp_text n @ CHR 0x22 # s) = (timestamp_text n, CHR 0x22 # s)" for n s
    using timestamp_no_quote by (rule read_until_char_text)
  have act: "read_until_char (CHR 0x22) (log_action_to_string a @ CHR 0x22 # s) = (log_action_to_string a, CHR 0x22 # s)" for a s
    using action_no_quote by (rule read_until_char_text)
  show ?thesis
    unfolding to_json_line_text read_log_line_def
    using read_qtype_json read_nullable_json read_list_text read_ech_json [of "ql_tls_ech_status r"]
    by (simp add: expect_def lat ts act read_chars_text view_of_def)
qed

definition sample_record :: query_log where
  [eval_simps]: "sample_record = \<lparr>ql_ts = 1777208445123, ql_qname = [CHR ''a'', CHR 0x22, CHR 0x0A, CHR 0x01], ql_qtype = 1, ql_action = Block,
     ql_rule = ''ads.example'', ql_cname_chain = [''a'', ''b''], ql_upstream = None, ql_latency = ''0.125'', ql_client = ''127.0.0.1:4242'',
     ql_tls_ech_status = Some ''success''\<rparr>"

theorem log_line_roundtrip_witness:
  "\<exists>v. read_log_line (to_json_line sample_record) = Some v \<and> lv_qname v = [CHR ''a'', CHR 0x22, CHR 0x0A, CHR 0x01] \<and> lv_ech v = Some ''success''"
  using log_line_roundtrip [of sample_record] by (simp add: sample_record_def view_of_def)

lemma gmtime_sample: "gmtime 1777208445 = \<lparr>tm_year = 2026, tm_mon = 4, tm_mday = 26, tm_hour = 13, tm_min = 0, tm_sec = 45\<rparr>"
  by (simp add: gmtime_def Let_def cong: let_weak_cong)

definition printable :: "string \<Rightarrow> bool" where
  "printable s \<longleftrightarrow> (\<forall>c \<in> set s. 0x20 \<le> (of_char c :: nat))"

lemma printable_simps [simp]:
  "printable []" "printable (c # s) \<longleftrightarrow> 0x20 \<le> (of_char c :: nat) \<and> printable s" "printable (s @ t) \<longleftrightarrow> printable s \<and> printable t"
  by (auto simp: printable_def)

lemma hex_digit_printable: "n < 16 \<Longrightarrow> 0x20 \<le> (of_char (hex_digit n) :: nat)"
  by (auto simp: hex_digit_def of_char_of)

lemma hex_pad_printable: "printable (hex_pad w n)"
  by (induction w arbitrary: n) (simp_all add: hex_digit_printable)

lemma json_char_printable: "printable (json_char c)"
  by (auto simp: json_char_def hex_pad_printable)

lemma json_text_printable: "printable (concat (map json_char s))"
  by (induction s) (simp_all add: json_char_printable)

lemma digits_printable: "printable (dec_string n)"
  by (auto simp: printable_def is_digit_def dest: dec_string_chars)

lemma timestamp_printable: "printable (timestamp_text n)"
  by (auto simp: printable_def is_digit_def dest!: timestamp_chars)

lemma chain_printable: "printable (chain_text hs)"
  by (induction hs rule: chain_text.induct) (simp_all add: json_text_printable)

lemma action_printable: "printable (log_action_to_string a)"
  by (cases a) (simp_all add: log_action_to_string_def)

text \<open>One record is one line: whatever bytes a client puts into a query name, the line contains no control
  character and in particular no line feed, so a client cannot forge or split log entries.\<close>

theorem log_line_single:
  assumes "printable (ql_latency r)"
  shows "printable (to_json_line r) \<and> CHR 0x0A \<notin> set (to_json_line r)"
proof -
  have "printable (to_json_line r)"
    unfolding to_json_line_text using assms
    by (auto simp: json_text_printable timestamp_printable chain_printable action_printable digits_printable
        qtype_json_def nullable_json_def ech_json_def split: option.split)
  then show ?thesis by (auto simp: printable_def)
qed

theorem log_line_single_witness: "CHR 0x0A \<notin> set (to_json_line sample_record)"
  using log_line_single [of sample_record] by (simp add: sample_record_def)

section \<open>The queue\<close>

text \<open>
  A bounded queue between producers and one consumer. A request is rendered to an item; an offer to a
  full queue is dropped and counted; the consumer takes the whole queue and emits its items, in order,
  at the end of its output.
\<close>

locale bounded_fifo =
  fixes valid :: "'s \<Rightarrow> bool" and offer :: "'r \<Rightarrow> 's \<Rightarrow> 's" and take_all :: "'s \<Rightarrow> 's"
    and render :: "'s \<Rightarrow> 'r \<Rightarrow> 'x" and emit :: "'x \<Rightarrow> 'b list"
    and content :: "'s \<Rightarrow> 'x list" and outp :: "'s \<Rightarrow> 'b list" and lost :: "'s \<Rightarrow> nat" and capacity :: "'s \<Rightarrow> nat"
  assumes offer_room: "valid s \<Longrightarrow> length (content s) < capacity s \<Longrightarrow> content (offer r s) = content s @ [render s r] \<and> lost (offer r s) = lost s"
    and offer_full: "valid s \<Longrightarrow> capacity s \<le> length (content s) \<Longrightarrow> content (offer r s) = content s \<and> lost (offer r s) = lost s + 1"
    and offer_frame: "valid s \<Longrightarrow> valid (offer r s) \<and> outp (offer r s) = outp s \<and> capacity (offer r s) = capacity s \<and> render (offer r s) = render s"
    and take_frame: "valid s \<Longrightarrow> valid (take_all s) \<and> lost (take_all s) = lost s \<and> capacity (take_all s) = capacity s \<and> render (take_all s) = render s"
    and take_outputut: "valid s \<Longrightarrow> content (take_all s) = [] \<and> outp (take_all s) = outp s @ concat (map emit (content s))"
begin

text \<open>An event is an offer (\<open>Some\<close>) or a burst of the consumer (\<open>None\<close>).\<close>

definition fifo_step :: "'s \<Rightarrow> 'r option \<Rightarrow> 's" where
  "fifo_step s ev = (case ev of Some r \<Rightarrow> offer r s | None \<Rightarrow> take_all s)"

definition fifo_ok :: "'b list \<Rightarrow> 'x list \<Rightarrow> 's \<Rightarrow> bool" where
  "fifo_ok base offered s \<longleftrightarrow> valid s \<and> length (content s) \<le> capacity s \<and>
     (\<exists>sent. outp s = base @ concat (map emit sent) \<and> subseq (sent @ content s) offered \<and>
        length sent + length (content s) + lost s = length offered)"

lemma fifo_ok_offer:
  assumes "fifo_ok base offered s"
  shows "fifo_ok base (offered @ [render s r]) (offer r s)"
proof -
  obtain sent where s: "valid s" "length (content s) \<le> capacity s" "outp s = base @ concat (map emit sent)"
      "subseq (sent @ content s) offered" "length sent + length (content s) + lost s = length offered"
    using assms by (auto simp: fifo_ok_def)
  show ?thesis
  proof (cases "length (content s) < capacity s")
    case True
    have "subseq ((sent @ content s) @ [render s r]) (offered @ [render s r])"
      using s(4) by (intro list_emb_append_mono) simp_all
    then show ?thesis using offer_room [OF s(1) True, of r] offer_frame [OF s(1), of r] s True
      by (auto simp: fifo_ok_def intro!: exI [of _ sent])
  next
    case False
    have "subseq (sent @ content s) (offered @ [render s r])"
      using s(4) by (meson list_emb_append2 list_emb_prefix subseq_order.order_trans)
    then show ?thesis using offer_full [OF s(1), of r] offer_frame [OF s(1), of r] s False
      by (auto simp: fifo_ok_def intro!: exI [of _ sent])
  qed
qed

lemma fifo_ok_take_all:
  assumes "fifo_ok base offered s"
  shows "fifo_ok base offered (take_all s)"
proof -
  obtain sent where s: "valid s" "outp s = base @ concat (map emit sent)"
      "subseq (sent @ content s) offered" "length sent + length (content s) + lost s = length offered"
    using assms by (auto simp: fifo_ok_def)
  then show ?thesis using take_frame [OF s(1)] take_outputut [OF s(1)]
    by (auto simp: fifo_ok_def intro!: exI [of _ "sent @ content s"])
qed

lemma fifo_step_render: "valid s \<Longrightarrow> valid (fifo_step s ev) \<and> render (fifo_step s ev) = render s"
  using offer_frame take_frame by (auto simp: fifo_step_def split: option.split)

lemma fifo_run_ok:
  assumes "fifo_ok base offered s"
  shows "fifo_ok base (offered @ map (render s) (List.map_filter id evs)) (foldl fifo_step s evs)"
  using assms
proof (induction evs arbitrary: offered s)
  case (Cons ev evs)
  have render: "render (fifo_step s ev) = render s"
    using Cons.prems fifo_step_render by (auto simp: fifo_ok_def)
  show ?case
  proof (cases ev)
    case None
    then show ?thesis using Cons.IH [OF fifo_ok_take_all [OF Cons.prems]] render
      by (simp add: List.map_filter_simps fifo_step_def)
  next
    case (Some r)
    then show ?thesis using Cons.IH [OF fifo_ok_offer [OF Cons.prems, of r]] render
      by (simp add: List.map_filter_simps fifo_step_def)
  qed
qed (simp add: List.map_filter_simps)

lemma fifo_start: "valid s \<Longrightarrow> content s = [] \<Longrightarrow> lost s = 0 \<Longrightarrow> fifo_ok (outp s) [] s"
  by (auto simp: fifo_ok_def intro!: exI [of _ "[]"])

end

text \<open>The asynchronous logger: a producer logs a record, the writer thread drains the queue.\<close>

definition log_event :: "log_env \<Rightarrow> query_logger \<times> log_fs \<Rightarrow> query_log option \<Rightarrow> query_logger \<times> log_fs" where
  "log_event env s ev = (case ev of Some r \<Rightarrow> log_query env r (fst s) (snd s) | None \<Rightarrow> drain env (fst s) (snd s))"

definition log_line :: "logger_config \<Rightarrow> query_log \<Rightarrow> string" where
  "log_line c r = to_json_line (if lc_redact_client c \<and> ql_client r \<noteq> [] then r\<lparr>ql_client := redact_client_id (ql_client r)\<rparr> else r)"

definition file_content :: "log_fs \<Rightarrow> string \<Rightarrow> string" where
  "file_content fs path = (case fs_files fs path of None \<Rightarrow> [] | Some content \<Rightarrow> content)"

abbreviation with_newline :: "string \<Rightarrow> string" where
  "with_newline line \<equiv> line @ [CHR 0x0A]"

definition plain_async :: "log_env \<Rightarrow> query_logger \<times> log_fs \<Rightarrow> bool" where
  "plain_async env s \<longleftrightarrow> (let c = lg_cfg (fst s) in lc_path c \<noteq> [] \<and> lc_async c \<and> lc_max_size_bytes c = 0 \<and> lg_stream (fst s) \<and> (\<forall>n. le_write_ok env n))"

lemma write_one_plain:
  assumes "lc_max_size_bytes (lg_cfg lg) = 0" "lg_stream lg" "\<forall>n. le_write_ok env n" "write_one env line lg fs = (lg', fs')"
  shows "lg' = lg\<lparr>lg_bytes_written := lg_bytes_written lg + (length line + 1)\<rparr>"
    and "file_content fs' (lc_path (lg_cfg lg)) = file_content fs (lc_path (lg_cfg lg)) @ with_newline line"
  using assms by (auto simp: write_one_def maybe_rotate_def append_file_def Let_def file_content_def)

lemma write_lines_plain:
  assumes "lc_max_size_bytes (lg_cfg lg) = 0" "lg_stream lg" "\<forall>n. le_write_ok env n" "write_lines env lines lg fs = (lg', fs')"
  shows "(\<exists>n. lg' = lg\<lparr>lg_bytes_written := n\<rparr>) \<and>
     file_content fs' (lc_path (lg_cfg lg)) = file_content fs (lc_path (lg_cfg lg)) @ concat (map with_newline lines)"
  using assms
proof (induction lines arbitrary: lg fs)
  case Nil
  then show ?case by (auto intro: exI [of _ "lg_bytes_written lg"])
next
  case (Cons line lines)
  obtain lg1 fs1 where one: "write_one env line lg fs = (lg1, fs1)" by fastforce
  note w = write_one_plain [OF Cons.prems(1-3) one]
  with Cons.prems one have rest: "write_lines env lines lg1 fs1 = (lg', fs')" by simp
  have "lc_max_size_bytes (lg_cfg lg1) = 0" "lg_stream lg1" using Cons.prems w(1) by simp_all
  from Cons.IH [OF this Cons.prems(3) rest] show ?case using w by auto
qed

lemma drain_plain:
  assumes "plain_async env (lg, fs)" "drain env lg fs = (lg', fs')"
  shows "(\<exists>n. lg' = lg\<lparr>lg_queue := [], lg_bytes_written := n\<rparr>) \<and>
     file_content fs' (lc_path (lg_cfg lg)) = file_content fs (lc_path (lg_cfg lg)) @ concat (map with_newline (lg_queue lg))"
  using write_lines_plain [of "lg\<lparr>lg_queue := []\<rparr>" env "lg_queue lg" fs lg' fs'] assms
  by (simp add: drain_def plain_async_def Let_def)

interpretation alog: bounded_fifo "plain_async env" "\<lambda>r s. log_query env r (fst s) (snd s)" "\<lambda>s. drain env (fst s) (snd s)"
  "\<lambda>s. log_line (lg_cfg (fst s))" with_newline "\<lambda>s. lg_queue (fst s)" "\<lambda>s. file_content (snd s) (lc_path (lg_cfg (fst s)))"
  "\<lambda>s. lg_dropped (fst s)" "\<lambda>s. lc_queue_size (lg_cfg (fst s))" for env
proof (unfold_locales, goal_cases)
  case (4 s)
  then show ?case using drain_plain [of env "fst s" "snd s"] by (cases "drain env (fst s) (snd s)") (auto simp: plain_async_def)
next
  case (5 s)
  then show ?case using drain_plain [of env "fst s" "snd s"] by (cases "drain env (fst s) (snd s)") auto
qed (auto simp: log_query_def log_line_def plain_async_def Let_def)

lemma alog_step: "alog.fifo_step env = log_event env"
  by (auto simp: alog.fifo_step_def log_event_def fun_eq_iff split: option.split)

text \<open>A logger from its constructor through any sequence of records and bursts, and then its destructor.\<close>

lemma async_log_run:
  assumes "lc_path c \<noteq> []" "lc_async c" "lc_max_size_bytes c = 0" "\<forall>n. le_write_ok env n" "le_open_ok env (fs_tick fs)"
    and "foldl (log_event env) (make_logger env c fs) evs = (lg, fs')"
  shows "plain_async env (lg, fs')" "lg_cfg lg = c" "length (lg_queue lg) \<le> lc_queue_size c"
    "\<exists>sent. file_content fs' (lc_path c) = file_content fs (lc_path c) @ concat (map with_newline sent) \<and>
        subseq (sent @ lg_queue lg) (map (log_line c) (List.map_filter id evs)) \<and>
        length sent + length (lg_queue lg) + dropped_count lg = length (List.map_filter id evs)"
proof -
  let ?s = "make_logger env c fs"
  have start: "plain_async env ?s" "lg_queue (fst ?s) = []" "lg_dropped (fst ?s) = 0" "lg_cfg (fst ?s) = c"
      "file_content (snd ?s) (lc_path c) = file_content fs (lc_path c)"
    using assms by (auto simp: make_logger_def open_append_def plain_async_def file_content_def Let_def)
  have cfg: "lg_cfg lg = c"
  proof -
    have "lg_cfg (fst (foldl (log_event env) s evs)) = lg_cfg (fst s)" if "plain_async env s" for s
      using that
    proof (induction evs arbitrary: s)
      case (Cons ev evs)
      have "plain_async env (log_event env s ev)" using alog.fifo_step_render [OF Cons.prems] by (simp add: alog_step)
      moreover have "lg_cfg (fst (log_event env s ev)) = lg_cfg (fst s)"
        using Cons.prems drain_plain [of env "fst s" "snd s"]
        by (cases "drain env (fst s) (snd s)") (auto simp: log_event_def log_query_def plain_async_def Let_def split: option.split)
      ultimately show ?case using Cons.IH by simp
    qed simp
    from this [OF start(1)] show ?thesis using assms(6) start(4) by simp
  qed
  have "alog.fifo_ok env (file_content fs (lc_path c)) [] ?s"
    using alog.fifo_start [OF start(1-3)] start(4,5) by simp
  note ok = alog.fifo_run_ok [OF this, of evs, unfolded alog_step alog.fifo_ok_def assms(6)]
  show "plain_async env (lg, fs')" "lg_cfg lg = c" "length (lg_queue lg) \<le> lc_queue_size c"
    "\<exists>sent. file_content fs' (lc_path c) = file_content fs (lc_path c) @ concat (map with_newline sent) \<and>
        subseq (sent @ lg_queue lg) (map (log_line c) (List.map_filter id evs)) \<and>
        length sent + length (lg_queue lg) + dropped_count lg = length (List.map_filter id evs)"
    using ok start(4) cfg by (simp_all add: dropped_count_def)
qed

lemma make_logger_content: "file_content (snd (make_logger env c fs)) path = file_content fs path"
  by (auto simp: make_logger_def open_append_def file_content_def Let_def)

lemma destroy_plain:
  assumes "plain_async env (lg, fs)" "destroy_logger env lg fs = (lg', fs')"
  shows "lg_queue lg' = []" "dropped_count lg' = dropped_count lg"
    "file_content fs' (lc_path (lg_cfg lg)) = file_content fs (lc_path (lg_cfg lg)) @ concat (map with_newline (lg_queue lg))"
proof -
  obtain lg1 fs1 where one: "(if lg_writer lg then drain env lg fs else (lg, fs)) = (lg1, fs1)" by fastforce
  then have first: "plain_async env (lg1, fs1)" "lg_cfg lg1 = lg_cfg lg" "lg_dropped lg1 = lg_dropped lg"
      "file_content fs1 (lc_path (lg_cfg lg)) @ concat (map with_newline (lg_queue lg1)) =
       file_content fs (lc_path (lg_cfg lg)) @ concat (map with_newline (lg_queue lg))"
    using drain_plain [OF assms(1)] assms(1) by (auto simp: plain_async_def split: if_splits)
  then have "plain_async env (lg1\<lparr>lg_writer := False\<rparr>, fs1)" by (simp add: plain_async_def)
  moreover have "drain env (lg1\<lparr>lg_writer := False\<rparr>) fs1 = (lg', fs')" using assms(2) one by (simp add: destroy_logger_def)
  ultimately show "lg_queue lg' = []" "dropped_count lg' = dropped_count lg"
    "file_content fs' (lc_path (lg_cfg lg)) = file_content fs (lc_path (lg_cfg lg)) @ concat (map with_newline (lg_queue lg))"
    using drain_plain [of env "lg1\<lparr>lg_writer := False\<rparr>" fs1 lg' fs'] first by (auto simp: dropped_count_def)
qed

text \<open>The asynchronous log loses nothing silently and reorders nothing. For every interleaving of logged
  queries and bursts of the writer thread, starting from the constructor, the log file is its old
  content followed by whole lines; these and the lines still queued are, in order, records that were
  logged; every record is on file, in the queue, or counted as dropped; and the queue never exceeds
  its configured size. (Rotation off, the file opens and its writes succeed.)\<close>

theorem async_log_fifo:
  assumes "lc_path c \<noteq> []" "lc_async c" "lc_max_size_bytes c = 0" "\<forall>n. le_write_ok env n" "le_open_ok env (fs_tick fs)"
    and "foldl (log_event env) (make_logger env c fs) evs = (lg, fs')"
  shows "length (lg_queue lg) \<le> lc_queue_size c \<and>
     (\<exists>sent. file_content fs' (lc_path c) = file_content fs (lc_path c) @ concat (map with_newline sent) \<and>
        subseq (sent @ lg_queue lg) (map (log_line c) (List.map_filter id evs)) \<and>
        length sent + length (lg_queue lg) + dropped_count lg = length (List.map_filter id evs))"
  using async_log_run(3,4) [OF assms] by blast

definition all_ok :: log_env where
  [eval_simps]: "all_ok = \<lparr>le_open_ok = \<lambda>_. True, le_rename_ok = \<lambda>_. True, le_write_ok = \<lambda>_. True, le_size_ok = \<lambda>_. True, le_clock = \<lambda>_. 1777208445\<rparr>"

definition empty_fs :: log_fs where
  [eval_simps]: "empty_fs = \<lparr>fs_files = Map.empty, fs_tick = 0\<rparr>"

definition sample_log_config :: logger_config where
  [eval_simps]: "sample_log_config = \<lparr>lc_path = ''q.jsonl'', lc_async = True, lc_queue_size = 1, lc_max_size_bytes = 0, lc_redact_client = False\<rparr>"

theorem async_log_fifo_witness:
  "\<exists>lg fs'. foldl (log_event all_ok) (make_logger all_ok sample_log_config empty_fs) [Some sample_record, None, Some sample_record] = (lg, fs') \<and>
     length (lg_queue lg) \<le> 1 \<and> (\<exists>sent. file_content fs' ''q.jsonl'' = concat (map with_newline sent) \<and> length sent + length (lg_queue lg) + dropped_count lg = 2)"
proof -
  obtain lg fs' where run: "foldl (log_event all_ok) (make_logger all_ok sample_log_config empty_fs) [Some sample_record, None, Some sample_record] = (lg, fs')"
    by fastforce
  have c: "lc_path sample_log_config = ''q.jsonl''" "lc_queue_size sample_log_config = 1" by (simp_all add: sample_log_config_def)
  have two: "length (List.map_filter id [Some sample_record, None, Some sample_record]) = 2" by (simp add: List.map_filter_simps)
  have "file_content empty_fs ''q.jsonl'' = []" by (simp add: file_content_def empty_fs_def)
  moreover have "lc_async sample_log_config" "lc_max_size_bytes sample_log_config = 0" "\<forall>n. le_write_ok all_ok n" "le_open_ok all_ok (fs_tick empty_fs)"
    by (simp_all add: sample_log_config_def all_ok_def)
  ultimately show ?thesis using async_log_fifo [of sample_log_config all_ok empty_fs, OF _ _ _ _ _ run] run c two by fastforce
qed

section \<open>Rotation\<close>

text \<open>What the logger keeps while it writes: the byte count is the size of the live file.\<close>

definition log_synced :: "query_logger \<Rightarrow> log_fs \<Rightarrow> bool" where
  "log_synced lg fs \<longleftrightarrow> lg_stream lg \<and> fs_files fs (lc_path (lg_cfg lg)) \<noteq> None \<and> lg_bytes_written lg = length (file_content fs (lc_path (lg_cfg lg)))"

definition outside_ok :: "log_env \<Rightarrow> bool" where
  "outside_ok env \<longleftrightarrow> (\<forall>n. le_open_ok env n \<and> le_rename_ok env n \<and> le_write_ok env n)"

lemma rotated_path_longer: "rotated_path path secs \<noteq> path"
  by (simp add: rotated_path_def Let_def)

text \<open>One write: a full file is moved aside as it is, and the line starts the next one.\<close>

lemma write_one_rotates:
  assumes "log_synced lg fs" "outside_ok env" "0 < lc_max_size_bytes (lg_cfg lg)" "write_one env line lg fs = (lg', fs')"
  defines "path \<equiv> lc_path (lg_cfg lg)"
  defines "aside \<equiv> rotated_path path (le_clock env (fs_tick fs))"
  shows "log_synced lg' fs' \<and> lg_cfg lg' = lg_cfg lg"
    and "length (file_content fs path) < lc_max_size_bytes (lg_cfg lg) \<Longrightarrow>
           fs_files fs' = (fs_files fs)(path \<mapsto> file_content fs path @ with_newline line) \<and> rotated_count lg' = rotated_count lg"
    and "lc_max_size_bytes (lg_cfg lg) \<le> length (file_content fs path) \<Longrightarrow>
           fs_files fs' = (fs_files fs)(aside \<mapsto> file_content fs path, path \<mapsto> with_newline line) \<and> rotated_count lg' = rotated_count lg + 1"
  using assms rotated_path_longer [of path "le_clock env (fs_tick fs)"]
  by (auto simp: log_synced_def outside_ok_def write_one_def maybe_rotate_def append_file_def rename_file_def open_append_def
      file_content_def rotated_count_def Let_def fun_eq_iff split: if_splits)

lemma write_one_bounded:
  assumes "log_synced lg fs" "outside_ok env" "0 < lc_max_size_bytes (lg_cfg lg)" "write_one env line lg fs = (lg', fs')"
  shows "length (file_content fs' (lc_path (lg_cfg lg))) \<le> lc_max_size_bytes (lg_cfg lg) + length line"
proof (cases "length (file_content fs (lc_path (lg_cfg lg))) < lc_max_size_bytes (lg_cfg lg)")
  case True
  then show ?thesis using write_one_rotates(2) [OF assms True] by (simp add: file_content_def)
next
  case False
  then show ?thesis using write_one_rotates(3) [OF assms] assms(3) by (simp add: file_content_def)
qed

text \<open>Rotation bounds the live log. As long as opening, renaming and writing succeed, after any burst of
  lines of at most \<open>L\<close> characters the byte count equals the size of the live file, and the live file is
  larger than the configured maximum by at most one line.\<close>

theorem log_rotation_bounded:
  assumes "log_synced lg fs" "outside_ok env" "0 < lc_max_size_bytes (lg_cfg lg)" "lines \<noteq> []"
    and "\<And>line. line \<in> set lines \<Longrightarrow> length line \<le> L"
    and "write_lines env lines lg fs = (lg', fs')"
  shows "log_synced lg' fs' \<and> length (file_content fs' (lc_path (lg_cfg lg))) \<le> lc_max_size_bytes (lg_cfg lg) + L"
  using assms
proof (induction lines arbitrary: lg fs)
  case (Cons line lines)
  obtain lg1 fs1 where one: "write_one env line lg fs = (lg1, fs1)" by fastforce
  note r = write_one_rotates(1) [OF Cons.prems(1-3) one] write_one_bounded [OF Cons.prems(1-3) one]
  have L: "length line \<le> L" using Cons.prems(5) by simp
  show ?case
  proof (cases "lines = []")
    case True
    then show ?thesis using Cons.prems(6) one r L by auto
  next
    case False
    have "write_lines env lines lg1 fs1 = (lg', fs')" using Cons.prems(6) one by simp
    moreover have "log_synced lg1 fs1" "0 < lc_max_size_bytes (lg_cfg lg1)" using r(1) Cons.prems(3) by simp_all
    ultimately show ?thesis using Cons.IH [OF _ Cons.prems(2) _ False, of lg1 fs1] Cons.prems(5) r(1) by simp
  qed
qed simp

definition rotating_logger :: query_logger where
  [eval_simps]: "rotating_logger = \<lparr>lg_cfg = sample_log_config\<lparr>lc_max_size_bytes := 3\<rparr>, lg_stream = True, lg_bytes_written = 0, lg_queue = [], lg_dropped = 0,
     lg_rotations = 0, lg_writer = True\<rparr>"

theorem log_rotation_bounded_witness:
  "\<exists>lg' fs'. write_lines all_ok [''ab'', ''cd'', ''ef''] rotating_logger (empty_fs\<lparr>fs_files := [''q.jsonl'' \<mapsto> []]\<rparr>) = (lg', fs') \<and>
     length (file_content fs' ''q.jsonl'') \<le> 5"
proof -
  obtain lg' fs' where run: "write_lines all_ok [''ab'', ''cd'', ''ef''] rotating_logger (empty_fs\<lparr>fs_files := [''q.jsonl'' \<mapsto> []]\<rparr>) = (lg', fs')"
    by fastforce
  have "log_synced rotating_logger (empty_fs\<lparr>fs_files := [''q.jsonl'' \<mapsto> []]\<rparr>)" "outside_ok all_ok"
      "0 < lc_max_size_bytes (lg_cfg rotating_logger)"
    by (simp_all add: log_synced_def outside_ok_def all_ok_def rotating_logger_def sample_log_config_def file_content_def)
  moreover have "length line \<le> 2" if "line \<in> set [''ab'', ''cd'', ''ef'']" for line :: string using that by auto
  moreover have "lc_path (lg_cfg rotating_logger) = ''q.jsonl''" "lc_max_size_bytes (lg_cfg rotating_logger) = 3"
    by (simp_all add: rotating_logger_def sample_log_config_def)
  ultimately have "length (file_content fs' ''q.jsonl'') \<le> 5"
    using log_rotation_bounded [OF _ _ _ _ _ run, of 2] by simp
  with run show ?thesis by blast
qed

text \<open>A logger whose file could not be opened accepts records for a writer that was never started: \<^verbatim>\<open>flush\<close> then
  waits forever, and the destructor drops what was queued.\<close>

theorem failed_open_queues:
  assumes "lc_path c \<noteq> []" "lc_async c" "0 < lc_queue_size c" "\<not> le_open_ok env (fs_tick fs)"
    and "make_logger env c fs = (lg, fs1)" "log_query env r lg fs1 = (lg2, fs2)"
  shows "lg_queue lg2 = [log_line c r] \<and> flush env lg2 fs2 = None \<and> fs_files (snd (destroy_logger env lg2 fs2)) = fs_files fs"
proof -
  have "lg_stream lg = False" "lg_queue lg = []" "lg_writer lg = False" "lg_cfg lg = c" "fs_files fs1 = fs_files fs"
    using assms by (auto simp: make_logger_def open_append_def Let_def)
  then show ?thesis using assms
    by (auto simp: log_query_def log_line_def flush_def destroy_logger_def drain_def write_one_def Let_def)
qed

definition no_open :: log_env where
  [eval_simps]: "no_open = all_ok\<lparr>le_open_ok := \<lambda>_. False\<rparr>"

theorem failed_open_queues_witness:
  "\<exists>lg fs1 lg2 fs2. make_logger no_open sample_log_config empty_fs = (lg, fs1) \<and> log_query no_open sample_record lg fs1 = (lg2, fs2) \<and> flush no_open lg2 fs2 = None"
proof -
  obtain lg fs1 where m: "make_logger no_open sample_log_config empty_fs = (lg, fs1)" by fastforce
  obtain lg2 fs2 where q: "log_query no_open sample_record lg fs1 = (lg2, fs2)" by fastforce
  have "lc_path sample_log_config \<noteq> []" "lc_async sample_log_config" "0 < lc_queue_size sample_log_config" "\<not> le_open_ok no_open (fs_tick empty_fs)"
    by (simp_all add: sample_log_config_def no_open_def)
  from failed_open_queues [OF this m q] m q show ?thesis by metis
qed

text \<open>
  A failed rename is reported as staying with the existing file, but counts as a rotation and resets the
  byte count, so the file grows by another maximum before the next attempt.
\<close>

lemma failed_rename_counts:
  assumes "log_synced lg fs" "\<forall>n. le_open_ok env n \<and> \<not> le_rename_ok env n"
    and "0 < lc_max_size_bytes (lg_cfg lg)" "lc_max_size_bytes (lg_cfg lg) \<le> lg_bytes_written lg"
    and "maybe_rotate env lg fs = (lg', fs')"
  shows "rotated_count lg' = rotated_count lg + 1 \<and> lg_bytes_written lg' = 0 \<and> fs_files fs' = fs_files fs"
  using assms by (auto simp: log_synced_def maybe_rotate_def rename_file_def open_append_def rotated_count_def Let_def fun_eq_iff)

text \<open>Two rotations within one second use the same name, and the second replaces the first file.\<close>

lemma same_second_rotation_overwrites:
  assumes "log_synced lg fs" "outside_ok env" "0 < lc_max_size_bytes (lg_cfg lg)"
    and "lc_max_size_bytes (lg_cfg lg) \<le> length (file_content fs (lc_path (lg_cfg lg)))"
    and "lc_max_size_bytes (lg_cfg lg) \<le> length line1 + 1"
    and "\<And>n. le_clock env n = now"
    and "write_lines env [line1, line2] lg fs = (lg', fs')"
  shows "fs_files fs' (rotated_path (lc_path (lg_cfg lg)) now) = Some (with_newline line1) \<and> rotated_count lg' = rotated_count lg + 2"
proof -
  let ?path = "lc_path (lg_cfg lg)"
  obtain lg1 fs1 where one: "write_one env line1 lg fs = (lg1, fs1)" by fastforce
  have two: "write_one env line2 lg1 fs1 = (lg', fs')" using assms(7) one by (auto split: prod.splits)
  note first = write_one_rotates [OF assms(1-3) one]
  then have live: "file_content fs1 ?path = with_newline line1" using assms(4) by (simp add: file_content_def)
  have "log_synced lg1 fs1" "0 < lc_max_size_bytes (lg_cfg lg1)" using first(1) assms(3) by simp_all
  from write_one_rotates(3) [OF this(1) assms(2) this(2) two] first(1,3) show ?thesis
    using assms(4-6) live rotated_path_longer [of ?path now] by simp
qed

end
