(* ===== verification/Handler.thy ===== *)
theory Handler
  imports Cache Coroutines QueryLog
begin

text \<open>
  \<^verbatim>\<open>server.cpp\<close>, the hot path: \<^verbatim>\<open>handle\<close> answers one query. The coroutine is cut at its awaits: \<open>handle_front\<close>
  runs up to the first one, a \<open>phase\<close> is what a suspended handler waits for, an exchange with an upstream
  of the resolver or of a re-query of the uncloaker or the sending of its reply, and \<open>resume\<close> carries it on
  to the next await; \<open>handle\<close> runs one handler to its end, and \<open>handler_step\<close> interleaves any number of
  them with the cache's sweeper and the log's writer thread. The state keeps the packets given to the
  socket, the records given to the logger and the lines written to \<^verbatim>\<open>std::cout\<close>. An insertion into a cache
  of size zero never returns: such a step has the result \<open>None\<close>.
\<close>

section \<open>Definitions\<close>

subsection \<open>Query types\<close>

definition kTypeA :: u16 where [eval_simps]: "kTypeA = 1"
definition kTypeAAAA :: u16 where [eval_simps]: "kTypeAAAA = 28"

definition is_address_qtype :: "u16 \<Rightarrow> bool" where
  [eval_simps]: "is_address_qtype q \<longleftrightarrow> q = kTypeA \<or> q = kTypeAAAA"

definition is_forwardable_qtype :: "u16 \<Rightarrow> bool" where
  [eval_simps]: "is_forwardable_qtype q \<longleftrightarrow>
     q = 1 \<or> q = 2 \<or> q = 5 \<or> q = 6 \<or> q = 12 \<or> q = 15 \<or> q = 16 \<or> q = 28 \<or> q = 33 \<or> q = 35 \<or> q = 43 \<or>
     q = 46 \<or> q = 47 \<or> q = 48 \<or> q = 64 \<or> q = 65 \<or> q = 257"

subsection \<open>State\<close>

text \<open>
  The outside of a handler: the clocks (nanoseconds of the steady clock, milliseconds of the wall clock),
  the text \<^verbatim>\<open>snprintf("%.3f")\<close> gives for a duration in nanoseconds taken as milliseconds, the random
  draws, the sleep of the jitter, the socket, and the text of a client's address.
\<close>

record ('f, 'w) handler_env =
  he_draw_id :: "'w \<Rightarrow> u16 \<times> 'w"
  he_steady :: "'w \<Rightarrow> int \<times> 'w"
  he_wall :: "'w \<Rightarrow> nat \<times> 'w"
  he_latency :: "int \<Rightarrow> string"
  he_dist :: "'w \<Rightarrow> int \<Rightarrow> int \<Rightarrow> int"
  he_sleep :: "int \<Rightarrow> 'w \<Rightarrow> 'w"
  he_send :: "bytes \<Rightarrow> 'f \<Rightarrow> 'w \<Rightarrow> unit result \<times> 'w"
  he_show :: "'f \<Rightarrow> string"
  he_log :: log_env

record ('f, 'w) server_state =
  sv_cache :: dns_cache
  sv_logger :: query_logger
  sv_fs :: log_fs
  sv_resolver :: "'w resolver"
  sv_uncloak_blocklist :: blocklist
  sv_max_depth :: int
  sv_sent :: "('f \<times> bytes) list"
  sv_logged :: "query_log list"
  sv_console :: "string list"
  sv_world :: 'w

record 'f request =
  rq_query :: bytes
  rq_from :: 'f
  rq_blocklist :: blocklist
  rq_t0 :: int
  rq_wallclock_start :: nat

definition start_request :: "('f, 'w) handler_env \<Rightarrow> bytes \<Rightarrow> 'f \<Rightarrow> blocklist \<Rightarrow> ('f, 'w) server_state \<Rightarrow> 'f request \<times> ('f, 'w) server_state" where
  [eval_simps]: "start_request env query_buf from bl_snapshot st =
     (let (t0, w) = he_steady env (sv_world st); (wall, w) = he_wall env w in
      (\<lparr>rq_query = query_buf, rq_from = from, rq_blocklist = bl_snapshot, rq_t0 = t0, rq_wallclock_start = wall\<rparr>, st\<lparr>sv_world := w\<rparr>))"

text \<open>One line on \<^verbatim>\<open>std::cout\<close>, up to its \<^verbatim>\<open>std::endl\<close>.\<close>

definition print_line :: "string \<Rightarrow> ('f, 'w) server_state \<Rightarrow> ('f, 'w) server_state" where
  [eval_simps]: "print_line line st = st\<lparr>sv_console := sv_console st @ [line]\<rparr>"

definition log_chain :: "string list \<Rightarrow> string" where
  [eval_simps]: "log_chain chain = '' (chain:'' @ concat (map (\<lambda>h. '' '' @ h) chain) @ '')''"

definition log_record :: "('f, 'w) handler_env \<Rightarrow> 'f request \<Rightarrow> log_action \<Rightarrow> string \<Rightarrow> u16 \<Rightarrow> string \<Rightarrow> string list \<Rightarrow> string option \<Rightarrow>
    ech_status option \<Rightarrow> ('f, 'w) server_state \<Rightarrow> ('f, 'w) server_state" where
  [eval_simps]: "log_record env rq action qname qtype rule chain upstream ech st =
     (let (now, w) = he_steady env (sv_world st);
          rec = \<lparr>ql_ts = rq_wallclock_start rq, ql_qname = qname, ql_qtype = qtype, ql_action = action, ql_rule = rule,
                 ql_cname_chain = chain, ql_upstream = upstream, ql_latency = he_latency env (now - rq_t0 rq),
                 ql_client = he_show env (rq_from rq),
                 ql_tls_ech_status = (case ech of None \<Rightarrow> None | Some e \<Rightarrow> if e \<noteq> NotTried then Some (ech_status_to_string e) else None)\<rparr>;
          (lg, fs) = log_query (he_log env) rec (sv_logger st) (sv_fs st) in
      st\<lparr>sv_logger := lg, sv_fs := fs, sv_logged := sv_logged st @ [rec], sv_world := w\<rparr>)"

text \<open>\<^verbatim>\<open>sock.async_send_to\<close>; \<open>Inl\<close> is the \<^verbatim>\<open>system_error\<close> it throws.\<close>

definition send_to :: "('f, 'w) handler_env \<Rightarrow> bytes \<Rightarrow> 'f \<Rightarrow> ('f, 'w) server_state \<Rightarrow> unit result \<times> ('f, 'w) server_state" where
  [eval_simps]: "send_to env response from st =
     (let (r, w) = he_send env response from (sv_world st) in (r, st\<lparr>sv_sent := sv_sent st @ [(from, response)], sv_world := w\<rparr>))"

text \<open>The outer \<^verbatim>\<open>catch (const exception& e)\<close>.\<close>

definition handler_error :: "exn \<Rightarrow> ('f, 'w) server_state \<Rightarrow> ('f, 'w) server_state" where
  [eval_simps]: "handler_error e st = print_line (''handler error: '' @ what e) st"

subsection \<open>One handler\<close>

datatype 'f phase =
    Replying "'f request" bytes
  | ReplyingCached "'f request" bytes string u16
  | Forwarding "'f request" dns_message fwd_frame
  | Uncloaking "'f request" dns_message forward_result uncloak_frame fwd_frame

definition msg_qname :: "dns_message \<Rightarrow> string" where
  [eval_simps]: "msg_qname msg = (if questions msg = [] then ''<no-question>'' else q_name (questions msg ! 0))"

definition msg_qtype :: "dns_message \<Rightarrow> u16" where
  [eval_simps]: "msg_qtype msg = (if questions msg = [] then 0 else q_type (questions msg ! 0))"

definition block_response :: "u16 \<Rightarrow> bytes \<Rightarrow> dns_message \<Rightarrow> bytes" where
  [eval_simps]: "block_response qtype query msg =
     (if qtype = kTypeA then build_block_a_response query msg
      else if qtype = kTypeAAAA then build_block_aaaa_response query msg
      else build_block_nodata_response query msg)"

text \<open>The inner \<^verbatim>\<open>catch (const exception& e)\<close>, up to the send behind it.\<close>

definition forward_failed :: "('f, 'w) handler_env \<Rightarrow> 'f request \<Rightarrow> dns_message \<Rightarrow> exn \<Rightarrow> ('f, 'w) server_state \<Rightarrow> 'f phase \<times> ('f, 'w) server_state" where
  [eval_simps]: "forward_failed env rq msg e st =
     (Replying rq (build_servfail_response (rq_query rq) msg),
      log_record env rq ServFail (msg_qname msg) (msg_qtype msg) (what e) [] None None
        (print_line (''servfail '' @ msg_qname msg @ ''  ('' @ what e @ '')'') st))"

text \<open>\<^verbatim>\<open>resolver.forward_with_source(query)\<close> up to its first exchange.\<close>

definition begin_forward :: "('f, 'w) handler_env \<Rightarrow> 'f request \<Rightarrow> dns_message \<Rightarrow> ('f, 'w) server_state \<Rightarrow> 'f phase \<times> ('f, 'w) server_state" where
  [eval_simps]: "begin_forward env rq msg st =
     (case forward_begin (he_draw_id env) (rq_query rq) (sv_resolver st) (sv_world st) of
        (Inl e, w) \<Rightarrow> forward_failed env rq msg e (st\<lparr>sv_world := w\<rparr>)
      | (Inr fr, w) \<Rightarrow> (Forwarding rq msg fr, st\<lparr>sv_world := w\<rparr>))"

definition handle_front :: "('f, 'w) handler_env \<Rightarrow> 'f request \<Rightarrow> ('f, 'w) server_state \<Rightarrow> 'f phase option \<times> ('f, 'w) server_state" where
  [eval_simps]: "handle_front env rq st =
     (case parse (rq_query rq) of
        Inl e \<Rightarrow> (None, print_line (''drop malformed from '' @ he_show env (rq_from rq) @ '': '' @ what e) st)
      | Inr msg \<Rightarrow>
          let query = rq_query rq; qname = msg_qname msg; qtype = msg_qtype msg in
          if length (questions msg) \<noteq> 1 \<or> \<not> is_forwardable_qtype qtype then
            (Some (Replying rq (build_refused_response query msg)),
             log_record env rq Refuse qname qtype [] [] None None
               (print_line (''refuse  '' @ qname @ ''  qtype='' @ dec_string (unat qtype)) st))
          else
            let hit = blocklist_match (rq_blocklist rq) qname in
            if blocked hit then
              (Some (Replying rq (block_response qtype query msg)),
               log_record env rq Block qname qtype (matched_rule hit) [] None None
                 (print_line (''block   '' @ qname @ ''  via '' @ matched_rule hit @ ''  qtype='' @ dec_string (unat qtype)) st))
            else
              case make_cache_key msg of
                None \<Rightarrow> apfst Some (begin_forward env rq msg st)
              | Some key \<Rightarrow>
                  let (now, w) = he_steady env (sv_world st);
                      (cached, c) = cache_lookup now key (hdr_id (msg_header msg)) (sv_cache st);
                      st = st\<lparr>sv_cache := c, sv_world := w\<rparr> in
                  case cached of
                    Some b \<Rightarrow> (Some (ReplyingCached rq b qname qtype), st)
                  | None \<Rightarrow> apfst Some (begin_forward env rq msg st))"

text \<open>The lambda \<^verbatim>\<open>try_cache_insert\<close>.\<close>

definition try_cache_insert :: "('f, 'w) handler_env \<Rightarrow> dns_message \<Rightarrow> bytes \<Rightarrow> ('f, 'w) server_state \<Rightarrow> ('f, 'w) server_state option" where
  [eval_simps]: "try_cache_insert env msg upstream_resp st =
     (case make_cache_key msg of
        None \<Rightarrow> Some st
      | Some key \<Rightarrow>
          (case parse upstream_resp of
             Inl _ \<Rightarrow> Some st
           | Inr resp_msg \<Rightarrow>
               let ttl = compute_cache_ttl resp_msg in
               if ttl > 0 then
                 let (now, w) = he_steady env (sv_world st) in
                 map_option (\<lambda>c. st\<lparr>sv_cache := c, sv_world := w\<rparr>) (cache_insert now key upstream_resp resp_msg ttl (sv_cache st))
               else Some st))"

definition finish_uncloak :: "('f, 'w) handler_env \<Rightarrow> 'f request \<Rightarrow> dns_message \<Rightarrow> forward_result \<Rightarrow> uncloak_result \<Rightarrow> ('f, 'w) server_state \<Rightarrow>
    ('f phase \<times> ('f, 'w) server_state) option" where
  [eval_simps]: "finish_uncloak env rq msg fwd result st =
     (let query = rq_query rq; qname = msg_qname msg; qtype = msg_qtype msg; upstream = Some (fwd_upstream fwd); ech = Some (fwd_ech_status fwd) in
      case un_status result of
        UnBlocked \<Rightarrow>
          Some (Replying rq (if qtype = kTypeAAAA then build_block_aaaa_response query msg else build_block_a_response query msg),
                log_record env rq Uncloak qname qtype (matched_rule (un_hit result)) (un_chain result) upstream ech
                  (print_line (''uncloak '' @ qname @ ''  via '' @ matched_rule (un_hit result) @ log_chain (un_chain result)) st))
      | UnAborted \<Rightarrow>
          Some (Replying rq (build_servfail_response query msg),
                log_record env rq ServFail qname qtype (abort_reason result) [] upstream ech
                  (print_line (''servfail '' @ qname @ ''  ('' @ abort_reason result @ '')'') st))
      | UnClean \<Rightarrow>
          map_option (\<lambda>st. (Replying rq (fwd_response fwd),
              if crossed_etldp1 result
              then log_record env rq Suspicious qname qtype (''etldp1-cross:'' @ crossed_to result) (un_chain result) upstream ech
                (print_line (''suspect '' @ qname @ ''  -> '' @ crossed_to result @ log_chain (un_chain result)) st)
              else log_record env rq Allow qname qtype [] (un_chain result) upstream ech
                (print_line (''forward '' @ qname @ (if length (un_chain result) > 1 then log_chain (un_chain result) else [])) st)))
            (try_cache_insert env msg (fwd_response fwd) st))"

text \<open>Where the uncloaker is when it next gives up control: at an exchange of a re-query, or done.\<close>

definition after_uncloak :: "('f, 'w) handler_env \<Rightarrow> 'f request \<Rightarrow> dns_message \<Rightarrow> forward_result \<Rightarrow> uncloak_result + (uncloak_frame \<times> fwd_frame) \<Rightarrow>
    ('f, 'w) server_state \<Rightarrow> ('f phase \<times> ('f, 'w) server_state) option" where
  [eval_simps]: "after_uncloak env rq msg fwd x st =
     (case x of
        Inl result \<Rightarrow> finish_uncloak env rq msg fwd result st
      | Inr (uf, fr) \<Rightarrow> Some (Uncloaking rq msg fwd uf fr, st))"

text \<open>The code behind \<^verbatim>\<open>forward_with_source\<close> once it has returned.\<close>

definition after_forward :: "('f, 'w) handler_env \<Rightarrow> 'f request \<Rightarrow> dns_message \<Rightarrow> forward_result \<Rightarrow> ('f, 'w) server_state \<Rightarrow>
    ('f phase \<times> ('f, 'w) server_state) option" where
  [eval_simps]: "after_forward env rq msg fwd st =
     (if is_address_qtype (msg_qtype msg) then
        (case uncloak_begin (he_draw_id env) (sv_uncloak_blocklist st) (sv_max_depth st) (msg_qname msg) (fwd_response fwd) (sv_resolver st) (sv_world st) of
           (x, w) \<Rightarrow> after_uncloak env rq msg fwd x (st\<lparr>sv_world := w\<rparr>))
      else map_option (\<lambda>st. (Replying rq (fwd_response fwd),
             log_record env rq Allow (msg_qname msg) (msg_qtype msg) [] [] (Some (fwd_upstream fwd)) (Some (fwd_ech_status fwd))
               (print_line (''forward '' @ msg_qname msg @ ''  qtype='' @ dec_string (unat (msg_qtype msg))) st)))
           (try_cache_insert env msg (fwd_response fwd) st))"

fun resume :: "('f, 'w) handler_env \<Rightarrow> 'f phase \<Rightarrow> ('f, 'w) server_state \<Rightarrow> ('f phase option \<times> ('f, 'w) server_state) option" where
  "resume env (Replying rq response) st =
     (case send_to env response (rq_from rq) st of
        (Inl e, st) \<Rightarrow> Some (None, handler_error e st)
      | (Inr _, st) \<Rightarrow> Some (None, st))"
| "resume env (ReplyingCached rq cached qname qtype) st =
     (let delay = apply_jitter (he_dist env (sv_world st)) (jitter_max (cache_cfg (sv_cache st))) in
      case send_to env cached (rq_from rq) (st\<lparr>sv_world := he_sleep env delay (sv_world st)\<rparr>) of
        (Inl e, st) \<Rightarrow> Some (None, handler_error e st)
      | (Inr _, st) \<Rightarrow> Some (None, log_record env rq Cached qname qtype [] [] None None (print_line (''cached  '' @ qname) st)))"
| "resume env (Forwarding rq msg fr) st =
     (case forward_exchange fr (sv_resolver st) (sv_world st) of
        (Inl e, rs, w) \<Rightarrow> Some (apfst Some (forward_failed env rq msg e (st\<lparr>sv_resolver := rs, sv_world := w\<rparr>)))
      | (Inr (Inl fwd), rs, w) \<Rightarrow> map_option (apfst Some) (after_forward env rq msg fwd (st\<lparr>sv_resolver := rs, sv_world := w\<rparr>))
      | (Inr (Inr fr'), rs, w) \<Rightarrow> Some (Some (Forwarding rq msg fr'), st\<lparr>sv_resolver := rs, sv_world := w\<rparr>))"
| "resume env (Uncloaking rq msg fwd uf fr) st =
     (case uncloak_exchange (he_draw_id env) (sv_uncloak_blocklist st) (sv_max_depth st) uf fr (sv_resolver st) (sv_world st) of
        (x, rs, w) \<Rightarrow> map_option (apfst Some) (after_uncloak env rq msg fwd x (st\<lparr>sv_resolver := rs, sv_world := w\<rparr>)))"

text \<open>What no step of a handler changes, whatever it is doing.\<close>

definition pinned :: "('f, 'w) server_state \<Rightarrow> blocklist \<times> int \<times> cache_config \<times> 'w adapter list \<times> resolver_config \<times> nat" where
  "pinned st = (sv_uncloak_blocklist st, sv_max_depth st, cache_cfg (sv_cache st), rs_adapters (sv_resolver st), rs_cfg (sv_resolver st),
     length (rs_counters (sv_resolver st)))"

lemma log_record_frame [simp]:
  "sv_cache (log_record env rq a qn qt r ch u e st) = sv_cache st"
  "sv_resolver (log_record env rq a qn qt r ch u e st) = sv_resolver st"
  "sv_uncloak_blocklist (log_record env rq a qn qt r ch u e st) = sv_uncloak_blocklist st"
  "sv_max_depth (log_record env rq a qn qt r ch u e st) = sv_max_depth st"
  "sv_sent (log_record env rq a qn qt r ch u e st) = sv_sent st"
  "sv_console (log_record env rq a qn qt r ch u e st) = sv_console st"
  by (simp_all add: log_record_def Let_def split: prod.split)

lemma print_line_frame [simp]:
  "sv_cache (print_line l st) = sv_cache st" "sv_resolver (print_line l st) = sv_resolver st"
  "sv_uncloak_blocklist (print_line l st) = sv_uncloak_blocklist st" "sv_max_depth (print_line l st) = sv_max_depth st"
  "sv_sent (print_line l st) = sv_sent st" "sv_logged (print_line l st) = sv_logged st" "sv_logger (print_line l st) = sv_logger st"
  "sv_fs (print_line l st) = sv_fs st" "sv_world (print_line l st) = sv_world st" "sv_console (print_line l st) = sv_console st @ [l]"
  by (simp_all add: print_line_def)

lemma send_to_frame:
  assumes "send_to env b f st = (r, st')"
  shows "sv_cache st' = sv_cache st" "sv_resolver st' = sv_resolver st" "sv_uncloak_blocklist st' = sv_uncloak_blocklist st"
    "sv_max_depth st' = sv_max_depth st" "sv_sent st' = sv_sent st @ [(f, b)]" "sv_logged st' = sv_logged st"
    "sv_console st' = sv_console st" "sv_logger st' = sv_logger st" "sv_fs st' = sv_fs st"
  using assms by (auto simp: send_to_def Let_def split: prod.splits)

lemma pinned_simps [simp]:
  "pinned (log_record env rq a qn qt r ch u e st) = pinned st" "pinned (print_line l st) = pinned st"
  "pinned (st\<lparr>sv_world := w\<rparr>) = pinned st"
  by (simp_all add: pinned_def)

lemma pinned_eq:
  assumes "pinned st' = pinned st"
  shows "sv_uncloak_blocklist st' = sv_uncloak_blocklist st" "sv_max_depth st' = sv_max_depth st" "cache_cfg (sv_cache st') = cache_cfg (sv_cache st)"
    "rs_adapters (sv_resolver st') = rs_adapters (sv_resolver st)" "rs_cfg (sv_resolver st') = rs_cfg (sv_resolver st)"
    "length (rs_counters (sv_resolver st')) = length (rs_counters (sv_resolver st))"
  using assms by (simp_all add: pinned_def)

lemma pinned_send: "send_to env b f st = (r, st') \<Longrightarrow> pinned st' = pinned st"
  using send_to_frame by (fastforce simp: pinned_def)

lemma pinned_exchange: "forward_exchange fr (sv_resolver st) w = (x, rs, w') \<Longrightarrow> pinned (st\<lparr>sv_resolver := rs\<rparr>) = pinned st"
  using forward_exchange_resolver by (fastforce simp: pinned_def)

lemma pinned_uncloak_exchange:
  "uncloak_exchange draw_id bl d uf fr (sv_resolver st) w = (x, rs, w') \<Longrightarrow> pinned (st\<lparr>sv_resolver := rs\<rparr>) = pinned st"
  using uncloak_exchange_resolver by (fastforce simp: pinned_def)

lemma pinned_cache: "cache_cfg c = cache_cfg (sv_cache st) \<Longrightarrow> pinned (st\<lparr>sv_cache := c\<rparr>) = pinned st"
  by (simp add: pinned_def)

lemma forward_failed_pinned [simp]: "pinned (snd (forward_failed env rq msg e st)) = pinned st"
  by (simp add: forward_failed_def)

lemma begin_forward_pinned [simp]: "pinned (snd (begin_forward env rq msg st)) = pinned st"
  by (simp add: begin_forward_def split: prod.split sum.split)

lemma cache_lookup_cfg: "cache_lookup now key i c = (r, c') \<Longrightarrow> cache_cfg c' = cache_cfg c"
  using cache_lookup_frame(1) [of now key i c] by simp

lemma front_pinned: "handle_front env rq st = (p, st') \<Longrightarrow> pinned st' = pinned st"
  by (auto simp: handle_front_def Let_def pinned_cache dest: cache_lookup_cfg split: sum.splits if_splits option.splits prod.splits)

lemma try_cache_insert_cases:
  assumes "try_cache_insert env msg b st = Some st'"
  obtains "st' = st"
  | key m now w c where "make_cache_key msg = Some key" "parse b = Inr m" "0 < compute_cache_ttl m" "he_steady env (sv_world st) = (now, w)"
      "cache_insert now key b m (compute_cache_ttl m) (sv_cache st) = Some c" "st' = st\<lparr>sv_cache := c, sv_world := w\<rparr>"
proof (cases "make_cache_key msg")
  case key: (Some key)
  show ?thesis
  proof (cases "parse b")
    case m: (Inr m)
    obtain now w where clock: "he_steady env (sv_world st) = (now, w)" by fastforce
    show ?thesis
    proof (cases "0 < compute_cache_ttl m")
      case True
      then obtain c where "cache_insert now key b m (compute_cache_ttl m) (sv_cache st) = Some c" "st' = st\<lparr>sv_cache := c, sv_world := w\<rparr>"
        using assms key m clock by (auto simp: try_cache_insert_def)
      with that(2) key m True clock show ?thesis by blast
    qed (use assms key m that(1) in \<open>simp add: try_cache_insert_def\<close>)
  qed (use assms key that(1) in \<open>simp add: try_cache_insert_def\<close>)
qed (use assms that(1) in \<open>simp add: try_cache_insert_def\<close>)

lemma try_cache_insert_frame:
  assumes "try_cache_insert env msg b st = Some st'"
  shows "pinned st' = pinned st" "sv_sent st' = sv_sent st" "sv_logged st' = sv_logged st" "sv_console st' = sv_console st"
    "sv_logger st' = sv_logger st" "sv_fs st' = sv_fs st"
  using assms by (cases rule: try_cache_insert_cases; simp add: pinned_cache cache_insert_cfg)+

lemma finish_uncloak_reply:
  assumes "finish_uncloak env rq msg fwd result st = Some (p, st')"
  shows "pinned st' = pinned st" "\<exists>b. p = Replying rq b"
proof -
  have "pinned st' = pinned st \<and> (\<exists>b. p = Replying rq b)"
  proof (cases "un_status result")
    case UnClean
    then obtain st1 where s: "try_cache_insert env msg (fwd_response fwd) st = Some st1"
      using assms by (cases "try_cache_insert env msg (fwd_response fwd) st") (simp_all add: finish_uncloak_def Let_def)
    show ?thesis using assms UnClean s try_cache_insert_frame(1) [OF s]
      by (cases "crossed_etldp1 result") (auto simp: finish_uncloak_def Let_def)
  qed (use assms in \<open>auto simp: finish_uncloak_def Let_def\<close>)
  then show "pinned st' = pinned st" "\<exists>b. p = Replying rq b" by simp_all
qed

lemma after_uncloak_cases:
  assumes "after_uncloak env rq msg fwd x st = Some (p, st')"
  obtains (Done) b where "p = Replying rq b" "pinned st' = pinned st"
  | (Waits) uf fr where "x = Inr (uf, fr)" "p = Uncloaking rq msg fwd uf fr" "st' = st"
proof (cases x)
  case (Inl result)
  then have "finish_uncloak env rq msg fwd result st = Some (p, st')" using assms by (simp add: after_uncloak_def)
  from finish_uncloak_reply [OF this] Done show ?thesis by blast
qed (use assms Waits in \<open>auto simp: after_uncloak_def\<close>)

lemma after_uncloak_pinned: "after_uncloak env rq msg fwd x st = Some (p, st') \<Longrightarrow> pinned st' = pinned st"
  by (erule after_uncloak_cases) simp_all

lemma after_forward_pinned:
  assumes "after_forward env rq msg fwd st = Some (p, st')"
  shows "pinned st' = pinned st"
  using assms
  by (auto simp: after_forward_def dest: after_uncloak_pinned dest!: try_cache_insert_frame(1) split: if_splits prod.splits)

lemma resume_pinned:
  assumes "resume env p st = Some (p', st')"
  shows "pinned st' = pinned st"
  using assms
proof (induction env p st rule: resume.induct)
  case (1 env rq response st)
  then show ?case using pinned_send by (force simp: handler_error_def split: prod.splits sum.splits)
next
  case (2 env rq cached qname qtype st)
  then show ?case using pinned_send by (force simp: handler_error_def Let_def split: prod.splits sum.splits)
next
  case (3 env rq msg fr st)
  obtain x rs w where x: "forward_exchange fr (sv_resolver st) (sv_world st) = (x, rs, w)" by (metis prod.exhaust)
  let ?st = "st\<lparr>sv_resolver := rs, sv_world := w\<rparr>"
  note pin = pinned_exchange [OF x]
  consider e where "x = Inl e" | fwd where "x = Inr (Inl fwd)" | fr' where "x = Inr (Inr fr')" by (metis old.sum.exhaust)
  then show ?case
  proof cases
    case 1
    then show ?thesis using 3 x pin forward_failed_pinned [of env rq msg e ?st] by auto
  next
    case 2
    then obtain q where "after_forward env rq msg fwd ?st = Some (q, st')" using 3 x by auto
    from after_forward_pinned [OF this] pin show ?thesis by simp
  next
    case 3
    then show ?thesis using \<open>resume env (Forwarding rq msg fr) st = Some (p', st')\<close> x pin by auto
  qed
next
  case (4 env rq msg fwd uf fr st)
  obtain x rs w where x: "uncloak_exchange (he_draw_id env) (sv_uncloak_blocklist st) (sv_max_depth st) uf fr (sv_resolver st) (sv_world st) = (x, rs, w)"
    by (metis prod.exhaust)
  obtain q where "after_uncloak env rq msg fwd x (st\<lparr>sv_resolver := rs, sv_world := w\<rparr>) = Some (q, st')" using 4 x by auto
  from after_uncloak_pinned [OF this] pinned_uncloak_exchange [OF x] show ?case by simp
qed

text \<open>
  A handler gets closer to its end at every resume: it replies rather than uncloaks, uncloaks rather than
  forwards, its CNAME chain grows towards the depth limit, or attempts are used up.
\<close>

fun phase_rank :: "'f phase \<Rightarrow> nat" where
  "phase_rank (Replying _ _) = 0"
| "phase_rank (ReplyingCached _ _ _ _) = 0"
| "phase_rank (Uncloaking _ _ _ _ _) = 1"
| "phase_rank (Forwarding _ _ _) = 2"

fun phase_chain :: "int \<Rightarrow> 'f phase \<Rightarrow> nat" where
  "phase_chain d (Uncloaking _ _ _ uf _) = chain_left d uf"
| "phase_chain d _ = 0"

fun phase_exchanges :: "nat \<Rightarrow> 'f phase \<Rightarrow> nat" where
  "phase_exchanges n (Forwarding _ _ fr) = exchanges_left n fr"
| "phase_exchanges n (Uncloaking _ _ _ _ fr) = exchanges_left n fr"
| "phase_exchanges n _ = 0"

abbreviation phase_order :: "(('f, 'w) handler_env \<times> 'f phase \<times> ('f, 'w) server_state) rel" where
  "phase_order \<equiv> measures [\<lambda>(env, p, st). phase_rank p, \<lambda>(env, p, st). phase_chain (sv_max_depth st) p,
     \<lambda>(env, p, st). phase_exchanges (length (rs_adapters (sv_resolver st))) p]"

lemma resume_decreases:
  assumes "resume env p st = Some (Some p', st')"
  shows "((env, p', st'), (env, p, st)) \<in> phase_order"
proof -
  note pin = pinned_eq [OF resume_pinned [OF assms]]
  show ?thesis
  proof (cases p)
    case (Replying rq b)
    then show ?thesis using assms by (auto split: prod.splits sum.splits)
  next
    case (ReplyingCached rq b qname qtype)
    then show ?thesis using assms by (auto simp: Let_def split: prod.splits sum.splits)
  next
    case (Forwarding rq msg fr)
    obtain x rs w where x: "forward_exchange fr (sv_resolver st) (sv_world st) = (x, rs, w)" by (metis prod.exhaust)
    consider "isl x" | fwd where "x = Inr (Inl fwd)" | fr' where "x = Inr (Inr fr')" by (metis old.sum.exhaust isl_def)
    then show ?thesis
    proof cases
      case 1
      then show ?thesis using assms Forwarding x by (auto simp: isl_def forward_failed_def)
    next
      case 2
      then have "after_forward env rq msg fwd (st\<lparr>sv_resolver := rs, sv_world := w\<rparr>) = Some (p', st')" using assms Forwarding x by auto
      then have "phase_rank p' \<le> 1" by (auto simp: after_forward_def elim: after_uncloak_cases split: if_splits prod.splits)
      then show ?thesis using Forwarding by simp
    next
      case 3
      then show ?thesis using assms Forwarding x forward_exchange_next(3) [of fr "sv_resolver st"] pin by auto
    qed
  next
    case (Uncloaking rq msg fwd uf fr)
    obtain x rs w where x: "uncloak_exchange (he_draw_id env) (sv_uncloak_blocklist st) (sv_max_depth st) uf fr (sv_resolver st) (sv_world st) = (x, rs, w)"
      by (metis prod.exhaust)
    then have "after_uncloak env rq msg fwd x (st\<lparr>sv_resolver := rs, sv_world := w\<rparr>) = Some (p', st')" using assms Uncloaking by auto
    then show ?thesis
    proof (cases rule: after_uncloak_cases)
      case (Waits uf' fr')
      then show ?thesis using uncloak_exchange_next(1) [of _ _ _ uf fr "sv_resolver st"] x Uncloaking pin by auto
    qed (use Uncloaking in auto)
  qed
qed

function run_phases :: "('f, 'w) handler_env \<Rightarrow> 'f phase \<Rightarrow> ('f, 'w) server_state \<Rightarrow> ('f, 'w) server_state option" where
  "run_phases env p st =
     (case resume env p st of
        None \<Rightarrow> None
      | Some (None, st') \<Rightarrow> Some st'
      | Some (Some p', st') \<Rightarrow> run_phases env p' st')"
  by pat_completeness auto
termination
  by (relation phase_order) (auto dest: resume_decreases simp del: in_measures)

declare run_phases.simps [simp del]

definition handle :: "('f, 'w) handler_env \<Rightarrow> bytes \<Rightarrow> 'f \<Rightarrow> blocklist \<Rightarrow> ('f, 'w) server_state \<Rightarrow> ('f, 'w) server_state option" where
  [eval_simps]: "handle env query_buf from bl_snapshot st =
     (let (rq, st) = start_request env query_buf from bl_snapshot st in
      case handle_front env rq st of
        (None, st) \<Rightarrow> Some st
      | (Some p, st) \<Rightarrow> run_phases env p st)"

subsection \<open>Many handlers\<close>

text \<open>
  The events of the running server. \<open>Receive\<close> is one turn of the loop of \<^verbatim>\<open>serve\<close> (the datagram is cut at
  the 4096 octets of its buffer; a failed receive has no effect and no event), with the snapshot
  \<^verbatim>\<open>blocklist_load\<close> gives at that moment; \<open>Resume i\<close> carries on the \<open>i\<close>-th suspended handler;
  \<open>Outside\<close> lets the outside world move on in any way and other parts of the program print.
\<close>

datatype 'f event = Receive bytes 'f blocklist | Resume nat | Sweep int | WriteLog | Outside

definition kReceiveBuffer :: nat where [eval_simps]: "kReceiveBuffer = 4096"

definition receive :: "('f, 'w) handler_env \<Rightarrow> bytes \<Rightarrow> 'f \<Rightarrow> blocklist \<Rightarrow> ('f, 'w) server_state \<Rightarrow> 'f phase option \<times> ('f, 'w) server_state" where
  [eval_simps]: "receive env buf from bl st =
     (let (rq, st) = start_request env (take kReceiveBuffer buf) from bl st in handle_front env rq st)"

abbreviation option_list :: "'a option \<Rightarrow> 'a list" where
  "option_list x \<equiv> case x of None \<Rightarrow> [] | Some y \<Rightarrow> [y]"

inductive handler_step :: "('f, 'w) handler_env \<Rightarrow> ('f, 'w) server_state \<times> 'f phase list \<Rightarrow> 'f event \<Rightarrow> ('f, 'w) server_state \<times> 'f phase list \<Rightarrow> bool"
  for env :: "('f, 'w) handler_env" where
  step_receive: "receive env buf from bl st = (p, st') \<Longrightarrow> handler_step env (st, ps) (Receive buf from bl) (st', ps @ option_list p)"
| step_resume: "i < length ps \<Longrightarrow> resume env (ps ! i) st = Some (p, st') \<Longrightarrow>
    handler_step env (st, ps) (Resume i) (st', take i ps @ option_list p @ drop (Suc i) ps)"
| step_cache_sweep: "sweep_expired now (sv_cache st) = (n, c) \<Longrightarrow> handler_step env (st, ps) (Sweep now) (st\<lparr>sv_cache := c\<rparr>, ps)"
| step_write_log: "drain (he_log env) (sv_logger st) (sv_fs st) = (lg, fs) \<Longrightarrow>
    handler_step env (st, ps) WriteLog (st\<lparr>sv_logger := lg, sv_fs := fs\<rparr>, ps)"
| step_outside: "handler_step env (st, ps) Outside (st\<lparr>sv_console := sv_console st @ lines, sv_world := w\<rparr>, ps)"

inductive_cases step_receiveE: "handler_step env (st, ps) (Receive buf from bl) m"
inductive_cases step_resumeE: "handler_step env (st, ps) (Resume i) m"
inductive_cases step_cache_sweepE: "handler_step env (st, ps) (Sweep now) m"
inductive_cases step_write_logE: "handler_step env (st, ps) WriteLog m"

section \<open>What the pieces of a handler keep\<close>

text \<open>A reply carries the id of the query.\<close>

definition echoes :: "bytes \<Rightarrow> bytes \<Rightarrow> bool" where
  "echoes query response \<longleftrightarrow> 12 \<le> length query \<and> 12 \<le> length response \<and> read_u16_be response 0 = read_u16_be query 0"

lemma parse_bounds:
  assumes "parse query = Inr m"
  shows "12 \<le> question_section_end m \<and> question_section_end m \<le> length query \<and> hdr_id (msg_header m) = read_u16_be query 0"
proof -
  obtain e where e: "parse_to query = Inr (m, e)" using assms by (auto simp: parse_eq_Inr)
  then have "parse_header query = Inr (msg_header m)" by (auto simp: parse_to_def)
  moreover have "msg_wf query m" using parse_to_wf [OF e] by auto
  ultimately show ?thesis by (simp add: msg_wf_def parse_header_eq_Inr header_of_flags_def kHeaderSize_def)
qed

lemma builders_echo:
  assumes "parse query = Inr m"
  shows "echoes query (build_refused_response query m)" "echoes query (build_servfail_response query m)"
    "echoes query (build_block_a_response query m)" "echoes query (build_block_aaaa_response query m)"
    "echoes query (build_block_nodata_response query m)" "echoes query (block_response qtype query m)"
  using parse_bounds [OF assms] builder_eq [of m query]
  by (auto simp: echoes_def block_response_def response_header_def read_u16_be_def nth_append)

text \<open>
  The response belongs to the question: it is a reply with exactly the question section \<open>qs\<close>, under
  another transaction id.
\<close>

definition answers_question :: "question list \<Rightarrow> bytes \<Rightarrow> bool" where
  "answers_question qs resp \<longleftrightarrow>
     (\<exists>reply mr i. resp = write_u16_be reply 0 i \<and> 12 \<le> length reply \<and> parse reply = Inr mr \<and> questions mr = qs)"

definition key_question :: "cache_key \<Rightarrow> question" where
  "key_question key = \<lparr>q_name = key_qname key, q_type = key_qtype key, q_class = key_qclass key\<rparr>"

definition vetted_entry :: "blocklist \<Rightarrow> cache_key \<Rightarrow> bytes \<Rightarrow> bool" where
  "vetted_entry bl key resp \<longleftrightarrow> is_forwardable_qtype (key_qtype key) \<and> answers_question [key_question key] resp \<and>
     (is_address_qtype (key_qtype key) \<longrightarrow> clean_response bl (key_qname key) resp)"

definition cache_vetted :: "blocklist \<Rightarrow> dns_cache \<Rightarrow> bool" where
  "cache_vetted bl c \<longleftrightarrow> (\<forall>key e. map_of (cmap c) key = Some e \<longrightarrow> vetted_entry bl key (entry_response e))"

definition server_ok :: "('f, 'w) server_state \<Rightarrow> bool" where
  "server_ok st \<longleftrightarrow> live_cache (sv_cache st) \<and> cache_vetted (sv_uncloak_blocklist st) (sv_cache st) \<and> resolver_shape (sv_resolver st)"

definition admitted :: "'f request \<Rightarrow> dns_message \<Rightarrow> bool" where
  "admitted rq msg \<longleftrightarrow> parse (rq_query rq) = Inr msg \<and> length (questions msg) = 1 \<and> is_forwardable_qtype (msg_qtype msg) \<and>
     \<not> blocked (blocklist_match (rq_blocklist rq) (msg_qname msg))"

text \<open>
  A suspended handler is in order: its reply is ready and carries the query's id, or it forwards an
  admitted query with the packet made from it, or it has an answer to the question whose CNAME hops are
  clean and asks for the last name of the chain. A frame that waits for an exchange waits for one of the
  resolver's adapters.
\<close>

definition waits_for :: "('f, 'w) server_state \<Rightarrow> bytes \<Rightarrow> fwd_frame \<Rightarrow> bool" where
  "waits_for st query fr \<longleftrightarrow> frame_ok (length (rs_adapters (sv_resolver st))) fr \<and> (\<exists>i. fr_job fr = job_of (sv_resolver st) query i)"

fun phase_ok :: "('f, 'w) server_state \<Rightarrow> 'f phase \<Rightarrow> bool" where
  "phase_ok st (Replying rq b) \<longleftrightarrow> echoes (rq_query rq) b"
| "phase_ok st (ReplyingCached rq b qname qtype) \<longleftrightarrow> echoes (rq_query rq) b \<and>
     (\<exists>msg. admitted rq msg \<and> qname = msg_qname msg \<and> qtype = msg_qtype msg)"
| "phase_ok st (Forwarding rq msg fr) \<longleftrightarrow> admitted rq msg \<and> waits_for st (rq_query rq) fr"
| "phase_ok st (Uncloaking rq msg fwd uf fr) \<longleftrightarrow> admitted rq msg \<and> is_address_qtype (msg_qtype msg) \<and> echoes (rq_query rq) (fwd_response fwd) \<and>
     answers_question (questions msg) (fwd_response fwd) \<and> clean_response (sv_uncloak_blocklist st) (msg_qname msg) (fwd_response fwd) \<and>
     uncloak_frame_ok (sv_max_depth st) (sv_uncloak_blocklist st) (msg_qname msg) uf \<and>
     (\<exists>req. build_a_query (last (un_chain (uf_result uf))) 0 = Inr req \<and> waits_for st req fr)"

lemma waits_for_pinned: "pinned st' = pinned st \<Longrightarrow> waits_for st' query fr = waits_for st query fr"
  by (simp add: waits_for_def pinned_def job_of_def)

lemma phase_ok_pinned:
  assumes "pinned st' = pinned st"
  shows "phase_ok st' p = phase_ok st p"
  by (cases p) (simp_all add: waits_for_pinned [OF assms] pinned_eq [OF assms])

fun phase_request :: "'f phase \<Rightarrow> 'f request" where
  "phase_request (Replying rq _) = rq"
| "phase_request (ReplyingCached rq _ _ _) = rq"
| "phase_request (Forwarding rq _ _) = rq"
| "phase_request (Uncloaking rq _ _ _ _) = rq"

lemma single_question: "length (questions msg) = 1 \<Longrightarrow>
    make_cache_key msg = Some \<lparr>key_qname = msg_qname msg, key_qtype = msg_qtype msg, key_qclass = q_class (questions msg ! 0)\<rparr> \<and>
    questions msg = [key_question \<lparr>key_qname = msg_qname msg, key_qtype = msg_qtype msg, key_qclass = q_class (questions msg ! 0)\<rparr>]"
  by (cases "questions msg") (auto simp: make_cache_key_def msg_qname_def msg_qtype_def key_question_def)

lemma answers_length: "answers_question qs resp \<Longrightarrow> 12 \<le> length resp"
  by (auto simp: answers_question_def)

lemma cache_vetted_sub:
  "cache_vetted bl c \<Longrightarrow> (\<And>k. map_of (cmap c') k = None \<or> map_of (cmap c') k = map_of (cmap c) k) \<Longrightarrow> cache_vetted bl c'"
  unfolding cache_vetted_def by (metis option.distinct(1))

lemma cache_insert_vetted:
  assumes "live_cache c" "cache_vetted bl c" "0 < ttl" "cache_insert now key resp parsed ttl c = Some c'" "vetted_entry bl key resp"
  shows "cache_vetted bl c'"
proof -
  have "vetted_entry bl k (entry_response e)" if e: "map_of (cmap c') k = Some e" for k e
  proof (cases "k = key")
    case True
    then show ?thesis using e assms cache_insert_lookup(1) [of c ttl now key resp parsed c'] by (auto simp: new_entry_def)
  next
    case False
    then have "map_of (cmap c) k = Some e" using e assms cache_insert_lookup(2) [of c ttl now key resp parsed c' k] by auto
    then show ?thesis using assms(2) by (simp add: cache_vetted_def)
  qed
  then show ?thesis by (simp add: cache_vetted_def)
qed

lemma cache_lookup_vetted:
  assumes "live_cache c" "cache_vetted bl c" "cache_lookup now key i c = (r, c')"
  shows "live_cache c' \<and> cache_vetted bl c' \<and>
    (\<forall>b. r = Some b \<longrightarrow> (\<exists>e. map_of (cmap c) key = Some e \<and> b = serve_entry now i e \<and> now < expires_at e))"
proof -
  have c': "c' = snd (cache_lookup now key i c)" and r: "r = fst (cache_lookup now key i c)" using assms(3) by simp_all
  have "cache_vetted bl c'"
    using assms(1) cache_lookup_map [of c now key i] by (intro cache_vetted_sub [OF assms(2)]) (auto simp: c' split: option.split)
  moreover have "live_cache c'" using assms(1) cache_lookup_inv cache_lookup_frame(1) by (simp add: c')
  ultimately show ?thesis using cache_lookup_result [of now key i c] by (auto simp: r split: option.splits if_splits)
qed

lemma serve_entry_echo:
  assumes "12 \<le> length (entry_response e)" "12 \<le> length query" "i = read_u16_be query 0"
  shows "echoes query (serve_entry now i e)"
  using assms by (simp add: serve_entry_def set_id_def echoes_def Let_def read_write_u16_same)

text \<open>A server in order stays so when neither its cache nor what is pinned changes.\<close>

lemma server_ok_keep: "server_ok st \<Longrightarrow> sv_cache st' = sv_cache st \<Longrightarrow> pinned st' = pinned st \<Longrightarrow> server_ok st'"
  by (simp add: server_ok_def pinned_def resolver_shape_def)

lemma try_cache_insert_ok:
  assumes "server_ok st" "length (questions msg) = 1" "is_forwardable_qtype (msg_qtype msg)" "answers_question (questions msg) resp"
    and "is_address_qtype (msg_qtype msg) \<longrightarrow> clean_response (sv_uncloak_blocklist st) (msg_qname msg) resp"
  shows "\<exists>st'. try_cache_insert env msg resp st = Some st' \<and> server_ok st'"
proof -
  let ?key = "\<lparr>key_qname = msg_qname msg, key_qtype = msg_qtype msg, key_qclass = q_class (questions msg ! 0)\<rparr>"
  note q = single_question [OF assms(2)]
  have vet: "vetted_entry (sv_uncloak_blocklist st) ?key resp" using assms q by (simp add: vetted_entry_def)
  have live: "live_cache (sv_cache st)" using assms(1) by (simp add: server_ok_def)
  show ?thesis
  proof (cases "parse resp")
    case (Inr m)
    obtain now w where clock: "he_steady env (sv_world st) = (now, w)" by fastforce
    obtain c where c: "cache_insert now ?key resp m (compute_cache_ttl m) (sv_cache st) = Some c" "cache_inv c" "cache_cfg c = cache_cfg (sv_cache st)"
      using cache_insert_inv live by metis
    have "cache_vetted (sv_uncloak_blocklist st) c" if "0 < compute_cache_ttl m"
      using cache_insert_vetted [OF live _ that c(1) vet] assms(1) by (simp add: server_ok_def)
    then show ?thesis using assms(1) q Inr clock c live by (auto simp: try_cache_insert_def server_ok_def Let_def)
  qed (use assms(1) q in \<open>auto simp: try_cache_insert_def\<close>)
qed

text \<open>
  A handler that is carried on always gets further: it either sends its one reply and is done, or waits
  again as a phase of the same request that is in order.
\<close>

definition waits_again :: "('f, 'w) server_state \<Rightarrow> 'f request \<Rightarrow> 'f phase \<Rightarrow> ('f, 'w) server_state \<Rightarrow> bool" where
  "waits_again st rq p st' \<longleftrightarrow> server_ok st' \<and> pinned st' = pinned st \<and> sv_sent st' = sv_sent st \<and> phase_ok st' p \<and> phase_request p = rq"

definition carried_on :: "('f, 'w) server_state \<Rightarrow> 'f phase \<Rightarrow> 'f phase option \<Rightarrow> ('f, 'w) server_state \<Rightarrow> bool" where
  "carried_on st p p' st' \<longleftrightarrow>
     (case p' of
        None \<Rightarrow> server_ok st' \<and> pinned st' = pinned st \<and>
          (\<exists>b. sv_sent st' = sv_sent st @ [(rq_from (phase_request p), b)] \<and> echoes (rq_query (phase_request p)) b)
      | Some p'' \<Rightarrow> waits_again st (phase_request p) p'' st')"

lemma waits_again_from: "pinned st1 = pinned st \<Longrightarrow> sv_sent st1 = sv_sent st \<Longrightarrow> waits_again st1 rq p st' \<Longrightarrow> waits_again st rq p st'"
  by (simp add: waits_again_def)

lemma reply_waits:
  assumes "server_ok st" "server_ok st'" "pinned st' = pinned st" "sv_sent st' = sv_sent st" "echoes (rq_query rq) b"
  shows "waits_again st rq (Replying rq b) st'"
  using assms by (simp add: waits_again_def)

lemma forward_failed_ok:
  assumes "server_ok st" "parse (rq_query rq) = Inr msg" "forward_failed env rq msg e st = (p, st')"
  shows "waits_again st rq p st'"
  using assms builders_echo(2) [OF assms(2)] server_ok_keep [OF assms(1), of st']
  by (auto simp: forward_failed_def intro!: reply_waits)

lemma begin_forward_ok:
  assumes "server_ok st" "admitted rq msg" "begin_forward env rq msg st = (p, st')"
  shows "waits_again st rq p st'"
proof -
  obtain x w where x: "forward_begin (he_draw_id env) (rq_query rq) (sv_resolver st) (sv_world st) = (x, w)" by fastforce
  have ok: "server_ok (st\<lparr>sv_world := w\<rparr>)" using server_ok_keep [OF assms(1), of "st\<lparr>sv_world := w\<rparr>"] by simp
  show ?thesis
  proof (cases x)
    case (Inl e)
    then have f: "forward_failed env rq msg e (st\<lparr>sv_world := w\<rparr>) = (p, st')" using x assms(3) by (simp add: begin_forward_def)
    have "parse (rq_query rq) = Inr msg" using assms(2) by (simp add: admitted_def)
    from waits_again_from [OF _ _ forward_failed_ok [OF ok this f]] show ?thesis by simp
  next
    case (Inr fr)
    note f = forward_begin_frame [OF x [unfolded Inr]]
    then have "waits_for (st\<lparr>sv_world := w\<rparr>) (rq_query rq) fr" by (auto simp: waits_for_def)
    moreover have "p = Forwarding rq msg fr" "st' = st\<lparr>sv_world := w\<rparr>" using x Inr assms(3) by (simp_all add: begin_forward_def)
    ultimately show ?thesis using assms(2) ok by (simp add: waits_again_def)
  qed
qed

text \<open>The five ways through the first part of \<^verbatim>\<open>handle\<close>.\<close>

lemma handle_front_cases [consumes 1, case_names Malformed Refused Blocked CacheHit CacheMiss]:
  assumes "handle_front env rq st = (p, st')"
  obtains e where "parse (rq_query rq) = Inl e" "p = None"
      "st' = print_line (''drop malformed from '' @ he_show env (rq_from rq) @ '': '' @ what e) st"
  | msg l where "parse (rq_query rq) = Inr msg" "length (questions msg) \<noteq> 1 \<or> \<not> is_forwardable_qtype (msg_qtype msg)"
      "p = Some (Replying rq (build_refused_response (rq_query rq) msg))"
      "st' = log_record env rq Refuse (msg_qname msg) (msg_qtype msg) [] [] None None (print_line l st)"
  | msg l where "parse (rq_query rq) = Inr msg" "length (questions msg) = 1" "is_forwardable_qtype (msg_qtype msg)"
      "blocked (blocklist_match (rq_blocklist rq) (msg_qname msg))" "p = Some (Replying rq (block_response (msg_qtype msg) (rq_query rq) msg))"
      "st' = log_record env rq Block (msg_qname msg) (msg_qtype msg) (matched_rule (blocklist_match (rq_blocklist rq) (msg_qname msg))) [] None None (print_line l st)"
  | msg key now w b c where "admitted rq msg" "make_cache_key msg = Some key" "questions msg = [key_question key]" "he_steady env (sv_world st) = (now, w)"
      "cache_lookup now key (hdr_id (msg_header msg)) (sv_cache st) = (Some b, c)" "p = Some (ReplyingCached rq b (msg_qname msg) (msg_qtype msg))"
      "st' = st\<lparr>sv_cache := c, sv_world := w\<rparr>"
  | msg key now w c p' where "admitted rq msg" "make_cache_key msg = Some key" "questions msg = [key_question key]" "he_steady env (sv_world st) = (now, w)"
      "cache_lookup now key (hdr_id (msg_header msg)) (sv_cache st) = (None, c)" "p = Some p'"
      "begin_forward env rq msg (st\<lparr>sv_cache := c, sv_world := w\<rparr>) = (p', st')"
proof (cases "parse (rq_query rq)")
  case (Inl e)
  then show ?thesis using assms that(1) by (simp add: handle_front_def)
next
  case (Inr msg)
  consider (refuse) "length (questions msg) \<noteq> 1 \<or> \<not> is_forwardable_qtype (msg_qtype msg)"
    | (block) "length (questions msg) = 1" "is_forwardable_qtype (msg_qtype msg)" "blocked (blocklist_match (rq_blocklist rq) (msg_qname msg))"
    | (pass) "admitted rq msg" using Inr by (auto simp: admitted_def)
  then show ?thesis
  proof cases
    case refuse
    then show ?thesis using assms Inr that(2) [OF Inr refuse] by (auto simp: handle_front_def Let_def)
  next
    case block
    then show ?thesis using assms Inr that(3) [OF Inr block] by (auto simp: handle_front_def Let_def)
  next
    case pass
    then have adm: "length (questions msg) = 1" "is_forwardable_qtype (msg_qtype msg)" "\<not> blocked (blocklist_match (rq_blocklist rq) (msg_qname msg))"
      by (auto simp: admitted_def)
    obtain key where key: "make_cache_key msg = Some key" "questions msg = [key_question key]" using single_question [OF adm(1)] by blast
    obtain now w where clock: "he_steady env (sv_world st) = (now, w)" by fastforce
    obtain r c where l: "cache_lookup now key (hdr_id (msg_header msg)) (sv_cache st) = (r, c)" by fastforce
    let ?st = "st\<lparr>sv_cache := c, sv_world := w\<rparr>"
    have front: "handle_front env rq st = (case r of Some b \<Rightarrow> (Some (ReplyingCached rq b (msg_qname msg) (msg_qtype msg)), ?st)
        | None \<Rightarrow> apfst Some (begin_forward env rq msg ?st))"
      using Inr adm key(1) clock l by (simp add: handle_front_def Let_def)
    show ?thesis
    proof (cases r)
      case None
      then show ?thesis using that(5) [OF pass key clock] l front assms by (cases "begin_forward env rq msg ?st") simp
    next
      case (Some b)
      then show ?thesis using that(4) [OF pass key clock] l front assms by simp
    qed
  qed
qed

lemma front_ok:
  assumes "server_ok st" "handle_front env rq st = (p, st')"
  shows "case parse (rq_query rq) of
      Inl _ \<Rightarrow> p = None \<and> server_ok st' \<and> pinned st' = pinned st \<and> sv_sent st' = sv_sent st
    | Inr _ \<Rightarrow> (\<exists>p'. p = Some p' \<and> waits_again st rq p' st')"
proof -
  have keep: "server_ok (log_record env rq a qn qt r ch u ec (print_line l st))" for a qn qt r ch u ec l
    using server_ok_keep [OF assms(1), of "log_record env rq a qn qt r ch u ec (print_line l st)"] by simp
  have looked: "server_ok (st\<lparr>sv_cache := c, sv_world := w\<rparr>)" "pinned (st\<lparr>sv_cache := c, sv_world := w\<rparr>) = pinned st"
    if "cache_lookup now key i (sv_cache st) = (r, c)" for now key i r c w
    using cache_lookup_vetted [OF _ _ that, of "sv_uncloak_blocklist st"] assms(1) cache_lookup_cfg [OF that] by (simp_all add: server_ok_def pinned_cache)
  from assms(2) show ?thesis
  proof (cases rule: handle_front_cases)
    case (Malformed e)
    then show ?thesis using server_ok_keep [OF assms(1), of st'] by simp
  next
    case (Refused msg l)
    then show ?thesis using assms(1) builders_echo(1) keep by (auto intro!: reply_waits)
  next
    case (Blocked msg l)
    then show ?thesis using assms(1) builders_echo(6) keep by (auto intro!: reply_waits)
  next
    case (CacheHit msg key now w b c)
    have q: "parse (rq_query rq) = Inr msg" using CacheHit(1) by (simp add: admitted_def)
    obtain e where e: "map_of (cmap (sv_cache st)) key = Some e" "b = serve_entry now (hdr_id (msg_header msg)) e"
      using cache_lookup_vetted [OF _ _ CacheHit(5), of "sv_uncloak_blocklist st"] assms(1) by (auto simp: server_ok_def)
    then have "12 \<le> length (entry_response e)" using assms(1) answers_length by (auto simp: server_ok_def cache_vetted_def vetted_entry_def)
    then have "echoes (rq_query rq) b" using e(2) parse_bounds [OF q] by (auto intro: serve_entry_echo)
    then show ?thesis using CacheHit q looked [OF CacheHit(5), of w] by (auto simp: waits_again_def)
  next
    case (CacheMiss msg key now w c p')
    note st = looked [OF CacheMiss(5), of w]
    have "waits_again st rq p' st'" by (rule waits_again_from [OF st(2) _ begin_forward_ok [OF st(1) CacheMiss(1,7)]]) simp
    then show ?thesis using CacheMiss by (simp add: admitted_def)
  qed
qed

lemma exchange_answers:
  assumes "forward_exchange fr rs w = (Inr (Inl fwd), rs', w')" "fr_job fr = job_of rs0 query i" "parse query = Inr msg" "12 \<le> length query"
  shows "answers_question (questions msg) (fwd_response fwd) \<and> echoes query (fwd_response fwd)"
proof -
  obtain reply mr where r: "fwd_response fwd = write_u16_be reply 0 (read_u16_be query 0)" "12 \<le> length reply"
      "parse reply = Inr mr" "questions mr = questions msg"
    using forward_exchange_accepts [OF assms(1)] assms(2,3)
    by (auto simp: acceptable_def accepted_result_def job_of_def reply_matches_request_iff)
  then show ?thesis unfolding answers_question_def echoes_def using assms(4) by (auto simp: read_write_u16_same)
qed

lemma finish_uncloak_ok:
  assumes "server_ok st" "admitted rq msg" "echoes (rq_query rq) (fwd_response fwd)" "answers_question (questions msg) (fwd_response fwd)"
    and "un_status result = UnClean \<longrightarrow> clean_response (sv_uncloak_blocklist st) (msg_qname msg) (fwd_response fwd)"
  shows "\<exists>p st'. finish_uncloak env rq msg fwd result st = Some (p, st') \<and> waits_again st rq p st'"
proof -
  have adm: "parse (rq_query rq) = Inr msg" "length (questions msg) = 1" "is_forwardable_qtype (msg_qtype msg)"
    using assms(2) by (auto simp: admitted_def)
  have keep: "waits_again st rq (Replying rq b) (log_record env rq a qn qt r ch u ec (print_line l st1))"
    if "server_ok st1" "pinned st1 = pinned st" "sv_sent st1 = sv_sent st" "echoes (rq_query rq) b" for a qn qt r ch u ec l st1 b
    using server_ok_keep [OF that(1), of "log_record env rq a qn qt r ch u ec (print_line l st1)"] that assms(1) by (intro reply_waits) simp_all
  show ?thesis
  proof (cases "un_status result")
    case UnClean
    then obtain st1 where s: "try_cache_insert env msg (fwd_response fwd) st = Some st1" "server_ok st1"
      using try_cache_insert_ok [OF assms(1) adm(2,3) assms(4)] assms(5) by blast
    show ?thesis using UnClean s keep [OF s(2) try_cache_insert_frame(1,2) [OF s(1)] assms(3)] by (simp add: finish_uncloak_def Let_def)
  qed (use keep [OF assms(1) refl refl] builders_echo [OF adm(1)] in \<open>auto simp: finish_uncloak_def Let_def\<close>)
qed

text \<open>What a coroutine of the uncloaker leaves behind is always fit to be carried on with.\<close>

definition uncloak_progress_ok :: "('f, 'w) server_state \<Rightarrow> dns_message \<Rightarrow> uncloak_result + (uncloak_frame \<times> fwd_frame) \<Rightarrow> bool" where
  "uncloak_progress_ok st msg x \<longleftrightarrow>
     (case x of
        Inl result \<Rightarrow> verdict_ok (sv_max_depth st) (sv_uncloak_blocklist st) (msg_qname msg) result
      | Inr (uf, fr) \<Rightarrow> uncloak_frame_ok (sv_max_depth st) (sv_uncloak_blocklist st) (msg_qname msg) uf \<and>
          (\<exists>req. build_a_query (last (un_chain (uf_result uf))) 0 = Inr req \<and> waits_for st req fr))"

lemma continue_waits:
  assumes "uncloak_continue draw_id bl d current uf rs w = (Inr (uf', fr), w')" "rs = sv_resolver st"
  shows "\<exists>req. build_a_query (last (un_chain (uf_result uf'))) 0 = Inr req \<and> waits_for st req fr"
proof -
  obtain req where t: "uncloak_turn bl d current uf = Inr (req, uf')" "fr_job fr = job_of rs req (fst (draw_id w))"
    using uncloak_continue_frame(3) [OF assms(1)] by blast
  have "build_a_query (last (un_chain (uf_result uf'))) 0 = Inr req" by (rule uncloak_turn_again [OF t(1)]) simp
  with t(2) uncloak_continue_frame(2) [OF assms(1)] assms(2) show ?thesis by (auto simp: waits_for_def)
qed

lemma begin_progress:
  assumes "uncloak_begin (he_draw_id env) (sv_uncloak_blocklist st) (sv_max_depth st) (msg_qname msg) resp (sv_resolver st) w = (x, w')"
  shows "uncloak_progress_ok st msg x"
    and "(\<exists>y. x = Inr y) \<or> un_status (projl x) = UnClean \<Longrightarrow> clean_response (sv_uncloak_blocklist st) (msg_qname msg) resp"
proof -
  note ok = uncloak_begin_ok [OF assms] and c = assms [unfolded uncloak_begin_def]
  show "uncloak_progress_ok st msg x"
  proof (cases x)
    case (Inr y)
    then obtain uf fr where y: "x = Inr (uf, fr)" by (cases y) auto
    from continue_waits [OF c [unfolded y] refl] ok y show ?thesis by (simp add: uncloak_progress_ok_def)
  qed (use ok in \<open>simp add: uncloak_progress_ok_def\<close>)
  show "(\<exists>y. x = Inr y) \<or> un_status (projl x) = UnClean \<Longrightarrow> clean_response (sv_uncloak_blocklist st) (msg_qname msg) resp"
    using ok by (cases x) auto
qed

lemma exchange_progress:
  assumes "uncloak_exchange (he_draw_id env) (sv_uncloak_blocklist st) (sv_max_depth st) uf fr (sv_resolver st) w = (x, rs, w')"
    and "uncloak_frame_ok (sv_max_depth st) (sv_uncloak_blocklist st) (msg_qname msg) uf"
    and "build_a_query (last (un_chain (uf_result uf))) 0 = Inr req" "waits_for st req fr"
  shows "uncloak_progress_ok (st\<lparr>sv_resolver := rs, sv_world := w2\<rparr>) msg x"
proof -
  let ?st = "st\<lparr>sv_resolver := rs, sv_world := w2\<rparr>"
  note ok = uncloak_exchange_ok [OF assms(2,1)]
  have same: "pinned ?st = pinned st" using pinned_uncloak_exchange [OF assms(1)] by simp
  show ?thesis
  proof (cases x)
    case (Inr y)
    then obtain uf' fr' where x: "x = Inr (uf', fr')" by (cases y) auto
    obtain z rs1 w1 where z: "forward_exchange fr (sv_resolver st) w = (z, rs1, w1)" by (metis prod.exhaust)
    consider g where "z = Inr (Inl g)" "rs1 = rs"
        "uncloak_continue (he_draw_id env) (sv_uncloak_blocklist st) (sv_max_depth st) (fwd_response g) uf rs1 w1 = (Inr (uf', fr'), w')"
      | "z = Inr (Inr fr')" "uf' = uf" "rs1 = rs"
      using assms(1) x z by (auto simp: uncloak_exchange_def split: sum.splits prod.splits)
    then have "\<exists>req. build_a_query (last (un_chain (uf_result uf'))) 0 = Inr req \<and> waits_for ?st req fr'"
    proof cases
      case 1
      then show ?thesis using continue_waits [OF 1(3), of ?st] by simp
    next
      case 2
      then have "waits_for st req fr'" using assms(4) forward_exchange_next(1,2) [of fr "sv_resolver st" w fr'] z by (auto simp: waits_for_def)
      then show ?thesis using assms(3) 2 waits_for_pinned [OF same] by auto
    qed
    then show ?thesis using ok x by (simp add: uncloak_progress_ok_def)
  qed (use ok in \<open>simp add: uncloak_progress_ok_def\<close>)
qed

lemma after_uncloak_ok:
  assumes "server_ok st" "admitted rq msg" "is_address_qtype (msg_qtype msg)" "echoes (rq_query rq) (fwd_response fwd)"
    and "answers_question (questions msg) (fwd_response fwd)" "uncloak_progress_ok st msg x"
    and "(\<exists>y. x = Inr y) \<or> un_status (projl x) = UnClean \<Longrightarrow> clean_response (sv_uncloak_blocklist st) (msg_qname msg) (fwd_response fwd)"
  shows "\<exists>p st'. after_uncloak env rq msg fwd x st = Some (p, st') \<and> waits_again st rq p st'"
proof (cases x)
  case (Inl result)
  then show ?thesis using finish_uncloak_ok [OF assms(1,2,4,5), of result env] assms(7) by (simp add: after_uncloak_def)
next
  case (Inr y)
  then obtain uf fr where "x = Inr (uf, fr)" by (cases y) auto
  then show ?thesis using assms by (simp add: after_uncloak_def waits_again_def uncloak_progress_ok_def)
qed

lemma after_forward_ok:
  assumes "server_ok st" "admitted rq msg" "echoes (rq_query rq) (fwd_response fwd)" "answers_question (questions msg) (fwd_response fwd)"
  shows "\<exists>p st'. after_forward env rq msg fwd st = Some (p, st') \<and> waits_again st rq p st'"
proof (cases "is_address_qtype (msg_qtype msg)")
  case True
  obtain x w where x: "uncloak_begin (he_draw_id env) (sv_uncloak_blocklist st) (sv_max_depth st) (msg_qname msg) (fwd_response fwd) (sv_resolver st)
      (sv_world st) = (x, w)" by fastforce
  let ?st = "st\<lparr>sv_world := w\<rparr>"
  have ok: "server_ok ?st" using server_ok_keep [OF assms(1), of ?st] by simp
  have "uncloak_progress_ok ?st msg x" using begin_progress(1) [OF x] by (simp add: uncloak_progress_ok_def waits_for_pinned [of ?st st] cong: sum.case_cong)
  from after_uncloak_ok [OF ok assms(2) True assms(3,4) this, of env] begin_progress(2) [OF x] obtain p st' where
      a: "after_uncloak env rq msg fwd x ?st = Some (p, st')" "waits_again ?st rq p st'" by auto
  have "waits_again st rq p st'" by (rule waits_again_from [OF _ _ a(2)]) simp_all
  then show ?thesis using True x a(1) by (simp add: after_forward_def)
next
  case False
  have adm: "length (questions msg) = 1" "is_forwardable_qtype (msg_qtype msg)" using assms(2) by (auto simp: admitted_def)
  obtain st1 where s: "try_cache_insert env msg (fwd_response fwd) st = Some st1" "server_ok st1"
    using try_cache_insert_ok [OF assms(1) adm assms(4)] False by blast
  note fr = try_cache_insert_frame(1,2) [OF s(1)]
  let ?st = "log_record env rq Allow (msg_qname msg) (msg_qtype msg) [] [] (Some (fwd_upstream fwd)) (Some (fwd_ech_status fwd))
      (print_line (''forward '' @ msg_qname msg @ ''  qtype='' @ dec_string (unat (msg_qtype msg))) st1)"
  have "waits_again st rq (Replying rq (fwd_response fwd)) ?st"
    using server_ok_keep [OF s(2), of ?st] fr assms by (intro reply_waits) simp_all
  then show ?thesis using False s(1) by (simp add: after_forward_def)
qed

lemma resume_reply_ok:
  assumes "server_ok st" "phase_ok st p" "p = Replying rq b \<or> p = ReplyingCached rq b qname qtype"
  shows "\<exists>st'. resume env p st = Some (None, st') \<and> carried_on st p None st'"
proof -
  have sent: "carried_on st p None st'" if "send_to env b (rq_from rq) (st\<lparr>sv_world := w\<rparr>) = (r, st1)" "sv_cache st' = sv_cache st1"
    "pinned st' = pinned st1" "sv_sent st' = sv_sent st1" for w r st1 st'
    using server_ok_keep [OF assms(1), of st'] send_to_frame [OF that(1)] pinned_send [OF that(1)] that(2-4) assms(2,3)
    by (auto simp: carried_on_def)
  from assms(3) show ?thesis
  proof
    assume p: "p = Replying rq b"
    obtain r st1 where s: "send_to env b (rq_from rq) (st\<lparr>sv_world := sv_world st\<rparr>) = (r, st1)" by fastforce
    then show ?thesis using p sent [OF s] by (cases r) (simp_all add: handler_error_def)
  next
    assume p: "p = ReplyingCached rq b qname qtype"
    let ?w = "he_sleep env (apply_jitter (he_dist env (sv_world st)) (jitter_max (cache_cfg (sv_cache st)))) (sv_world st)"
    obtain r st1 where s: "send_to env b (rq_from rq) (st\<lparr>sv_world := ?w\<rparr>) = (r, st1)" by fastforce
    then show ?thesis using p sent [OF s] by (cases r) (simp_all add: handler_error_def)
  qed
qed

lemma resume_forward_ok:
  assumes "server_ok st" "phase_ok st (Forwarding rq msg fr)"
  shows "\<exists>p st'. resume env (Forwarding rq msg fr) st = Some (Some p, st') \<and> waits_again st rq p st'"
proof -
  have adm: "admitted rq msg" "waits_for st (rq_query rq) fr" "parse (rq_query rq) = Inr msg" using assms(2) by (auto simp: admitted_def)
  have len: "12 \<le> length (rq_query rq)" using parse_bounds [OF adm(3)] by simp
  obtain x rs w where x: "forward_exchange fr (sv_resolver st) (sv_world st) = (x, rs, w)" by (metis prod.exhaust)
  let ?st = "st\<lparr>sv_resolver := rs, sv_world := w\<rparr>"
  have pin: "pinned ?st = pinned st" using pinned_exchange [OF x] by simp
  have ok: "server_ok ?st" using server_ok_keep [OF assms(1), of ?st] pin by simp
  note again = waits_again_from [OF pin, of rq]
  consider e where "x = Inl e" | fwd where "x = Inr (Inl fwd)" | fr' where "x = Inr (Inr fr')" by (metis old.sum.exhaust)
  then show ?thesis
  proof cases
    case 1
    then show ?thesis using x forward_failed_ok [OF ok adm(3), of env e] again by (cases "forward_failed env rq msg e ?st") auto
  next
    case 2
    have ans: "answers_question (questions msg) (fwd_response fwd)" "echoes (rq_query rq) (fwd_response fwd)"
      using exchange_answers [OF x [unfolded 2] _ adm(3) len] adm(2) by (auto simp: waits_for_def)
    from after_forward_ok [OF ok adm(1) ans(2,1), of env] 2 x again show ?thesis by auto
  next
    case 3
    have "waits_for st (rq_query rq) fr'" using adm(2) forward_exchange_next(1,2) [OF x [unfolded 3]] by (auto simp: waits_for_def)
    then show ?thesis using x 3 ok pin adm(1) waits_for_pinned [OF pin] by (auto simp: waits_again_def)
  qed
qed

lemma resume_uncloak_ok:
  assumes "server_ok st" "phase_ok st (Uncloaking rq msg fwd uf fr)"
  shows "\<exists>p st'. resume env (Uncloaking rq msg fwd uf fr) st = Some (Some p, st') \<and> waits_again st rq p st'"
proof -
  obtain req where q: "build_a_query (last (un_chain (uf_result uf))) 0 = Inr req" "waits_for st req fr" using assms(2) by auto
  obtain x rs w where x: "uncloak_exchange (he_draw_id env) (sv_uncloak_blocklist st) (sv_max_depth st) uf fr (sv_resolver st) (sv_world st) = (x, rs, w)"
    by (metis prod.exhaust)
  let ?st = "st\<lparr>sv_resolver := rs, sv_world := w\<rparr>"
  have pin: "pinned ?st = pinned st" using pinned_uncloak_exchange [OF x] by simp
  have ok: "server_ok ?st" using server_ok_keep [OF assms(1), of ?st] pin by simp
  have "uncloak_progress_ok ?st msg x" using exchange_progress [OF x _ q] assms(2) by simp
  from after_uncloak_ok [OF ok _ _ _ _ this, of rq fwd env] assms(2) obtain p st' where
      a: "after_uncloak env rq msg fwd x ?st = Some (p, st')" "waits_again ?st rq p st'" by auto
  from waits_again_from [OF pin _ a(2)] a(1) x show ?thesis by auto
qed

lemma resume_ok:
  assumes "server_ok st" "phase_ok st p"
  shows "\<exists>p' st'. resume env p st = Some (p', st') \<and> carried_on st p p' st'"
proof (cases p)
  case (Replying rq b)
  then show ?thesis using resume_reply_ok [OF assms] by blast
next
  case (ReplyingCached rq b qname qtype)
  then show ?thesis using resume_reply_ok [OF assms] by blast
next
  case (Forwarding rq msg fr)
  then show ?thesis using resume_forward_ok [of st rq msg fr env] assms by (auto simp: carried_on_def)
next
  case (Uncloaking rq msg fwd uf fr)
  then show ?thesis using resume_uncloak_ok [of st rq msg fwd uf fr env] assms by (auto simp: carried_on_def)
qed

text \<open>Running one handler to its end.\<close>

lemma run_phases_ok:
  assumes "server_ok st" "phase_ok st p"
  shows "\<exists>st'. run_phases env p st = Some st' \<and> carried_on st p None st'"
  using assms
proof (induction env p st rule: run_phases.induct)
  case (1 env p st)
  obtain p' st1 where r: "resume env p st = Some (p', st1)" "carried_on st p p' st1" using resume_ok [OF "1.prems"] by blast
  show ?case
  proof (cases p')
    case None
    then show ?thesis using r by (simp add: run_phases.simps [of env p])
  next
    case (Some p2)
    then have w: "waits_again st (phase_request p) p2 st1" using r(2) by (simp add: carried_on_def)
    then have "server_ok st1" "phase_ok st1 p2" by (auto simp: waits_again_def)
    from "1.IH" [OF r(1) _ _ this] Some obtain st2 where "run_phases env p2 st1 = Some st2" "carried_on st1 p2 None st2" by auto
    then show ?thesis using r(1) Some w by (auto simp: run_phases.simps [of env p] carried_on_def waits_again_def)
  qed
qed

section \<open>The running server\<close>

fun received :: "'f event list \<Rightarrow> ('f \<times> bytes) list" where
  "received [] = []"
| "received (Receive buf from bl # evs) = (from, take kReceiveBuffer buf) # received evs"
| "received (_ # evs) = received evs"

lemma received_append [simp]: "received (evs @ evs') = received evs @ received evs'"
  by (induction evs rule: received.induct) auto

fun is_resume :: "'f event \<Rightarrow> bool" where
  "is_resume (Resume _) = True"
| "is_resume _ = False"

definition machine_ok :: "('f \<times> bytes) list \<Rightarrow> ('f, 'w) server_state \<times> 'f phase list \<Rightarrow> bool" where
  "machine_ok got m \<longleftrightarrow> server_ok (fst m) \<and>
     (\<forall>p \<in> set (snd m). phase_ok (fst m) p \<and> (rq_from (phase_request p), rq_query (phase_request p)) \<in> set got) \<and>
     (\<forall>(f, b) \<in> set (sv_sent (fst m)). \<exists>q. (f, q) \<in> set got \<and> echoes q b) \<and>
     length (sv_sent (fst m)) + length (snd m) \<le> length got"

lemma machine_okI:
  assumes "server_ok st" "\<And>p. p \<in> set ps \<Longrightarrow> phase_ok st p \<and> (rq_from (phase_request p), rq_query (phase_request p)) \<in> set got"
    and "\<And>f b. (f, b) \<in> set (sv_sent st) \<Longrightarrow> \<exists>q. (f, q) \<in> set got \<and> echoes q b" "length (sv_sent st) + length ps \<le> length got"
  shows "machine_ok got (st, ps)"
  using assms by (auto simp: machine_ok_def)

lemma machine_okD:
  assumes "machine_ok got (st, ps)"
  shows "server_ok st" "p \<in> set ps \<Longrightarrow> phase_ok st p" "p \<in> set ps \<Longrightarrow> (rq_from (phase_request p), rq_query (phase_request p)) \<in> set got"
    "(f, b) \<in> set (sv_sent st) \<Longrightarrow> \<exists>q. (f, q) \<in> set got \<and> echoes q b" "length (sv_sent st) + length ps \<le> length got"
  using assms by (auto simp: machine_ok_def)

lemma machine_ok_more: "machine_ok got m \<Longrightarrow> machine_ok (got @ got') m"
  by (fastforce simp: machine_ok_def)

lemma start_request_frame:
  assumes "start_request env query from bl st = (rq, st')"
  shows "rq_query rq = query" "rq_from rq = from" "rq_blocklist rq = bl" "st' = st\<lparr>sv_world := sv_world st'\<rparr>"
  using assms by (auto simp: start_request_def Let_def split: prod.splits)

lemma start_request_ok:
  assumes "start_request env query from bl st = (rq, st')" "server_ok st"
  shows "server_ok st'" "pinned st' = pinned st" "sv_sent st' = sv_sent st"
proof -
  note s = start_request_frame(4) [OF assms(1)]
  show p: "pinned st' = pinned st" "sv_sent st' = sv_sent st" by (subst s, simp)+
  have "sv_cache st' = sv_cache st" by (subst s, simp)
  then show "server_ok st'" using server_ok_keep [OF assms(2) _ p(1)] by simp
qed

lemma machine_ok_grow:
  assumes "machine_ok got (st, ps)" "server_ok st'" "pinned st' = pinned st" "sv_sent st' = sv_sent st"
    and "\<And>p. p \<in> set qs \<Longrightarrow> phase_ok st' p \<and> rq_from (phase_request p) = f \<and> rq_query (phase_request p) = q" "length qs \<le> 1"
  shows "machine_ok (got @ [(f, q)]) (st', ps @ qs)"
proof -
  note ok = machine_okD [OF assms(1)]
  show ?thesis
  proof (rule machine_okI [OF assms(2)])
    show "phase_ok st' p \<and> (rq_from (phase_request p), rq_query (phase_request p)) \<in> set (got @ [(f, q)])" if "p \<in> set (ps @ qs)" for p
      using that ok(2,3) phase_ok_pinned [OF assms(3), of p] assms(5) [of p] by auto
    show "\<exists>q'. (f', q') \<in> set (got @ [(f, q)]) \<and> echoes q' b" if "(f', b) \<in> set (sv_sent st')" for f' b
      using that ok(4) assms(4) by fastforce
  qed (use ok(5) assms(4,6) in simp)
qed

lemma receive_ok:
  assumes "machine_ok got (st, ps)" "receive env buf from bl st = (p, st')"
  shows "machine_ok (got @ [(from, take kReceiveBuffer buf)]) (st', ps @ option_list p)"
proof -
  obtain rq st1 where rq: "start_request env (take kReceiveBuffer buf) from bl st = (rq, st1)" by fastforce
  then have front: "handle_front env rq st1 = (p, st')" using assms(2) by (simp add: receive_def)
  note s = start_request_frame(1,2) [OF rq] start_request_ok [OF rq machine_okD(1) [OF assms(1)]]
  note f = front_ok [OF s(3) front]
  show ?thesis
    by (rule machine_ok_grow [OF assms(1)])
      (use f s in \<open>auto simp: waits_again_def split: sum.splits option.splits\<close>)
qed

lemma machine_ok_replace:
  assumes "machine_ok got (st, ps)" "i < length ps" "carried_on st (ps ! i) p st'"
  shows "machine_ok got (st', take i ps @ option_list p @ drop (Suc i) ps)"
proof -
  note ok = machine_okD [OF assms(1)]
  let ?r = "phase_request (ps ! i)"
  have got: "(rq_from ?r, rq_query ?r) \<in> set got" using ok(3) assms(2) nth_mem by blast
  have pin: "pinned st' = pinned st" "server_ok st'" using assms(3) by (auto simp: carried_on_def waits_again_def split: option.splits)
  have others: "q \<in> set ps \<and> phase_ok st' q" if "q \<in> set (take i ps) \<or> q \<in> set (drop (Suc i) ps)" for q
    using that ok(2) phase_ok_pinned [OF pin(1)] by (auto dest: in_set_takeD in_set_dropD)
  have len: "length (take i ps) + length (drop (Suc i) ps) + 1 = length ps" using assms(2) by simp
  show ?thesis
  proof (cases p)
    case None
    then obtain b where b: "sv_sent st' = sv_sent st @ [(rq_from ?r, b)]" "echoes (rq_query ?r) b"
      using assms(3) by (auto simp: carried_on_def)
    show ?thesis
    proof (rule machine_okI [OF pin(2)])
      fix f x assume "(f, x) \<in> set (sv_sent st')"
      then show "\<exists>q. (f, q) \<in> set got \<and> echoes q x" using b(1,2) ok(4) got by auto
    qed (use None ok(3) others in auto, use None ok(5) b(1) len in simp)
  next
    case (Some p')
    then have p': "sv_sent st' = sv_sent st" "phase_ok st' p'" "phase_request p' = ?r"
      using assms(3) by (auto simp: carried_on_def waits_again_def)
    show ?thesis
      by (rule machine_okI [OF pin(2)]) (use Some p' ok(3) others got in auto, use p'(1) ok(4) in auto, use Some p'(1) ok(5) len in simp)
  qed
qed

lemma machine_ok_same:
  assumes "machine_ok got (st, ps)" "server_ok st'" "pinned st' = pinned st" "sv_sent st' = sv_sent st"
  shows "machine_ok got (st', ps)"
  using assms(1,2,4) phase_ok_pinned [OF assms(3)] by (simp add: machine_ok_def)

lemma step_ok:
  assumes "handler_step env m ev m'" "machine_ok got m"
  shows "machine_ok (got @ received [ev]) m'"
  using assms(1)
proof (cases rule: handler_step.cases)
  case (step_receive buf f bl st p st' ps)
  have m: "machine_ok got (st, ps)" using assms(2) step_receive(1) by simp
  from receive_ok [OF m step_receive(4)] show ?thesis by (simp add: step_receive(2,3))
next
  case (step_resume i ps st p st')
  have m: "machine_ok got (st, ps)" using assms(2) step_resume(1) by simp
  have "phase_ok st (ps ! i)" using machine_okD(2) [OF m] step_resume(4) by simp
  from resume_ok [OF machine_okD(1) [OF m] this, of env] step_resume(5) have "carried_on st (ps ! i) p st'" by (metis option.inject prod.inject)
  from machine_ok_replace [OF m step_resume(4) this] show ?thesis by (simp add: step_resume(2,3))
next
  case (step_cache_sweep now st n c ps)
  have m: "machine_ok got (st, ps)" using assms(2) step_cache_sweep(1) by simp
  note ok = machine_okD(1) [OF m] and s = sweep_expired_spec [OF _ step_cache_sweep(4)]
  have "cache_vetted (sv_uncloak_blocklist st) c"
  proof (rule cache_vetted_sub [where c = "sv_cache st"])
    show "map_of (cmap c) k = None \<or> map_of (cmap c) k = map_of (cmap (sv_cache st)) k" for k
      using ok s(4) [of k] by (auto simp: server_ok_def split: option.splits)
  qed (use ok in \<open>simp add: server_ok_def\<close>)
  then have "server_ok (st\<lparr>sv_cache := c\<rparr>)" using ok s(1,2) by (simp add: server_ok_def)
  from machine_ok_same [OF m this] s(2) ok show ?thesis
    by (simp add: step_cache_sweep(2,3) pinned_cache server_ok_def)
next
  case (step_write_log st lg fs ps)
  have m: "machine_ok got (st, ps)" using assms(2) step_write_log(1) by simp
  have "server_ok (st\<lparr>sv_logger := lg, sv_fs := fs\<rparr>)" "pinned (st\<lparr>sv_logger := lg, sv_fs := fs\<rparr>) = pinned st"
    using machine_okD(1) [OF m] by (simp_all add: server_ok_def pinned_def)
  from machine_ok_same [OF m this] show ?thesis by (simp add: step_write_log(2,3))
next
  case (step_outside st ps w lines)
  let ?st = "st\<lparr>sv_console := sv_console st @ lines, sv_world := w\<rparr>"
  have m: "machine_ok got (st, ps)" using assms(2) step_outside(1) by simp
  have "server_ok ?st" "pinned ?st = pinned st" using machine_okD(1) [OF m] by (simp_all add: server_ok_def pinned_def)
  from machine_ok_same [OF m this] show ?thesis by (simp add: step_outside(2,3))
qed

lemma handler_step_pinned: "handler_step env m ev m' \<Longrightarrow> pinned (fst m') = pinned (fst m)"
proof (induction rule: handler_step.induct)
  case (step_receive buf f bl st p st' ps)
  obtain rq st1 where rq: "start_request env (take kReceiveBuffer buf) f bl st = (rq, st1)" by fastforce
  have "pinned st1 = pinned st" by (subst start_request_frame(4) [OF rq]) simp
  then show ?case using step_receive rq front_pinned by (fastforce simp: receive_def)
next
  case (step_resume i ps st p st')
  then show ?case using resume_pinned by fastforce
next
  case (step_cache_sweep now st n c ps)
  then show ?case using sweep_expired_cfg [of now "sv_cache st"] by (simp add: pinned_cache)
qed (simp_all add: pinned_def)

lemma handler_run_pinned: "run_steps (handler_step env) m evs m' \<Longrightarrow> pinned (fst m') = pinned (fst m)"
  by (induction rule: run_steps.induct) (auto dest: handler_step_pinned)

lemma run_ok: "run_steps (handler_step env) m evs m' \<Longrightarrow> machine_ok [] m \<Longrightarrow> machine_ok (received evs) m'"
  by (induction rule: run_steps.induct) (auto dest: step_ok)

section \<open>Properties\<close>

text \<open>The handlers under any load, however their steps, the sweeps and the log writer interleave.\<close>

lemma server_run_safe:
  assumes "run_steps (handler_step env) (st0, []) evs (st, ps)"
    and "server_ok st0" "sv_sent st0 = []"
  shows "(\<forall>(f, b) \<in> set (sv_sent st). \<exists>q. (f, q) \<in> set (received evs) \<and> echoes q b) \<and>
    length (sv_sent st) + length ps \<le> length (received evs) \<and>
    (\<forall>i < length ps. \<exists>m. handler_step env (st, ps) (Resume i) m) \<and>
    (\<forall>key e. map_of (cmap (sv_cache st)) key = Some e \<longrightarrow> vetted_entry (sv_uncloak_blocklist st) key (entry_response e)) \<and>
    cache_size (sv_cache st) \<le> max_entries (cache_cfg (sv_cache st))"
proof -
  have "machine_ok [] (st0, [])" using assms(2,3) by (simp add: machine_ok_def)
  from run_ok [OF assms(1) this] have ok: "machine_ok (received evs) (st, ps)" .
  have go: "\<exists>m. handler_step env (st, ps) (Resume i) m" if i: "i < length ps" for i
  proof -
    have "phase_ok st (ps ! i)" "server_ok st" using ok i by (auto simp: machine_ok_def)
    then obtain p st' where "resume env (ps ! i) st = Some (p, st')" using resume_ok by blast
    then show ?thesis using i step_resume by blast
  qed
  with ok show ?thesis by (auto simp: machine_ok_def server_ok_def cache_vetted_def cache_inv_def cache_size_def)
qed

definition sample_handler_env :: "(unit, unit) handler_env" where
  [eval_simps]: "sample_handler_env = \<lparr>he_draw_id = sample_draw, he_steady = \<lambda>w. (0, w), he_wall = \<lambda>w. (0, w), he_latency = \<lambda>_. ''0.000'',
     he_dist = \<lambda>_ a _. a, he_sleep = \<lambda>_ w. w, he_send = \<lambda>_ _ w. (Inr (), w), he_show = \<lambda>_. ''127.0.0.1:4242'', he_log = all_ok\<rparr>"

definition sample_state :: "(unit, unit) server_state" where
  [eval_simps]: "sample_state = \<lparr>sv_cache = empty_cache sample_config, sv_logger = fst (make_logger all_ok sample_log_config empty_fs), sv_fs = empty_fs,
     sv_resolver = sample_resolver, sv_uncloak_blocklist = empty_blocklist, sv_max_depth = 8, sv_sent = [], sv_logged = [], sv_console = [],
     sv_world = ()\<rparr>"

lemma sample_state_ok: "server_ok sample_state" "sv_sent sample_state = []"
  using sample_max by (simp_all add: server_ok_def sample_state_def cache_vetted_def resolver_shape_def sample_resolver_def)
    (simp_all add: empty_cache_def)

text \<open>C7: One handler always finishes. Run to its end on a cache in order, \<^verbatim>\<open>handle\<close> returns, and it sends exactly
  one packet, to the client and with the id of the query, when the query parses, and none when it is
  malformed.\<close>

theorem handle_replies_once:
  assumes "server_ok st"
  shows "\<exists>st'. handle env query from bl st = Some st' \<and> server_ok st' \<and>
    (case parse query of
       Inl _ \<Rightarrow> sv_sent st' = sv_sent st
     | Inr _ \<Rightarrow> \<exists>b. sv_sent st' = sv_sent st @ [(from, b)] \<and> echoes query b)"
proof -
  obtain rq st1 where rq: "start_request env query from bl st = (rq, st1)" by fastforce
  note s = start_request_frame(1,2) [OF rq] start_request_ok [OF rq assms]
  obtain p st2 where front: "handle_front env rq st1 = (p, st2)" by fastforce
  note f = front_ok [OF s(3) front]
  show ?thesis
  proof (cases "parse query")
    case (Inl e)
    then show ?thesis using f rq front s by (simp add: handle_def)
  next
    case (Inr msg)
    then obtain p' where p: "p = Some p'" "waits_again st1 rq p' st2" using f s by auto
    then have "server_ok st2" "phase_ok st2 p'" by (auto simp: waits_again_def)
    from run_phases_ok [OF this, of env] obtain st3 where "run_phases env p' st2 = Some st3" "carried_on st2 p' None st3" by blast
    then show ?thesis using Inr p rq front s by (auto simp: handle_def carried_on_def waits_again_def)
  qed
qed

theorem handle_replies_once_witness: "\<exists>st'. handle sample_handler_env sample_query () empty_blocklist sample_state = Some st' \<and> server_ok st'"
  using handle_replies_once [OF sample_state_ok(1), of sample_handler_env sample_query "()" empty_blocklist] by auto

end
