(* ===== verification/Http.thy ===== *)
theory Http
  imports Tls Text
begin

text \<open>
  \<^verbatim>\<open>http_client.cpp\<close>: the HTTP/1.1 response-head parser and the one-shot HTTPS POST. The Asio stream and
  its OpenSSL connection are the record \<open>tls_net\<close> of operations on a world state \<open>'w\<close>. An operation that
  throws \<^verbatim>\<open>system_error\<close>, which is also what a fired timer makes it do, returns \<open>False\<close> or \<open>None\<close>; every other
  exception of these calls is an allocation failure and is not modelled.
\<close>

section \<open>Definitions\<close>

subsection \<open>The response head\<close>

definition http_to_lower :: "string \<Rightarrow> string" where
  [eval_simps]: "http_to_lower s = map lower_char s"

definition is_blank :: "char \<Rightarrow> bool" where
  [eval_simps]: "is_blank c \<longleftrightarrow> c = CHR '' '' \<or> c = CHR 0x09"

definition trim :: "string \<Rightarrow> string" where
  [eval_simps]: "trim s = rev (dropWhile is_blank (rev (dropWhile is_blank s)))"

definition crlf :: string where [eval_simps]: "crlf = [CHR 0x0D, CHR 0x0A]"

definition kDelim :: string where [eval_simps]: "kDelim = crlf @ crlf"

definition find_headers_end :: "string \<Rightarrow> nat" where
  [eval_simps]: "find_headers_end buf = (case find_sub kDelim buf of None \<Rightarrow> 0 | Some pos \<Rightarrow> pos + length kDelim)"

record parsed_headers =
  ph_status :: int
  ph_headers :: "(string \<times> string) list"

definition parse_header_line :: "string \<Rightarrow> (string \<times> string) list option" where
  [eval_simps]: "parse_header_line line =
     (if line = [] then Some []
      else case find_char (CHR '':'') line 0 of
        None \<Rightarrow> None
      | Some colon \<Rightarrow> Some [(http_to_lower (take colon line), trim (drop (colon + 1) line))])"

text \<open>The loop over the header lines; the argument is the part of the block from the cursor on.\<close>

function parse_header_lines :: "string \<Rightarrow> (string \<times> string) list option" where
  "parse_header_lines rest =
     (if rest = [] then Some []
      else case find_sub crlf rest of
        None \<Rightarrow> parse_header_line rest
      | Some next \<Rightarrow>
          (case parse_header_line (take next rest) of
             None \<Rightarrow> None
           | Some h \<Rightarrow> map_option (\<lambda>more. h @ more) (parse_header_lines (drop (next + 2) rest))))"
  by pat_completeness auto
termination
  by (relation "measure length") auto

declare parse_header_lines.simps [simp del]

definition parse_response_head :: "string \<Rightarrow> parsed_headers option" where
  [eval_simps]: "parse_response_head text =
     (let end = find_headers_end text in
      if end = 0 then None
      else
        let block = take (end - 4) text in
        case find_sub crlf block of
          None \<Rightarrow> None
        | Some first_crlf \<Rightarrow>
            (let status_line = take first_crlf block in
             case find_char (CHR '' '') status_line 0 of
               None \<Rightarrow> None
             | Some sp1 \<Rightarrow>
                 (case find_char (CHR '' '') status_line (sp1 + 1) of
                    None \<Rightarrow> None
                  | Some sp2 \<Rightarrow>
                      (case from_chars_int (take (sp2 - sp1 - 1) (drop (sp1 + 1) status_line)) of
                         None \<Rightarrow> None
                       | Some status \<Rightarrow>
                           if status < 100 \<or> status > 999 then None
                           else map_option (\<lambda>hs. \<lparr>ph_status = status, ph_headers = hs\<rparr>)
                                  (parse_header_lines (drop (first_crlf + 2) block))))))"

definition header_value :: "(string \<times> string) list \<Rightarrow> string \<Rightarrow> string option" where
  [eval_simps]: "header_value headers name = map_of headers (http_to_lower name)"

subsection \<open>The network\<close>

record ('ep, 'w) tls_net =
  net_have_ech :: bool
  net_ctx_ok :: "ctx_call \<Rightarrow> bool"
  net_found_ca :: string
  net_new_stream :: "'w \<Rightarrow> 'w"
  net_arm_timer :: "int \<Rightarrow> 'w \<Rightarrow> 'w"
  net_cancel_timer :: "'w \<Rightarrow> 'w"
  net_set_ok :: "'w \<Rightarrow> ssl_call \<Rightarrow> bool"
  net_set :: "ssl_call list \<Rightarrow> 'w \<Rightarrow> 'w"
  net_connect :: "'ep \<Rightarrow> 'w \<Rightarrow> bool \<times> 'w"
  net_handshake :: "'w \<Rightarrow> bool \<times> 'w"
  net_write :: "bytes \<Rightarrow> 'w \<Rightarrow> bool \<times> 'w"
  net_read :: "nat \<Rightarrow> 'w \<Rightarrow> bytes option \<times> 'w"
  net_read_until :: "nat \<Rightarrow> string \<Rightarrow> 'w \<Rightarrow> string option \<times> 'w"
  net_close :: "'w \<Rightarrow> 'w"
  net_ech_code :: "'w \<Rightarrow> ssl_ech_code"
  net_retry_config :: "'w \<Rightarrow> int \<times> bytes option"
  net_now :: "'w \<Rightarrow> int"
  net_ech :: "'w \<Rightarrow> ech_snapshot"
  net_store_ech :: "ech_snapshot \<Rightarrow> 'w \<Rightarrow> 'w"

definition connect_and_handshake :: "('ep, 'w) tls_net \<Rightarrow> 'ep \<Rightarrow> 'w \<Rightarrow> bool \<times> 'w" where
  [eval_simps]: "connect_and_handshake net server w =
     (case net_connect net server w of
        (False, w1) \<Rightarrow> (False, w1)
      | (True, w1) \<Rightarrow> net_handshake net w1)"

text \<open>
  \<open>tls::configure_ssl_for_connection\<close> and \<open>tls::maybe_apply_ech_retry\<close> on the connection the world holds,
  with the ECH parameters that are live in the context at that moment.
\<close>

definition net_configure :: "('ep, 'w) tls_net \<Rightarrow> context_config \<Rightarrow> string \<Rightarrow> 'w \<Rightarrow> bool \<times> 'w" where
  [eval_simps]: "net_configure net c real_sni w =
     (case configure_ssl_for_connection (net_have_ech net) (net_set_ok net w) True (c\<lparr>ctx_ech := net_ech net w\<rparr>) real_sni of
        (ok, calls) \<Rightarrow> (ok, net_set net calls w))"

definition net_apply_retry :: "('ep, 'w) tls_net \<Rightarrow> 'w \<Rightarrow> bool \<times> 'w" where
  [eval_simps]: "net_apply_retry net w =
     (case maybe_apply_ech_retry (net_have_ech net) (Some (net_ech_code net w)) (net_retry_config net w) (net_now net w) (net_ech net w) of
        (applied, s) \<Rightarrow> (applied, if applied then net_store_ech net s w else w))"

text \<open>
  The handshake loop. \<open>None\<close> is \<^verbatim>\<open>co_return nullopt\<close>, \<open>Some ok\<close> is falling out of the loop with
  \<^verbatim>\<open>handshake_ok == ok\<close>.
\<close>

function post_handshake :: "('ep, 'w) tls_net \<Rightarrow> context_config \<Rightarrow> 'ep \<Rightarrow> string \<Rightarrow> int \<Rightarrow> nat \<Rightarrow> 'w \<Rightarrow> bool option \<times> 'w" where
  "post_handshake net c server host timeout attempt w =
     (if \<not> attempt < 2 then (Some False, w)
      else case net_configure net c host (net_arm_timer net timeout (net_cancel_timer net (net_new_stream net w))) of
        (False, w1) \<Rightarrow> (None, w1)
      | (True, w1) \<Rightarrow>
          (case connect_and_handshake net server w1 of
             (True, w2) \<Rightarrow> (Some True, w2)
           | (False, w2) \<Rightarrow>
               if attempt = 0
               then (case net_apply_retry net w2 of
                       (True, w3) \<Rightarrow> post_handshake net c server host timeout (attempt + 1) w3
                     | (False, w3) \<Rightarrow> (None, w3))
               else (None, w2)))"
  by pat_completeness auto
termination
  by (relation "measure (\<lambda>(net, c, server, host, timeout, attempt, w). 2 - attempt)") auto

declare post_handshake.simps [simp del]

subsection \<open>The exchange\<close>

record http_response =
  hr_status :: int
  hr_body :: bytes
  hr_content_type :: string
  hr_ech_status :: ech_status

definition request_head :: "string \<Rightarrow> string \<Rightarrow> string \<Rightarrow> nat \<Rightarrow> string" where
  [eval_simps]: "request_head path host_header content_type body_size =
     ''POST '' @ path @ '' HTTP/1.1'' @ crlf
     @ ''Host: '' @ host_header @ crlf
     @ ''User-Agent: cloakdns/1'' @ crlf
     @ ''Accept: '' @ content_type @ crlf
     @ ''Content-Type: '' @ content_type @ crlf
     @ ''Content-Length: '' @ dec_string body_size @ crlf
     @ ''Connection: close'' @ crlf
     @ crlf"

definition write_request :: "('ep, 'w) tls_net \<Rightarrow> string \<Rightarrow> bytes \<Rightarrow> 'w \<Rightarrow> bool \<times> 'w" where
  [eval_simps]: "write_request net head body w =
     (case net_write net (map char_byte head) w of
        (False, w1) \<Rightarrow> (False, w1)
      | (True, w1) \<Rightarrow> if body \<noteq> [] then net_write net body w1 else (True, w1))"

definition kMaxHead :: nat where [eval_simps]: "kMaxHead = 16 * 1024"

definition kMaxBody :: nat where [eval_simps]: "kMaxBody = 64 * 1024"

text \<open>The part after the request is written: read the head, then the rest of the body.\<close>

definition read_response :: "('ep, 'w) tls_net \<Rightarrow> 'w \<Rightarrow> http_response option \<times> 'w" where
  [eval_simps]: "read_response net w =
     (case net_read_until net kMaxHead kDelim w of
        (None, w1) \<Rightarrow> (None, w1)
      | (Some head_buf, w1) \<Rightarrow>
          let ech_state = ech_status_of (net_have_ech net) (Some (net_ech_code net w1)) in
          (case parse_response_head head_buf of
             None \<Rightarrow> (None, w1)
           | Some parsed \<Rightarrow>
               (case header_value (ph_headers parsed) ''content-length'' of
                  None \<Rightarrow> (None, w1)
                | Some cl_str \<Rightarrow>
                    (case from_chars_below (2 ^ 64) (trim cl_str) of
                       None \<Rightarrow> (None, w1)
                     | Some body_len \<Rightarrow>
                         if body_len > kMaxBody then (None, w1)
                         else
                           let body_start = find_headers_end head_buf;
                               already = length head_buf - body_start;
                               copied = min already body_len;
                               front = map char_byte (take copied (drop body_start head_buf));
                               resp = (\<lambda>body. \<lparr>hr_status = ph_status parsed, hr_body = body,
                                 hr_content_type = (case header_value (ph_headers parsed) ''content-type'' of None \<Rightarrow> [] | Some v \<Rightarrow> v),
                                 hr_ech_status = ech_state\<rparr>) in
                           if copied < body_len then
                             (case net_read net (body_len - copied) w1 of
                                (None, w2) \<Rightarrow> (None, w2)
                              | (Some tail, w2) \<Rightarrow> (Some (resp (front @ tail)), net_close net (net_cancel_timer net w2)))
                           else (Some (resp front), net_close net (net_cancel_timer net w1))))))"

definition post_https_oneshot ::
    "('ep, 'w) tls_net \<Rightarrow> context_config \<Rightarrow> 'ep \<Rightarrow> string \<Rightarrow> string \<Rightarrow> string \<Rightarrow> bytes \<Rightarrow> int \<Rightarrow> 'w \<Rightarrow> http_response option \<times> 'w" where
  [eval_simps]: "post_https_oneshot net c server host_header path content_type body timeout w =
     (if host_header = [] then (None, w)
      else case post_handshake net c server host_header timeout 0 w of
        (None, w1) \<Rightarrow> (None, w1)
      | (Some False, w1) \<Rightarrow> (None, w1)
      | (Some True, w1) \<Rightarrow>
          (case write_request net (request_head path host_header content_type (length body)) body w1 of
             (False, w2) \<Rightarrow> (None, w2)
           | (True, w2) \<Rightarrow> read_response net w2))"

section \<open>Heads\<close>

lemma dropWhile_none: "(\<And>c. c \<in> set s \<Longrightarrow> \<not> P c) \<Longrightarrow> dropWhile P s = s"
  by (cases s) auto

text \<open>Lines joined by CRLF, without one at the end, and the head a server sends.\<close>

fun joined :: "string list \<Rightarrow> string" where
  "joined [] = []"
| "joined [l] = l"
| "joined (l # l' # ls) = l @ crlf @ joined (l' # ls)"

definition header_line :: "string \<times> string \<Rightarrow> string" where
  "header_line h = fst h @ CHR '':'' # snd h"

definition status_line :: "nat \<Rightarrow> string \<Rightarrow> string" where
  "status_line status reason = ''HTTP/1.1 '' @ dec_string status @ '' '' @ reason"

definition render_head :: "nat \<Rightarrow> string \<Rightarrow> (string \<times> string) list \<Rightarrow> string" where
  "render_head status reason hs = joined (status_line status reason # map header_line hs) @ kDelim"

definition header_ok :: "string \<times> string \<Rightarrow> bool" where
  "header_ok h \<longleftrightarrow> CHR '':'' \<notin> set (fst h) \<and> CHR 0x0D \<notin> set (fst h) \<and> CHR 0x0D \<notin> set (snd h)"

lemma find_delim_joined:
  assumes "lines \<noteq> []" "\<forall>l \<in> set lines. l \<noteq> [] \<and> CHR 0x0D \<notin> set l"
  shows "find_sub kDelim (joined lines @ kDelim @ body) = Some (length (joined lines))"
  using assms
proof (induction lines rule: joined.induct)
  case (2 l)
  then show ?case using find_sub_first [of "CHR 0x0D" l "[CHR 0x0A, CHR 0x0D, CHR 0x0A]" body] by (simp add: kDelim_def crlf_def)
next
  case (3 l l' ls)
  let ?rest = "joined (l' # ls) @ kDelim @ body"
  obtain c r where c: "?rest = c # r" "c \<noteq> CHR 0x0D" using "3.prems" by (cases l'; cases ls) auto
  have "find_sub kDelim (crlf @ ?rest) = map_option (\<lambda>i. i + 2) (find_sub kDelim ?rest)"
    using c by (simp add: kDelim_def crlf_def option.map_comp comp_def)
  then have "find_sub kDelim (crlf @ ?rest) = Some (length (joined (l' # ls)) + 2)" using 3 by simp
  then show ?case using "3.prems" find_sub_skip [of "CHR 0x0D" l "[CHR 0x0A, CHR 0x0D, CHR 0x0A]" "crlf @ ?rest"]
    by (simp add: kDelim_def crlf_def)
qed simp

lemma header_line_facts:
  assumes "header_ok h"
  shows "header_line h \<noteq> []" "CHR 0x0D \<notin> set (header_line h)"
    "parse_header_line (header_line h) = Some [(http_to_lower (fst h), trim (snd h))]"
  using assms find_char_first [of "CHR '':''" "fst h" "snd h"]
  by (auto simp: header_line_def header_ok_def parse_header_line_def)

lemma parse_joined_headers:
  assumes "\<forall>h \<in> set hs. header_ok h"
  shows "parse_header_lines (joined (map header_line hs)) = Some (map (\<lambda>(k, v). (http_to_lower k, trim v)) hs)"
  using assms
proof (induction hs rule: induct_list012)
  case 1
  show ?case by (simp add: parse_header_lines.simps)
next
  case (2 h)
  then have "find_sub crlf (header_line h) = None" using header_line_facts [of h] by (simp add: crlf_def find_sub_absent)
  then show ?case using 2 header_line_facts [of h] by (simp add: parse_header_lines.simps split: prod.split)
next
  case (3 h h' hs)
  let ?rest = "joined (map header_line (h' # hs))"
  note hl = header_line_facts [of h]
  have "find_sub crlf (header_line h @ crlf @ ?rest) = Some (length (header_line h))"
    using hl 3 find_sub_first [of "CHR 0x0D" "header_line h" "[CHR 0x0A]" ?rest] by (simp add: crlf_def)
  then have "parse_header_lines (header_line h @ crlf @ ?rest) =
      map_option (\<lambda>more. (http_to_lower (fst h), trim (snd h)) # more) (parse_header_lines ?rest)"
    using hl 3 by (subst parse_header_lines.simps) (simp add: crlf_def)
  then show ?case using 3 by (simp split: prod.split)
qed

lemma status_token:
  assumes "status < 1000" "CHR '' '' \<notin> set (dec_string status)"
  shows "find_char (CHR '' '') (status_line status reason) 0 = Some 8"
    "find_char (CHR '' '') (status_line status reason) 9 = Some (9 + length (dec_string status))"
    "take (length (dec_string status)) (drop 9 (status_line status reason)) = dec_string status"
proof -
  show "find_char (CHR '' '') (status_line status reason) 0 = Some 8"
    by (simp add: status_line_def find_char_def)
  show "find_char (CHR '' '') (status_line status reason) 9 = Some (9 + length (dec_string status))"
    using index_of_first [OF assms(2), of reason] by (simp add: status_line_def find_char_def add.commute)
  show "take (length (dec_string status)) (drop 9 (status_line status reason)) = dec_string status"
    by (simp add: status_line_def)
qed

lemma dec_string_no_space: "CHR '' '' \<notin> set (dec_string n)" "CHR 0x0D \<notin> set (dec_string n)" "CHR 0x09 \<notin> set (dec_string n)"
  using dec_string_chars [of "CHR '' ''" n] dec_string_chars [of "CHR 0x0D" n] dec_string_chars [of "CHR 0x09" n]
  by (auto simp: is_digit_def)

lemma parse_rendered_head:
  assumes "100 \<le> status" "status \<le> 999" "CHR 0x0D \<notin> set reason" "hs \<noteq> []" "\<forall>h \<in> set hs. header_ok h"
  shows "find_headers_end (render_head status reason hs @ body) = length (render_head status reason hs)"
    "parse_response_head (render_head status reason hs @ body) =
       Some \<lparr>ph_status = int status, ph_headers = map (\<lambda>(k, v). (http_to_lower k, trim v)) hs\<rparr>"
proof -
  let ?sl = "status_line status reason" and ?hd = "joined (map header_line hs)"
  have cr: "CHR 0x0D \<notin> set ?sl" using assms(3) dec_string_no_space [of status] by (simp add: status_line_def)
  have ok: "\<forall>l \<in> set (?sl # map header_line hs). l \<noteq> [] \<and> CHR 0x0D \<notin> set l"
    using cr header_line_facts assms(5) by (auto simp: status_line_def)
  have j: "joined (?sl # map header_line hs) = ?sl @ crlf @ ?hd" using assms(4) by (cases hs) auto
  have fe: "find_headers_end (render_head status reason hs @ body) = length (render_head status reason hs)"
    using find_delim_joined [OF _ ok, of body] by (simp add: find_headers_end_def render_head_def)
  then show "find_headers_end (render_head status reason hs @ body) = length (render_head status reason hs)" .
  have blk: "take (length (render_head status reason hs) - 4) (render_head status reason hs @ body) = ?sl @ crlf @ ?hd"
    by (simp add: render_head_def j kDelim_def crlf_def)
  have fc: "find_sub crlf (?sl @ crlf @ ?hd) = Some (length ?sl)"
    using cr find_sub_first [of "CHR 0x0D" ?sl "[CHR 0x0A]" ?hd] by (simp add: crlf_def)
  have pos: "length (render_head status reason hs) \<noteq> 0" by (simp add: render_head_def kDelim_def crlf_def)
  have num: "from_chars_int (dec_string status) = Some (int status)" using from_chars_int_dec [of status "[]"] assms by simp
  show "parse_response_head (render_head status reason hs @ body) =
       Some \<lparr>ph_status = int status, ph_headers = map (\<lambda>(k, v). (http_to_lower k, trim v)) hs\<rparr>"
    unfolding parse_response_head_def Let_def fe blk fc
    using pos assms num status_token [of status reason] dec_string_no_space [of status] parse_joined_headers [OF assms(5)]
    by (simp add: crlf_def)
qed

section \<open>The handshake loop\<close>

definition fresh_stream :: "('ep, 'w) tls_net \<Rightarrow> int \<Rightarrow> 'w \<Rightarrow> 'w" where
  "fresh_stream net timeout w = net_arm_timer net timeout (net_cancel_timer net (net_new_stream net w))"

text \<open>One attempt that got through: the connection was configured for the host and the handshake completed.\<close>

definition attempt_ok :: "('ep, 'w) tls_net \<Rightarrow> context_config \<Rightarrow> 'ep \<Rightarrow> string \<Rightarrow> int \<Rightarrow> 'w \<Rightarrow> 'w \<Rightarrow> bool" where
  "attempt_ok net c server host timeout w w' \<longleftrightarrow>
     (\<exists>w1. net_configure net c host (fresh_stream net timeout w) = (True, w1) \<and> connect_and_handshake net server w1 = (True, w'))"

text \<open>One attempt that failed in the handshake with authenticated retry configurations, which were stored.\<close>

definition attempt_retry :: "('ep, 'w) tls_net \<Rightarrow> context_config \<Rightarrow> 'ep \<Rightarrow> string \<Rightarrow> int \<Rightarrow> 'w \<Rightarrow> 'w \<Rightarrow> bool" where
  "attempt_retry net c server host timeout w w' \<longleftrightarrow>
     (\<exists>w1 w2 b. net_configure net c host (fresh_stream net timeout w) = (True, w1) \<and> connect_and_handshake net server w1 = (False, w2) \<and>
        net_have_ech net \<and> net_ech_code net w2 = RcFailedEch \<and> net_retry_config net w2 = (1, Some b) \<and> b \<noteq> [] \<and>
        w' = net_store_ech net \<lparr>ech_bytes = Some b, outer_servername = outer_servername (net_ech net w2), fetched_at = net_now net w2\<rparr> w2)"

lemma ech_snapshot_retry: "s\<lparr>ech_bytes := b, fetched_at := t\<rparr> = \<lparr>ech_bytes = b, outer_servername = outer_servername s, fetched_at = t\<rparr>"
  by (cases s) simp

lemma net_apply_retry_True:
  assumes "net_apply_retry net w = (True, w')"
  obtains b where "net_have_ech net" "net_ech_code net w = RcFailedEch" "net_retry_config net w = (1, Some b)" "b \<noteq> []"
    "w' = net_store_ech net \<lparr>ech_bytes = Some b, outer_servername = outer_servername (net_ech net w), fetched_at = net_now net w\<rparr> w"
proof -
  obtain rc p where rp: "net_retry_config net w = (rc, p)" by fastforce
  show thesis using assms that rp
    by (auto simp: net_apply_retry_def maybe_apply_ech_retry_def ech_status_of_def ech_retry_config_def ech_update_def ech_snapshot_retry
        split: if_splits option.splits ssl_ech_code.splits)
qed

text \<open>The loop runs at most twice, and the second time only after a retry.\<close>

lemma post_handshake_second:
  assumes "post_handshake net c server host timeout (Suc 0) w = (r, w')"
  shows "(r = None \<or> r = Some True) \<and> (r = Some True \<longrightarrow> attempt_ok net c server host timeout w w')"
proof -
  obtain ok1 w1 where conf: "net_configure net c host (fresh_stream net timeout w) = (ok1, w1)" by fastforce
  obtain ok2 w2 where hs: "connect_and_handshake net server w1 = (ok2, w2)" by fastforce
  have "post_handshake net c server host timeout (Suc 0) w =
      (if \<not> ok1 then (None, w1) else if ok2 then (Some True, w2) else (None, w2))"
    using conf hs by (subst post_handshake.simps) (simp add: fresh_stream_def)
  then show ?thesis using assms conf hs by (auto simp: attempt_ok_def split: if_splits)
qed

lemma post_handshake_first:
  assumes "post_handshake net c server host timeout 0 w = (r, w')"
  shows "(r = None \<or> r = Some True) \<and> (r = Some True \<longrightarrow>
    attempt_ok net c server host timeout w w' \<or>
    (\<exists>wr. attempt_retry net c server host timeout w wr \<and> attempt_ok net c server host timeout wr w'))"
proof -
  obtain ok1 w1 where conf: "net_configure net c host (fresh_stream net timeout w) = (ok1, w1)" by fastforce
  obtain ok2 w2 where hs: "connect_and_handshake net server w1 = (ok2, w2)" by fastforce
  obtain ok3 w3 where re: "net_apply_retry net w2 = (ok3, w3)" by fastforce
  have run: "post_handshake net c server host timeout 0 w =
      (if \<not> ok1 then (None, w1) else if ok2 then (Some True, w2)
       else if ok3 then post_handshake net c server host timeout (Suc 0) w3 else (None, w3))"
    using conf hs re by (subst post_handshake.simps) (simp add: fresh_stream_def)
  show ?thesis
  proof (cases "ok1 \<and> \<not> ok2 \<and> ok3")
    case True
    then have "post_handshake net c server host timeout (Suc 0) w3 = (r, w')" using assms run by simp
    moreover have "attempt_retry net c server host timeout w w3"
    proof -
      have "net_apply_retry net w2 = (True, w3)" using re True by simp
      then show ?thesis by (rule net_apply_retry_True) (use conf hs True in \<open>auto simp: attempt_retry_def\<close>)
    qed
    ultimately show ?thesis using post_handshake_second [of net c server host timeout w3 r w'] by blast
  next
    case False
    then have "\<not> ok1 \<and> r = None \<or> ok1 \<and> ok2 \<and> r = Some True \<and> w' = w2 \<or> ok1 \<and> r = None"
      using assms run by (simp split: if_splits)
    then show ?thesis using conf hs by (auto simp only: attempt_ok_def)
  qed
qed

lemma trim_dec_string: "trim (dec_string n) = dec_string n"
proof -
  have blank: "\<not> is_blank c" if "c \<in> set (dec_string n)" for c
    using that dec_string_no_space [of n] by (auto simp: is_blank_def)
  have "dropWhile is_blank (dec_string n) = dec_string n" "dropWhile is_blank (rev (dec_string n)) = rev (dec_string n)"
    by (rule dropWhile_none, use blank in simp)+
  then show ?thesis by (simp add: trim_def)
qed

section \<open>Properties\<close>


definition sample_net :: "(unit, unit) tls_net" where
  [eval_simps]: "sample_net = \<lparr>net_have_ech = False, net_ctx_ok = (\<lambda>_. True), net_found_ca = [], net_new_stream = id, net_arm_timer = (\<lambda>_. id), net_cancel_timer = id,
     net_set_ok = (\<lambda>_ _. True), net_set = (\<lambda>_. id), net_connect = (\<lambda>_ w. (True, w)), net_handshake = (\<lambda>w. (True, w)),
     net_write = (\<lambda>_ w. (True, w)), net_read = (\<lambda>n w. (Some (replicate n 7), w)),
     net_read_until = (\<lambda>_ _ w. (Some (render_head 200 ''OK'' [(''Content-Length'', '' 3'')] @ map byte_char [9]), w)),
     net_close = id, net_ech_code = (\<lambda>_. RcNotTried), net_retry_config = (\<lambda>_. (0, None)), net_now = (\<lambda>_. 0),
     net_ech = (\<lambda>_. default_snapshot), net_store_ech = (\<lambda>_. id)\<rparr>"


text \<open>C28: The handshake loop retries at most once and only for a reason. When it ends well, either the first
  attempt was configured for the host and completed its handshake, or the first attempt failed with
  the status that authenticated retry configurations arrived, a non-empty list was handed out and
  stored with the outer name kept, and a second attempt completed. It never ends undecided.\<close>

theorem post_handshake_sound:
  assumes "post_handshake net c server host timeout 0 w = (r, w')"
  shows "(r = None \<or> r = Some True) \<and> (r = Some True \<longrightarrow>
    attempt_ok net c server host timeout w w' \<or>
    (\<exists>wr. attempt_retry net c server host timeout w wr \<and> attempt_ok net c server host timeout wr w'))"
  by (rule post_handshake_first [OF assms])

text \<open>A server that refuses the first handshake with retry configurations and takes the second; the world
  counts the handshakes and holds the ECH parameters.\<close>

definition retry_net :: "(unit, nat \<times> ech_snapshot) tls_net" where
  [eval_simps]: "retry_net = \<lparr>net_have_ech = True, net_ctx_ok = (\<lambda>_. True), net_found_ca = [], net_new_stream = id, net_arm_timer = (\<lambda>_. id), net_cancel_timer = id,
     net_set_ok = (\<lambda>_ _. True), net_set = (\<lambda>_. id), net_connect = (\<lambda>_ w. (True, w)),
     net_handshake = (\<lambda>(n, s). (ech_bytes s = Some [5], (Suc n, s))),
     net_write = (\<lambda>_ w. (True, w)), net_read = (\<lambda>n w. (Some (replicate n 7), w)), net_read_until = (\<lambda>_ _ w. (None, w)),
     net_close = id, net_ech_code = (\<lambda>_. RcFailedEch), net_retry_config = (\<lambda>_. (1, Some [5])), net_now = (\<lambda>_. 42),
     net_ech = snd, net_store_ech = (\<lambda>s (n, _). (n, s))\<rparr>"

theorem post_handshake_sound_witness:
  "\<exists>wr. attempt_retry retry_net sample_context () ''d.example'' 2000 (0, \<lparr>ech_bytes = Some [1], outer_servername = ''o'', fetched_at = 0\<rparr>) wr \<and>
     attempt_ok retry_net sample_context () ''d.example'' 2000 wr (2, \<lparr>ech_bytes = Some [5], outer_servername = ''o'', fetched_at = 42\<rparr>)"
proof -
  let ?w = "(0, \<lparr>ech_bytes = Some [1], outer_servername = ''o'', fetched_at = 0\<rparr>) :: nat \<times> ech_snapshot"
  have run: "post_handshake retry_net sample_context () ''d.example'' 2000 0 ?w
      = (Some True, (2, \<lparr>ech_bytes = Some [5], outer_servername = ''o'', fetched_at = 42\<rparr>))"
    by (simp add: post_handshake.simps eval_simps)
  have "\<not> attempt_ok retry_net sample_context () ''d.example'' 2000 ?w (2, \<lparr>ech_bytes = Some [5], outer_servername = ''o'', fetched_at = 42\<rparr>)"
    by (simp add: attempt_ok_def fresh_stream_def eval_simps)
  with post_handshake_sound [OF run] show ?thesis by blast
qed

end
