(* ===== verification/Config.thy ===== *)
theory Config
  imports Text Tls
begin

text \<open>
  \<^verbatim>\<open>config.hpp\<close> and \<^verbatim>\<open>config.cpp\<close>: the configuration structs with their defaults and the checks of the
  loader. The TOML library is not under \<^verbatim>\<open>src/\<close>: a table is the record of what its accessors
  \<^verbatim>\<open>value<string>\<close>, \<^verbatim>\<open>value<int64_t>\<close>, \<^verbatim>\<open>value<bool>\<close> and \<^verbatim>\<open>as_array\<close> return for a key (\<open>None\<close> also for a key
  of another type), an array is the list of what \<^verbatim>\<open>value<string>\<close> returns for its elements, and parsing
  a text is a parameter. The address parser, the file system and OpenSSL are the record \<open>config_env\<close>.
\<close>

section \<open>Definitions\<close>

subsection \<open>Configuration values\<close>

record endpoint =
  ep_host :: string
  ep_port :: u16

record server_config =
  listen_addr :: string
  listen_port :: u16

datatype upstream_protocol = Udp | Dot | Doh

record upstream_config =
  up_protocol :: upstream_protocol
  up_servers :: "endpoint list"
  up_timeout :: int
  up_retries_on_primary :: int
  up_padding_block_size :: nat
  up_servername :: string
  up_spki_pins :: "string list"
  up_ca_file :: string
  up_doh_path :: string
  up_ech_enabled :: bool
  up_ech_outer_servername :: string
  up_ech_config_list :: bytes
  up_ech_autobootstrap :: bool
  up_ech_bootstrap_servers :: "endpoint list"
  up_ech_grease :: bool

record cache_section =
  cs_max_entries :: nat
  cs_jitter_max :: int
  cs_sweep_interval :: int

record logging_config =
  log_path :: string
  log_async :: bool
  log_queue_size :: nat
  log_max_size_bytes :: nat
  log_redact_client :: bool

record service_config =
  run_as_user :: string
  run_as_group :: string

record config =
  cfg_server :: server_config
  cfg_upstream :: upstream_config
  cfg_blocklist :: "string list"
  cfg_allowlist :: "string list"
  cfg_cache :: cache_section
  cfg_uncloak_max_depth :: int
  cfg_logging :: logging_config
  cfg_service :: service_config

definition default_upstream :: upstream_config where
  [eval_simps]: "default_upstream = \<lparr>up_protocol = Udp,
     up_servers = [\<lparr>ep_host = ''1.1.1.1'', ep_port = 53\<rparr>, \<lparr>ep_host = ''9.9.9.9'', ep_port = 53\<rparr>],
     up_timeout = 2000, up_retries_on_primary = 1, up_padding_block_size = 128, up_servername = [], up_spki_pins = [],
     up_ca_file = [], up_doh_path = ''/dns-query'', up_ech_enabled = False, up_ech_outer_servername = [],
     up_ech_config_list = [], up_ech_autobootstrap = False,
     up_ech_bootstrap_servers = [\<lparr>ep_host = ''1.0.0.1'', ep_port = 53\<rparr>, \<lparr>ep_host = ''8.8.8.8'', ep_port = 53\<rparr>],
     up_ech_grease = False\<rparr>"

definition default_config :: config where
  [eval_simps]: "default_config = \<lparr>cfg_server = \<lparr>listen_addr = ''127.0.0.1'', listen_port = 5354\<rparr>,
     cfg_upstream = default_upstream, cfg_blocklist = [''blocklists/tier1.txt''], cfg_allowlist = [],
     cfg_cache = \<lparr>cs_max_entries = 50000, cs_jitter_max = 5, cs_sweep_interval = 30\<rparr>, cfg_uncloak_max_depth = 8,
     cfg_logging = \<lparr>log_path = [], log_async = True, log_queue_size = 8192, log_max_size_bytes = 0, log_redact_client = False\<rparr>,
     cfg_service = \<lparr>run_as_user = [], run_as_group = []\<rparr>\<rparr>"

subsection \<open>Reading a table\<close>

record toml_table =
  value_string :: "string \<Rightarrow> string option"
  value_int :: "string \<Rightarrow> int option"
  value_bool :: "string \<Rightarrow> bool option"
  as_array :: "string \<Rightarrow> string option list option"

record config_env =
  env_address_error :: "string \<Rightarrow> string option"
  env_exists :: "string \<Rightarrow> bool"
  env_have_ech :: bool
  env_ech_probe :: "bytes \<Rightarrow> ech_probe"

definition fail :: "string \<Rightarrow> 'a result" where
  [eval_simps]: "fail msg = Inl (ConfigError msg)"

text \<open>\<open>when_value v f c\<close> is \<^verbatim>\<open>if (auto v = ...; v) { ... }\<close>, and \<open>apply_fields\<close> runs such statements in order.\<close>

definition when_value :: "'v option \<Rightarrow> ('v \<Rightarrow> 'c \<Rightarrow> 'c result) \<Rightarrow> 'c \<Rightarrow> 'c result" where
  [eval_simps]: "when_value v f c = (case v of None \<Rightarrow> Inr c | Some x \<Rightarrow> f x c)"

fun apply_fields :: "('c \<Rightarrow> 'c result) list \<Rightarrow> 'c \<Rightarrow> 'c result" where
  "apply_fields [] c = Inr c"
| "apply_fields (f # fs) c = bind_result (f c) (apply_fields fs)"

definition int_string :: "int \<Rightarrow> string" where
  [eval_simps]: "int_string i = (if i < 0 then CHR ''-'' # dec_string (nat (- i)) else dec_string (nat i))"

definition parse_uint16 :: "string \<Rightarrow> u16 option" where
  [eval_simps]: "parse_uint16 s =
     (case from_chars_below (2 ^ 32) s of
        None \<Rightarrow> None
      | Some v \<Rightarrow> if dropWhile is_digit s \<noteq> [] then None else if v > 0xffff then None else Some (word_of_nat v))"

definition quoted :: "string \<Rightarrow> string" where
  [eval_simps]: "quoted s = CHR 0x27 # s @ [CHR 0x27]"

definition parse_endpoint :: "string \<Rightarrow> endpoint result" where
  [eval_simps]: "parse_endpoint s =
     (case rfind_char (CHR '':'') s (length s) of
        None \<Rightarrow> fail (''upstream.servers: '' @ quoted s @ '' missing '' @ quoted '':port'')
      | Some colon \<Rightarrow>
          if colon = 0 then fail (''upstream.servers: '' @ quoted s @ '' has empty host'')
          else (case parse_uint16 (drop (colon + 1) s) of
                  None \<Rightarrow> fail (''upstream.servers: '' @ quoted s @ '' port not 0-65535'')
                | Some port \<Rightarrow> Inr \<lparr>ep_host = take colon s, ep_port = port\<rparr>))"

fun parse_endpoints :: "string \<Rightarrow> string option list \<Rightarrow> endpoint list result" where
  "parse_endpoints msg [] = Inr []"
| "parse_endpoints msg (None # els) = fail msg"
| "parse_endpoints msg (Some s # els) =
     bind_result (parse_endpoint s) (\<lambda>ep. bind_result (parse_endpoints msg els) (\<lambda>eps. Inr (ep # eps)))"

fun parse_paths :: "string \<Rightarrow> string option list \<Rightarrow> string list result" where
  "parse_paths msg [] = Inr []"
| "parse_paths msg (None # els) = fail msg"
| "parse_paths msg (Some s # els) = bind_result (parse_paths msg els) (\<lambda>ss. Inr (s # ss))"

fun parse_pins :: "string option list \<Rightarrow> string list result" where
  "parse_pins [] = Inr []"
| "parse_pins (None # els) = fail ''upstream.spki_pins: entries must be strings (\"sha256/<base64>\")''"
| "parse_pins (Some s # els) =
     (if \<not> prefix ''sha256/'' s then fail (''upstream.spki_pins: '' @ quoted s @ '' must start with \"sha256/\"'')
      else bind_result (parse_pins els) (\<lambda>ss. Inr (s # ss)))"

definition parse_server :: "config_env \<Rightarrow> toml_table \<Rightarrow> server_config result" where
  [eval_simps]: "parse_server env t = apply_fields
    [when_value (value_string t ''listen_addr'') (\<lambda>v c. Inr (c\<lparr>listen_addr := v\<rparr>)),
     when_value (value_int t ''listen_port'') (\<lambda>v c.
       if v < 0 \<or> v > 0xffff then fail (''server.listen_port: '' @ int_string v @ '' out of 0..65535'')
       else Inr (c\<lparr>listen_port := word_of_int v\<rparr>)),
     (\<lambda>c. case env_address_error env (listen_addr c) of
        None \<Rightarrow> Inr c
      | Some ec \<Rightarrow> fail (''server.listen_addr: '' @ quoted (listen_addr c) @ '' is not a valid IP address ('' @ ec @ '')''))]
    (cfg_server default_config)"

subsection \<open>The upstream section\<close>

definition set_protocol :: "string \<Rightarrow> upstream_config \<Rightarrow> upstream_config result" where
  [eval_simps]: "set_protocol v c =
     (if v = ''udp'' then Inr (c\<lparr>up_protocol := Udp\<rparr>)
      else if v = ''dot'' then Inr (c\<lparr>up_protocol := Dot\<rparr>)
      else if v = ''doh'' then Inr (c\<lparr>up_protocol := Doh\<rparr>)
      else fail (''upstream.protocol: '' @ quoted v @ '' must be one of \"udp\", \"dot\", \"doh\"''))"

definition set_servers :: "string option list \<Rightarrow> upstream_config \<Rightarrow> upstream_config result" where
  [eval_simps]: "set_servers arr c =
     bind_result (parse_endpoints ''upstream.servers: entries must be strings like \"ip:port\"'' arr) (\<lambda>eps.
       if eps = [] then fail ''upstream.servers: must contain at least one entry'' else Inr (c\<lparr>up_servers := eps\<rparr>))"

definition set_timeout :: "int \<Rightarrow> upstream_config \<Rightarrow> upstream_config result" where
  [eval_simps]: "set_timeout v c = (if v \<le> 0 then fail ''upstream.timeout_ms: must be positive'' else Inr (c\<lparr>up_timeout := v\<rparr>))"

text \<open>\<^verbatim>\<open>static_cast<int>\<close> of a 64-bit value keeps its low 32 bits.\<close>

definition set_retries :: "int \<Rightarrow> upstream_config \<Rightarrow> upstream_config result" where
  [eval_simps]: "set_retries v c = (if v < 0 then fail ''upstream.retries_on_primary: must be >= 0''
     else Inr (c\<lparr>up_retries_on_primary := sint (word_of_int v :: 32 word)\<rparr>))"

definition set_padding :: "int \<Rightarrow> upstream_config \<Rightarrow> upstream_config result" where
  [eval_simps]: "set_padding v c = (if v < 0 then fail ''upstream.padding_block_size: must be >= 0 (0 disables)''
     else Inr (c\<lparr>up_padding_block_size := nat v\<rparr>))"

definition set_ca_file :: "config_env \<Rightarrow> string \<Rightarrow> upstream_config \<Rightarrow> upstream_config result" where
  [eval_simps]: "set_ca_file env v c = (if v \<noteq> [] \<and> \<not> env_exists env v then fail (''upstream.ca_file: '' @ quoted v @ '' does not exist'')
     else Inr (c\<lparr>up_ca_file := v\<rparr>))"

definition set_doh_path :: "string \<Rightarrow> upstream_config \<Rightarrow> upstream_config result" where
  [eval_simps]: "set_doh_path v c = (if v = [] \<or> hd v \<noteq> CHR ''/'' then fail (''upstream.doh_path: '' @ quoted v @ '' must start with '' @ quoted ''/'')
     else Inr (c\<lparr>up_doh_path := v\<rparr>))"

definition set_ech_config_list :: "string \<Rightarrow> upstream_config \<Rightarrow> upstream_config result" where
  [eval_simps]: "set_ech_config_list v c = (case base64_decode v of
       Some b \<Rightarrow> Inr (c\<lparr>up_ech_config_list := b\<rparr>)
     | None \<Rightarrow> fail ''upstream.ech_config_list_b64: not valid base64'')"

definition set_bootstrap_servers :: "string option list \<Rightarrow> upstream_config \<Rightarrow> upstream_config result" where
  [eval_simps]: "set_bootstrap_servers arr c =
     bind_result (parse_endpoints ''upstream.ech_bootstrap_servers: entries must be \"ip:port\" strings'' arr) (\<lambda>eps.
       if eps = [] then fail ''upstream.ech_bootstrap_servers: must contain at least one entry''
       else Inr (c\<lparr>up_ech_bootstrap_servers := eps\<rparr>))"

definition check_ech :: "config_env \<Rightarrow> upstream_config \<Rightarrow> upstream_config result" where
  [eval_simps]: "check_ech env c =
     (if \<not> up_ech_enabled c then Inr c
      else if \<not> env_have_ech env then
        fail ''upstream.ech_enabled = true but this build was compiled without ECH support (CLOAKDNS_ECH=OFF). Rebuild with -DCLOAKDNS_ECH=ON against OpenSSL 4.0+, or unset ech_enabled.''
      else if up_ech_config_list c = [] \<and> \<not> up_ech_autobootstrap c then
        fail ''upstream.ech_enabled = true but ech_config_list_b64 is missing or empty AND ech_autobootstrap is off. Either provide the bytes inline, or set ech_autobootstrap = true to fetch them from the upstream's HTTPS DNS record.''
      else if up_ech_config_list c \<noteq> [] then
        (case validate_ech_config_list (env_have_ech env) (env_ech_probe env) (up_ech_config_list c) of
           None \<Rightarrow> Inr c
         | Some err \<Rightarrow> fail (''upstream.ech_config_list_b64: '' @ err))
      else Inr c)"

definition check_servername :: "upstream_config \<Rightarrow> upstream_config result" where
  [eval_simps]: "check_servername c =
     (if (up_protocol c = Dot \<or> up_protocol c = Doh) \<and> up_servername c = []
      then fail ''upstream.servername: required when protocol = \"dot\" or \"doh\"'' else Inr c)"

definition parse_upstream :: "config_env \<Rightarrow> toml_table \<Rightarrow> upstream_config result" where
  [eval_simps]: "parse_upstream env t = apply_fields
    [when_value (value_string t ''protocol'') set_protocol,
     when_value (as_array t ''servers'') set_servers,
     when_value (value_int t ''timeout_ms'') set_timeout,
     when_value (value_int t ''retries_on_primary'') set_retries,
     when_value (value_int t ''padding_block_size'') set_padding,
     when_value (value_string t ''servername'') (\<lambda>v c. Inr (c\<lparr>up_servername := v\<rparr>)),
     when_value (as_array t ''spki_pins'') (\<lambda>arr c. bind_result (parse_pins arr) (\<lambda>ps. Inr (c\<lparr>up_spki_pins := up_spki_pins c @ ps\<rparr>))),
     when_value (value_string t ''ca_file'') (set_ca_file env),
     when_value (value_string t ''doh_path'') set_doh_path,
     when_value (value_bool t ''ech_enabled'') (\<lambda>v c. Inr (c\<lparr>up_ech_enabled := v\<rparr>)),
     when_value (value_string t ''ech_outer_servername'') (\<lambda>v c. Inr (c\<lparr>up_ech_outer_servername := v\<rparr>)),
     when_value (value_string t ''ech_config_list_b64'') set_ech_config_list,
     when_value (value_bool t ''ech_autobootstrap'') (\<lambda>v c. Inr (c\<lparr>up_ech_autobootstrap := v\<rparr>)),
     when_value (value_bool t ''ech_grease'') (\<lambda>v c. Inr (c\<lparr>up_ech_grease := v\<rparr>)),
     when_value (as_array t ''ech_bootstrap_servers'') set_bootstrap_servers,
     check_ech env,
     check_servername]
    default_upstream"

subsection \<open>The other sections\<close>

definition parse_blocklist :: "toml_table \<Rightarrow> string list result" where
  [eval_simps]: "parse_blocklist t = when_value (as_array t ''sources'') (\<lambda>arr _.
     bind_result (parse_paths ''blocklist.sources: entries must be path strings'' arr) (\<lambda>ss.
       if ss = [] then fail ''blocklist.sources: must contain at least one path'' else Inr ss)) (cfg_blocklist default_config)"

definition parse_allowlist :: "toml_table \<Rightarrow> string list result" where
  [eval_simps]: "parse_allowlist t = when_value (as_array t ''sources'') (\<lambda>arr out.
     bind_result (parse_paths ''allowlist.sources: entries must be path strings'' arr) (\<lambda>ss. Inr (out @ ss))) (cfg_allowlist default_config)"

definition parse_cache :: "toml_table \<Rightarrow> cache_section result" where
  [eval_simps]: "parse_cache t = apply_fields
    [when_value (value_int t ''max_entries'') (\<lambda>v c. if v < 0 then fail ''cache.max_entries: must be >= 0''
       else Inr (c\<lparr>cs_max_entries := nat v\<rparr>)),
     when_value (value_int t ''jitter_max_ms'') (\<lambda>v c. if v < 0 then fail ''cache.jitter_max_ms: must be >= 0''
       else Inr (c\<lparr>cs_jitter_max := v\<rparr>)),
     when_value (value_int t ''sweep_interval_s'') (\<lambda>v c. if v \<le> 0 then fail ''cache.sweep_interval_s: must be positive''
       else Inr (c\<lparr>cs_sweep_interval := v\<rparr>))]
    (cfg_cache default_config)"

definition parse_uncloak :: "toml_table \<Rightarrow> int result" where
  [eval_simps]: "parse_uncloak t = when_value (value_int t ''max_depth'') (\<lambda>v _.
     if v < 1 \<or> v > 64 then fail ''uncloak.max_depth: must be in 1..64'' else Inr v) (cfg_uncloak_max_depth default_config)"

definition parse_logging :: "toml_table \<Rightarrow> logging_config result" where
  [eval_simps]: "parse_logging t = apply_fields
    [when_value (value_string t ''path'') (\<lambda>v c. Inr (c\<lparr>log_path := v\<rparr>)),
     when_value (value_bool t ''async'') (\<lambda>v c. Inr (c\<lparr>log_async := v\<rparr>)),
     when_value (value_int t ''queue_size'') (\<lambda>v c. if v \<le> 0 then fail ''logging.queue_size: must be positive''
       else Inr (c\<lparr>log_queue_size := nat v\<rparr>)),
     when_value (value_int t ''max_size_bytes'') (\<lambda>v c. if v < 0 then fail ''logging.max_size_bytes: must be >= 0 (0 disables rotation)''
       else Inr (c\<lparr>log_max_size_bytes := nat v\<rparr>)),
     when_value (value_bool t ''redact_client'') (\<lambda>v c. Inr (c\<lparr>log_redact_client := v\<rparr>))]
    (cfg_logging default_config)"

definition parse_service :: "toml_table \<Rightarrow> service_config result" where
  [eval_simps]: "parse_service t = apply_fields
    [when_value (value_string t ''run_as_user'') (\<lambda>v c. Inr (c\<lparr>run_as_user := v\<rparr>)),
     when_value (value_string t ''run_as_group'') (\<lambda>v c. Inr (c\<lparr>run_as_group := v\<rparr>))]
    (cfg_service default_config)"

text \<open>
  \<open>parse_toml\<close> is \<^verbatim>\<open>toml::parse\<close>: the sections (\<^verbatim>\<open>tbl[name].as_table()\<close>), or the description, line and column
  of the parse error.
\<close>

definition parse_config_toml ::
    "(string \<Rightarrow> (string \<times> nat \<times> nat) + (string \<Rightarrow> toml_table option)) \<Rightarrow> config_env \<Rightarrow> string \<Rightarrow> config result" where
  [eval_simps]: "parse_config_toml parse_toml env text =
     (case parse_toml text of
        Inl (desc, line, column) \<Rightarrow> fail (''TOML parse error: '' @ desc @ '' at line '' @ dec_string line @ '', column '' @ dec_string column)
      | Inr tbl \<Rightarrow> apply_fields
         [when_value (tbl ''server'') (\<lambda>t c. bind_result (parse_server env t) (\<lambda>s. Inr (c\<lparr>cfg_server := s\<rparr>))),
          when_value (tbl ''upstream'') (\<lambda>t c. bind_result (parse_upstream env t) (\<lambda>s. Inr (c\<lparr>cfg_upstream := s\<rparr>))),
          when_value (tbl ''blocklist'') (\<lambda>t c. bind_result (parse_blocklist t) (\<lambda>s. Inr (c\<lparr>cfg_blocklist := s\<rparr>))),
          when_value (tbl ''allowlist'') (\<lambda>t c. bind_result (parse_allowlist t) (\<lambda>s. Inr (c\<lparr>cfg_allowlist := s\<rparr>))),
          when_value (tbl ''cache'') (\<lambda>t c. bind_result (parse_cache t) (\<lambda>s. Inr (c\<lparr>cfg_cache := s\<rparr>))),
          when_value (tbl ''uncloak'') (\<lambda>t c. bind_result (parse_uncloak t) (\<lambda>s. Inr (c\<lparr>cfg_uncloak_max_depth := s\<rparr>))),
          when_value (tbl ''logging'') (\<lambda>t c. bind_result (parse_logging t) (\<lambda>s. Inr (c\<lparr>cfg_logging := s\<rparr>))),
          when_value (tbl ''service'') (\<lambda>t c. bind_result (parse_service t) (\<lambda>s. Inr (c\<lparr>cfg_service := s\<rparr>)))]
         default_config)"

text \<open>\<open>open_read path\<close>: no such file, an error while reading, or the content.\<close>

datatype file_read = CannotOpen | ReadFailed | FileContent string

definition load_config ::
    "(string \<Rightarrow> file_read) \<Rightarrow> (string \<Rightarrow> (string \<times> nat \<times> nat) + (string \<Rightarrow> toml_table option)) \<Rightarrow> config_env \<Rightarrow> string \<Rightarrow> config result" where
  [eval_simps]: "load_config open_read parse_toml env path =
     (case open_read path of
        CannotOpen \<Rightarrow> fail (''cannot open config: '' @ path)
      | ReadFailed \<Rightarrow> fail (''I/O error reading config: '' @ path)
      | FileContent text \<Rightarrow> parse_config_toml parse_toml env text)"

section \<open>Running the statements of a section\<close>

lemma apply_fields_inv:
  assumes "apply_fields fs c = Inr c'" "P c" "list_all (\<lambda>f. \<forall>c c'. P c \<longrightarrow> f c = Inr c' \<longrightarrow> P c') fs"
  shows "P c'"
  using assms by (induction fs arbitrary: c) auto

lemma apply_fields_append: "apply_fields (fs @ gs) c = bind_result (apply_fields fs c) (apply_fields gs)"
proof (induction fs arbitrary: c)
  case (Cons f fs)
  then show ?case by (cases "f c") auto
qed simp

text \<open>A section parser that only fails through \<^verbatim>\<open>fail\<close>.\<close>

definition config_errors :: "'a result \<Rightarrow> bool" where
  "config_errors r \<longleftrightarrow> (\<forall>e. r = Inl e \<longrightarrow> (\<exists>m. e = ConfigError m))"

lemma config_errors_simps [simp]: "config_errors (Inr x)" "config_errors (fail m)"
  by (simp_all add: config_errors_def fail_def)

lemma config_errors_bind: "config_errors r \<Longrightarrow> (\<And>x. r = Inr x \<Longrightarrow> config_errors (f x)) \<Longrightarrow> config_errors (bind_result r f)"
  by (cases r) (auto simp: config_errors_def)

lemma config_errors_fields: "list_all (\<lambda>f. \<forall>c. config_errors (f c)) fs \<Longrightarrow> config_errors (apply_fields fs c)"
  by (induction fs arbitrary: c) (auto intro: config_errors_bind)

lemma config_errors_when: "(\<And>v. config_errors (f v c)) \<Longrightarrow> config_errors (when_value x f c)"
  by (simp add: when_value_def split: option.split)

lemma config_errors_if: "(b \<Longrightarrow> config_errors r) \<Longrightarrow> (\<not> b \<Longrightarrow> config_errors s) \<Longrightarrow> config_errors (if b then r else s)"
  by simp

lemma config_errors_option: "config_errors a \<Longrightarrow> (\<And>v. config_errors (f v)) \<Longrightarrow> config_errors (case x of None \<Rightarrow> a | Some v \<Rightarrow> f v)"
  by (simp split: option.split)

lemmas config_errors_rules = config_errors_bind config_errors_when config_errors_if config_errors_option config_errors_simps

lemma config_errors_parsers [simp]:
  "config_errors (parse_endpoint s)" "config_errors (parse_endpoints msg els)" "config_errors (parse_paths msg els)" "config_errors (parse_pins els)"
proof -
  show ep: "config_errors (parse_endpoint s)" for s
    unfolding parse_endpoint_def by (intro config_errors_rules)
  show "config_errors (parse_endpoints msg els)"
    by (induction msg els rule: parse_endpoints.induct) (auto intro!: config_errors_bind ep)
  show "config_errors (parse_paths msg els)"
    by (induction msg els rule: parse_paths.induct) (auto intro!: config_errors_bind)
  show "config_errors (parse_pins els)"
    by (induction els rule: parse_pins.induct) (auto intro!: config_errors_bind)
qed

lemma config_errors_sections:
  "config_errors (parse_server env t)" "config_errors (parse_upstream env t)" "config_errors (parse_blocklist t)"
  "config_errors (parse_allowlist t)" "config_errors (parse_cache t)" "config_errors (parse_uncloak t)"
  "config_errors (parse_logging t)" "config_errors (parse_service t)"
proof -
  show "config_errors (parse_server env t)" unfolding parse_server_def
    by (rule config_errors_fields) (auto intro!: config_errors_rules)
  show "config_errors (parse_upstream env t)" unfolding parse_upstream_def
    by (rule config_errors_fields)
       (auto intro!: config_errors_rules config_errors_parsers simp: set_protocol_def set_servers_def set_timeout_def set_retries_def
         set_padding_def set_ca_file_def set_doh_path_def set_ech_config_list_def set_bootstrap_servers_def check_ech_def check_servername_def
         split: option.split)
  show "config_errors (parse_blocklist t)" "config_errors (parse_allowlist t)" "config_errors (parse_uncloak t)"
    unfolding parse_blocklist_def parse_allowlist_def parse_uncloak_def by (auto intro!: config_errors_rules config_errors_parsers)
  show "config_errors (parse_cache t)" "config_errors (parse_logging t)" "config_errors (parse_service t)"
    unfolding parse_cache_def parse_logging_def parse_service_def
    by (rule config_errors_fields, auto intro!: config_errors_rules)+
qed

section \<open>Accepted configurations\<close>

definition endpoints_ok :: "endpoint list \<Rightarrow> bool" where
  "endpoints_ok eps \<longleftrightarrow> eps \<noteq> [] \<and> (\<forall>ep \<in> set eps. ep_host ep \<noteq> [])"

definition upstream_fields_ok :: "config_env \<Rightarrow> upstream_config \<Rightarrow> bool" where
  "upstream_fields_ok env c \<longleftrightarrow> endpoints_ok (up_servers c) \<and> endpoints_ok (up_ech_bootstrap_servers c) \<and> 0 < up_timeout c \<and>
     - (2 ^ 31) \<le> up_retries_on_primary c \<and> up_retries_on_primary c < 2 ^ 31 \<and>
     list_all (prefix ''sha256/'') (up_spki_pins c) \<and> (up_ca_file c = [] \<or> env_exists env (up_ca_file c)) \<and>
     prefix ''/'' (up_doh_path c)"

definition upstream_ok :: "config_env \<Rightarrow> upstream_config \<Rightarrow> bool" where
  "upstream_ok env c \<longleftrightarrow> upstream_fields_ok env c \<and>
     (up_protocol c \<noteq> Udp \<longrightarrow> up_servername c \<noteq> []) \<and>
     (up_ech_enabled c \<longrightarrow> env_have_ech env \<and> (up_ech_config_list c \<noteq> [] \<or> up_ech_autobootstrap c) \<and>
        (up_ech_config_list c \<noteq> [] \<longrightarrow> env_ech_probe env (up_ech_config_list c) = ProbeAccepted))"

definition config_ok :: "config_env \<Rightarrow> config \<Rightarrow> bool" where
  "config_ok env c \<longleftrightarrow> upstream_ok env (cfg_upstream c) \<and>
     (cfg_server c = cfg_server default_config \<or> env_address_error env (listen_addr (cfg_server c)) = None) \<and>
     cfg_blocklist c \<noteq> [] \<and> 1 \<le> cfg_uncloak_max_depth c \<and> cfg_uncloak_max_depth c \<le> 64 \<and>
     0 \<le> cs_jitter_max (cfg_cache c) \<and> 0 < cs_sweep_interval (cfg_cache c) \<and> 0 < log_queue_size (cfg_logging c)"

lemma parse_endpoint_host: "parse_endpoint s = Inr ep \<Longrightarrow> ep_host ep \<noteq> []"
  by (auto simp: parse_endpoint_def fail_def split: option.splits if_splits dest: rfind_char_SomeD)

lemma parse_endpoints_hosts: "parse_endpoints msg els = Inr eps \<Longrightarrow> \<forall>ep \<in> set eps. ep_host ep \<noteq> []"
proof (induction msg els arbitrary: eps rule: parse_endpoints.induct)
  case (3 msg s els)
  then obtain ep rest where "parse_endpoint s = Inr ep" "parse_endpoints msg els = Inr rest" "eps = ep # rest" by auto
  with 3 parse_endpoint_host [of s ep] show ?case by auto
qed (auto simp: fail_def)

lemma parse_pins_prefix: "parse_pins els = Inr ps \<Longrightarrow> list_all (prefix ''sha256/'') ps"
  by (induction els arbitrary: ps rule: parse_pins.induct) (auto simp: fail_def split: if_splits)

lemma set_fields_ok:
  "upstream_fields_ok env c \<Longrightarrow> set_protocol p c = Inr c' \<Longrightarrow> upstream_fields_ok env c'"
  "upstream_fields_ok env c \<Longrightarrow> set_servers arr c = Inr c' \<Longrightarrow> upstream_fields_ok env c'"
  "upstream_fields_ok env c \<Longrightarrow> set_timeout v c = Inr c' \<Longrightarrow> upstream_fields_ok env c'"
  "upstream_fields_ok env c \<Longrightarrow> set_retries v c = Inr c' \<Longrightarrow> upstream_fields_ok env c'"
  "upstream_fields_ok env c \<Longrightarrow> set_padding v c = Inr c' \<Longrightarrow> upstream_fields_ok env c'"
  "upstream_fields_ok env c \<Longrightarrow> set_ca_file env s c = Inr c' \<Longrightarrow> upstream_fields_ok env c'"
  "upstream_fields_ok env c \<Longrightarrow> set_doh_path s c = Inr c' \<Longrightarrow> upstream_fields_ok env c'"
  "upstream_fields_ok env c \<Longrightarrow> set_ech_config_list s c = Inr c' \<Longrightarrow> upstream_fields_ok env c'"
  "upstream_fields_ok env c \<Longrightarrow> set_bootstrap_servers arr c = Inr c' \<Longrightarrow> upstream_fields_ok env c'"
proof -
  assume ok: "upstream_fields_ok env c"
  show "set_protocol p c = Inr c' \<Longrightarrow> upstream_fields_ok env c'"
    using ok by (auto simp: set_protocol_def fail_def upstream_fields_ok_def split: if_splits)
  show "set_servers arr c = Inr c' \<Longrightarrow> upstream_fields_ok env c'" "set_bootstrap_servers arr c = Inr c' \<Longrightarrow> upstream_fields_ok env c'"
    using ok by (auto simp: set_servers_def set_bootstrap_servers_def fail_def upstream_fields_ok_def endpoints_ok_def
        split: if_splits dest: parse_endpoints_hosts)
  show "set_timeout v c = Inr c' \<Longrightarrow> upstream_fields_ok env c'" "set_padding v c = Inr c' \<Longrightarrow> upstream_fields_ok env c'"
    "set_ca_file env s c = Inr c' \<Longrightarrow> upstream_fields_ok env c'"
    using ok by (auto simp: set_timeout_def set_padding_def set_ca_file_def fail_def upstream_fields_ok_def split: if_splits)
  show "set_retries v c = Inr c' \<Longrightarrow> upstream_fields_ok env c'"
    using ok sint_ge [of "word_of_int v :: 32 word"] sint_less [of "word_of_int v :: 32 word"]
    by (auto simp: set_retries_def fail_def upstream_fields_ok_def split: if_splits)
  show "set_doh_path s c = Inr c' \<Longrightarrow> upstream_fields_ok env c'"
    using ok by (cases s) (auto simp: set_doh_path_def fail_def upstream_fields_ok_def split: if_splits)
  show "set_ech_config_list s c = Inr c' \<Longrightarrow> upstream_fields_ok env c'"
    using ok by (auto simp: set_ech_config_list_def fail_def upstream_fields_ok_def split: option.splits)
qed

lemma when_value_inv: "(\<And>v c c'. P c \<Longrightarrow> f v c = Inr c' \<Longrightarrow> P c') \<Longrightarrow> \<forall>c c'. P c \<longrightarrow> when_value x f c = Inr c' \<longrightarrow> P c'"
  by (auto simp: when_value_def split: option.splits)

lemma default_upstream_ok: "upstream_ok env default_upstream"
  by (simp add: upstream_ok_def upstream_fields_ok_def endpoints_ok_def default_upstream_def)

lemma check_ech_same: "check_ech env c = Inr c' \<Longrightarrow> c' = c \<and> (up_ech_enabled c \<longrightarrow> env_have_ech env \<and>
    (up_ech_config_list c \<noteq> [] \<or> up_ech_autobootstrap c) \<and> (up_ech_config_list c \<noteq> [] \<longrightarrow> env_ech_probe env (up_ech_config_list c) = ProbeAccepted))"
  by (auto simp: check_ech_def fail_def validate_ech_config_list_def split: if_splits option.splits ech_probe.splits)

lemma check_servername_same: "check_servername c = Inr c' \<Longrightarrow> c' = c \<and> (up_protocol c \<noteq> Udp \<longrightarrow> up_servername c \<noteq> [])"
  by (cases "up_protocol c") (auto simp: check_servername_def fail_def split: if_splits)

lemma parse_upstream_ok:
  assumes "parse_upstream env t = Inr c"
  shows "upstream_ok env c"
proof -
  define fs where "fs =
    [when_value (value_string t ''protocol'') set_protocol,
     when_value (as_array t ''servers'') set_servers,
     when_value (value_int t ''timeout_ms'') set_timeout,
     when_value (value_int t ''retries_on_primary'') set_retries,
     when_value (value_int t ''padding_block_size'') set_padding,
     when_value (value_string t ''servername'') (\<lambda>v c. Inr (c\<lparr>up_servername := v\<rparr>)),
     when_value (as_array t ''spki_pins'') (\<lambda>arr c. bind_result (parse_pins arr) (\<lambda>ps. Inr (c\<lparr>up_spki_pins := up_spki_pins c @ ps\<rparr>))),
     when_value (value_string t ''ca_file'') (set_ca_file env),
     when_value (value_string t ''doh_path'') set_doh_path,
     when_value (value_bool t ''ech_enabled'') (\<lambda>v c. Inr (c\<lparr>up_ech_enabled := v\<rparr>)),
     when_value (value_string t ''ech_outer_servername'') (\<lambda>v c. Inr (c\<lparr>up_ech_outer_servername := v\<rparr>)),
     when_value (value_string t ''ech_config_list_b64'') set_ech_config_list,
     when_value (value_bool t ''ech_autobootstrap'') (\<lambda>v c. Inr (c\<lparr>up_ech_autobootstrap := v\<rparr>)),
     when_value (value_bool t ''ech_grease'') (\<lambda>v c. Inr (c\<lparr>up_ech_grease := v\<rparr>)),
     when_value (as_array t ''ech_bootstrap_servers'') set_bootstrap_servers]"
  have "apply_fields (fs @ [check_ech env, check_servername]) default_upstream = Inr c"
    using assms by (simp only: parse_upstream_def fs_def append.simps)
  then obtain c1 c2 where run: "apply_fields fs default_upstream = Inr c1" "check_ech env c1 = Inr c2" "check_servername c2 = Inr c"
    by (auto simp: apply_fields_append)
  have "list_all (\<lambda>f. \<forall>c c'. upstream_fields_ok env c \<longrightarrow> f c = Inr c' \<longrightarrow> upstream_fields_ok env c') fs"
    unfolding fs_def list.pred_inject
    by (intro conjI TrueI when_value_inv; (erule set_fields_ok, assumption)?) (auto simp: upstream_fields_ok_def dest: parse_pins_prefix)
  then have "upstream_fields_ok env c1"
    using apply_fields_inv [OF run(1), of "upstream_fields_ok env"] default_upstream_ok [of env] by (simp add: upstream_ok_def)
  then show ?thesis using check_ech_same [OF run(2)] check_servername_same [OF run(3)] by (simp add: upstream_ok_def)
qed

lemma parse_server_ok: "parse_server env t = Inr s \<Longrightarrow> env_address_error env (listen_addr s) = None"
  by (auto simp: parse_server_def fail_def split: option.splits)

lemma parse_cache_ok:
  assumes "parse_cache t = Inr c" shows "0 \<le> cs_jitter_max c \<and> 0 < cs_sweep_interval c"
  using assms unfolding parse_cache_def
  by (rule apply_fields_inv [where P = "\<lambda>c. 0 \<le> cs_jitter_max c \<and> 0 < cs_sweep_interval c"])
     (auto simp: when_value_def fail_def default_config_def split: option.splits if_splits)

lemma parse_logging_ok:
  assumes "parse_logging t = Inr c" shows "0 < log_queue_size c"
  using assms unfolding parse_logging_def
  by (rule apply_fields_inv [where P = "\<lambda>c. 0 < log_queue_size c"])
     (auto simp: when_value_def fail_def default_config_def split: option.splits if_splits)

lemma parse_lists_ok: "parse_blocklist t = Inr bs \<Longrightarrow> bs \<noteq> []" "parse_uncloak t = Inr d \<Longrightarrow> 1 \<le> d \<and> d \<le> 64"
  by (auto simp: parse_blocklist_def parse_uncloak_def when_value_def fail_def default_config_def split: option.splits if_splits)

section \<open>Properties\<close>


definition sample_table :: toml_table where
  [eval_simps]: "sample_table = \<lparr>value_string = [''protocol'' \<mapsto> ''dot'', ''servername'' \<mapsto> ''d.example''],
     value_int = [''retries_on_primary'' \<mapsto> 4294967295], value_bool = Map.empty,
     as_array = [''servers'' \<mapsto> [Some ''9.9.9.9:853'']]\<rparr>"

definition sample_env :: config_env where
  [eval_simps]: "sample_env = \<lparr>env_address_error = (\<lambda>_. None), env_exists = (\<lambda>_. True), env_have_ech = False, env_ech_probe = (\<lambda>_. ProbeAccepted)\<rparr>"

lemma parse_sample_endpoint: "parse_endpoint ''9.9.9.9:853'' = Inr \<lparr>ep_host = ''9.9.9.9'', ep_port = 853\<rparr>"
  by (simp add: eval_simps)

lemma parse_sample_upstream:
  "parse_upstream sample_env sample_table = Inr (default_upstream\<lparr>up_protocol := Dot, up_servername := ''d.example'',
     up_servers := [\<lparr>ep_host = ''9.9.9.9'', ep_port = 853\<rparr>], up_retries_on_primary := - 1\<rparr>)"
  by (simp add: parse_upstream_def sample_table_def sample_env_def when_value_def set_protocol_def set_servers_def parse_sample_endpoint
      set_retries_def check_ech_def check_servername_def default_upstream_def)


text \<open>Loading a configuration fails in one documented way only: whatever the file, its TOML and its
  values, the error is a \<^verbatim>\<open>ConfigError\<close>.\<close>

theorem load_config_errors:
  assumes "load_config open_read parse_toml env path = Inl e"
  shows "\<exists>msg. e = ConfigError msg"
proof -
  have "config_errors (parse_config_toml parse_toml env s)" for s
  proof (cases "parse_toml s")
    case (Inl x)
    then show ?thesis by (simp add: parse_config_toml_def split: prod.split)
  next
    case (Inr tbl)
    show ?thesis unfolding parse_config_toml_def Inr sum.case
      by (rule config_errors_fields) (auto intro!: config_errors_when config_errors_bind config_errors_sections)
  qed
  then have "config_errors (load_config open_read parse_toml env path)"
    by (simp add: load_config_def split: file_read.split)
  with assms show ?thesis by (simp add: config_errors_def)
qed

theorem load_config_errors_witness:
  "\<exists>msg. load_config (\<lambda>_. CannotOpen) (\<lambda>_. Inr Map.empty) sample_env ''c.toml'' = Inl (ConfigError msg)"
proof -
  obtain e where e: "load_config (\<lambda>_. CannotOpen) (\<lambda>_. Inr Map.empty) sample_env ''c.toml'' = Inl e"
    by (simp add: load_config_def fail_def)
  from load_config_errors [OF e] e show ?thesis by auto
qed

text \<open>Endpoints round trip: a host (which may itself contain colons, as an IPv6 literal does), a colon
  and a port in decimal are read back as that host and that port.\<close>

theorem parse_endpoint_roundtrip:
  assumes "host \<noteq> []"
  shows "parse_endpoint (host @ '':'' @ dec_string (unat port)) = Inr \<lparr>ep_host = host, ep_port = port\<rparr>"
proof -
  let ?d = "dec_string (unat port)" and ?s = "host @ '':'' @ dec_string (unat port)"
  have digits: "list_all is_digit ?d" "CHR '':'' \<notin> set ?d" using dec_string_digits [of "unat port"] dec_string_chars [of "CHR '':''" "unat port"]
    by (auto simp: is_digit_def)
  have "index_of (CHR '':'') (rev ?s) = Some (length ?d)"
    using index_of_first [of "CHR '':''" "rev ?d" "rev host"] digits(2) by simp
  then have colon: "rfind_char (CHR '':'') ?s (length ?s) = Some (length host)" by (simp add: rfind_char_def)
  have small: "unat port < 65536" using unsigned_less [of port, where 'a = nat] by simp
  have "from_chars_below (2 ^ 32) ?d = Some (unat port)" using from_chars_dec [of "unat port" "2 ^ 32" "[]"] small by simp
  moreover have "dropWhile is_digit ?d = []" using digits(1) by (simp add: list_all_iff)
  ultimately have "parse_uint16 ?d = Some port" using small by (simp add: parse_uint16_def)
  with colon assms show ?thesis by (simp add: parse_endpoint_def)
qed

theorem parse_endpoint_roundtrip_witness: "parse_endpoint ''::1:53'' = Inr \<lparr>ep_host = ''::1'', ep_port = 53\<rparr>"
proof -
  have "dec_string 53 = ''53''" by (simp add: dec_string.simps digit_char_def char_of_eq_iff)
  then show ?thesis using parse_endpoint_roundtrip [of "''::1''" 53] by simp
qed

text \<open>A value of another type than the key's is not reported: the key is treated as absent.\<close>

lemma wrong_type_ignored:
  "parse_server sample_env \<lparr>value_string = [''listen_port'' \<mapsto> ''53''], value_int = Map.empty, value_bool = Map.empty, as_array = Map.empty\<rparr>
     = Inr \<lparr>listen_addr = ''127.0.0.1'', listen_port = 5354\<rparr>"
  by (simp add: parse_server_def when_value_def sample_env_def default_config_def)

end
