(* ===== verification/Adapters.thy ===== *)
theory Adapters
  imports Resolver Http Config
begin

text \<open>
  \<^verbatim>\<open>udp_adapter.cpp\<close>, \<^verbatim>\<open>dot_adapter.cpp\<close>, \<^verbatim>\<open>doh_adapter.cpp\<close> and \<^verbatim>\<open>resolver_factory.cpp\<close>: the three
  transports and the assembly of a resolver from its configuration. Sockets are operations on the
  world, as in the HTTP client: a UDP operation that throws \<^verbatim>\<open>system_error\<close> returns its message on the
  left. The address parser of Asio and its stream output are parameters of the factory.
\<close>

section \<open>Definitions\<close>

subsection \<open>UDP\<close>

record ('ep, 'w) udp_net =
  udp_open :: "'w \<Rightarrow> (string + unit) \<times> 'w"
  udp_bind :: "'w \<Rightarrow> (string + unit) \<times> 'w"
  udp_send_to :: "bytes \<Rightarrow> 'ep \<Rightarrow> 'w \<Rightarrow> (string + unit) \<times> 'w"
  udp_arm_timer :: "int \<Rightarrow> 'w \<Rightarrow> 'w"
  udp_receive_from :: "nat \<Rightarrow> 'w \<Rightarrow> (string + bytes \<times> 'ep) \<times> 'w"
  udp_cancel_timer :: "'w \<Rightarrow> 'w"

record 'ep udp_adapter_config =
  udp_server :: 'ep
  udp_label :: string

definition kMaxResponse :: nat where [eval_simps]: "kMaxResponse = 4096"

text \<open>The calls before the \<^verbatim>\<open>try\<close> block: the first one that throws ends \<^verbatim>\<open>try_once\<close> with its exception.\<close>

definition udp_setup :: "('ep, 'w) udp_net \<Rightarrow> 'ep \<Rightarrow> bytes \<Rightarrow> 'w \<Rightarrow> unit result \<times> 'w" where
  [eval_simps]: "udp_setup net server out w =
     (case udp_open net w of
        (Inl m, w1) \<Rightarrow> (Inl (SystemError m), w1)
      | (Inr _, w1) \<Rightarrow>
          (case udp_bind net w1 of
             (Inl m, w2) \<Rightarrow> (Inl (SystemError m), w2)
           | (Inr _, w2) \<Rightarrow>
               (case udp_send_to net out server w2 of
                  (Inl m, w3) \<Rightarrow> (Inl (SystemError m), w3)
                | (Inr _, w3) \<Rightarrow> (Inr (), w3))))"

definition udp_try_once :: "('ep, 'w) udp_net \<Rightarrow> 'ep udp_adapter_config \<Rightarrow> bytes \<Rightarrow> int \<Rightarrow> 'w \<Rightarrow> upstream_reply option result \<times> 'w" where
  [eval_simps]: "udp_try_once net c out timeout w =
     (case udp_setup net (udp_server c) out w of
        (Inl e, w1) \<Rightarrow> (Inl e, w1)
      | (Inr _, w1) \<Rightarrow>
          (case udp_receive_from net kMaxResponse (udp_arm_timer net timeout w1) of
             (Inl _, w2) \<Rightarrow> (Inr None, w2)
           | (Inr (buf, source), w2) \<Rightarrow>
               let w3 = udp_cancel_timer net w2 in
               if source \<noteq> udp_server c then (Inr None, w3)
               else if length buf < 2 then (Inr None, w3)
               else (Inr (Some \<lparr>reply_bytes = buf, reply_ech_status = NotTried\<rparr>), w3)))"

definition make_udp_adapter :: "('ep, 'w) udp_net \<Rightarrow> 'ep udp_adapter_config \<Rightarrow> 'w adapter" where
  [eval_simps]: "make_udp_adapter net c = \<lparr>ad_label = udp_label c, ad_try_once = udp_try_once net c, ad_tls_context = None\<rparr>"

subsection \<open>DNS over TLS\<close>

record 'ep dot_adapter_config =
  dot_server :: 'ep
  dot_servername :: string
  dot_spki_pins :: "string list"
  dot_ca_file :: string
  dot_ech_outer_servername :: string
  dot_ech_config_list :: bytes
  dot_ech_grease :: bool
  dot_label :: string

definition dot_context :: "'ep dot_adapter_config \<Rightarrow> context_config" where
  [eval_simps]: "dot_context c = make_tls_for_adapter
     \<lparr>taf_spki_pins = dot_spki_pins c, taf_servername = dot_servername c, taf_ca_file = dot_ca_file c, taf_ech_grease = dot_ech_grease c,
      taf_ech_outer_servername = dot_ech_outer_servername c, taf_ech_config_list = dot_ech_config_list c\<rparr> AlpnNone"

definition dot_frame :: "bytes \<Rightarrow> bytes result" where
  [eval_simps]: "dot_frame msg =
     (if length msg > 0xffff then Inl (RuntimeError ''dot_frame: message > 65535 bytes'')
      else Inr (write_u16_be [0, 0] 0 (word_of_nat (length msg)) @ msg))"

definition dot_read_framed :: "('ep, 'w) tls_net \<Rightarrow> 'w \<Rightarrow> bytes option \<times> 'w" where
  [eval_simps]: "dot_read_framed net w =
     (case net_read net 2 w of
        (None, w1) \<Rightarrow> (None, w1)
      | (Some len_buf, w1) \<Rightarrow>
          let msg_len = read_u16_be len_buf 0 in
          if msg_len = 0 then (None, w1) else net_read net (unat msg_len) w1)"

function dot_handshake :: "('ep, 'w) tls_net \<Rightarrow> context_config \<Rightarrow> 'ep \<Rightarrow> string \<Rightarrow> int \<Rightarrow> nat \<Rightarrow> 'w \<Rightarrow> bool option \<times> 'w" where
  "dot_handshake net c server servername timeout attempt w =
     (if \<not> attempt < 2 then (Some False, w)
      else
        let w0 = net_arm_timer net timeout (net_cancel_timer net (net_new_stream net w)) in
        case (if servername \<noteq> [] then net_configure net c servername w0 else (True, w0)) of
          (False, w1) \<Rightarrow> (None, w1)
        | (True, w1) \<Rightarrow>
            (case connect_and_handshake net server w1 of
               (True, w2) \<Rightarrow> (Some True, w2)
             | (False, w2) \<Rightarrow>
                 if attempt = 0
                 then (case net_apply_retry net w2 of
                         (True, w3) \<Rightarrow> dot_handshake net c server servername timeout (attempt + 1) w3
                       | (False, w3) \<Rightarrow> (None, w3))
                 else (None, w2)))"
  by pat_completeness auto
termination
  by (relation "measure (\<lambda>(net, c, server, host, timeout, attempt, w). 2 - attempt)") auto

declare dot_handshake.simps [simp del]

definition dot_try_once :: "('ep, 'w) tls_net \<Rightarrow> 'ep dot_adapter_config \<Rightarrow> bytes \<Rightarrow> int \<Rightarrow> 'w \<Rightarrow> upstream_reply option result \<times> 'w" where
  [eval_simps]: "dot_try_once net c out timeout w =
     (case dot_handshake net (dot_context c) (dot_server c) (dot_servername c) timeout 0 w of
        (None, w1) \<Rightarrow> (Inr None, w1)
      | (Some False, w1) \<Rightarrow> (Inr None, w1)
      | (Some True, w1) \<Rightarrow>
          (case dot_frame out of
             Inl e \<Rightarrow> (Inl e, w1)
           | Inr framed \<Rightarrow>
               (case net_write net framed w1 of
                  (False, w2) \<Rightarrow> (Inr None, w2)
                | (True, w2) \<Rightarrow>
                    (case dot_read_framed net w2 of
                       (resp, w3) \<Rightarrow>
                         let w4 = net_cancel_timer net w3;
                             ech = ech_status_of (net_have_ech net) (Some (net_ech_code net w4));
                             w5 = net_close net w4 in
                         (case resp of
                            None \<Rightarrow> (Inr None, w5)
                          | Some b \<Rightarrow> (Inr (Some \<lparr>reply_bytes = b, reply_ech_status = ech\<rparr>), w5))))))"

definition dot_adapter :: "('ep, 'w) tls_net \<Rightarrow> 'ep dot_adapter_config \<Rightarrow> 'w adapter" where
  [eval_simps]: "dot_adapter net c = \<lparr>ad_label = dot_label c, ad_try_once = dot_try_once net c,
     ad_tls_context = Some (net_ech net, net_store_ech net)\<rparr>"

text \<open>The constructor part both TLS adapters share: make the context and store the initial ECH parameters.\<close>

definition open_context :: "('ep, 'w) tls_net \<Rightarrow> context_config \<Rightarrow> 'w \<Rightarrow> unit result \<times> 'w" where
  [eval_simps]: "open_context net c w =
     (case make_context (net_ctx_ok net) (net_found_ca net) c of
        Inl e \<Rightarrow> (Inl e, w)
      | Inr _ \<Rightarrow> (Inr (), net_store_ech net (ctx_ech c) w))"

definition make_dot_adapter :: "('ep, 'w) tls_net \<Rightarrow> 'ep dot_adapter_config \<Rightarrow> 'w \<Rightarrow> 'w adapter result \<times> 'w" where
  [eval_simps]: "make_dot_adapter net c w =
     (if dot_servername c = [] then (Inl (InvalidArgument ''DotAdapter: servername required''), w)
      else case open_context net (dot_context c) w of (r, w1) \<Rightarrow> (bind_result r (\<lambda>_. Inr (dot_adapter net c)), w1))"

subsection \<open>DNS over HTTPS\<close>

record 'ep doh_adapter_config =
  doh_server :: 'ep
  doh_servername :: string
  doh_path :: string
  doh_spki_pins :: "string list"
  doh_ca_file :: string
  doh_ech_outer_servername :: string
  doh_ech_config_list :: bytes
  doh_ech_grease :: bool
  doh_label :: string

definition doh_context :: "'ep doh_adapter_config \<Rightarrow> context_config" where
  [eval_simps]: "doh_context c = make_tls_for_adapter
     \<lparr>taf_spki_pins = doh_spki_pins c, taf_servername = doh_servername c, taf_ca_file = doh_ca_file c, taf_ech_grease = doh_ech_grease c,
      taf_ech_outer_servername = doh_ech_outer_servername c, taf_ech_config_list = doh_ech_config_list c\<rparr> Http1Only"

definition doh_accept :: "http_response \<Rightarrow> upstream_reply option" where
  [eval_simps]: "doh_accept resp =
     (if hr_status resp \<noteq> 200 then None
      else if hr_content_type resp \<noteq> [] \<and> find_sub ''application/dns-message'' (hr_content_type resp) = None then None
      else Some \<lparr>reply_bytes = hr_body resp, reply_ech_status = hr_ech_status resp\<rparr>)"

definition doh_try_once :: "('ep, 'w) tls_net \<Rightarrow> 'ep doh_adapter_config \<Rightarrow> bytes \<Rightarrow> int \<Rightarrow> 'w \<Rightarrow> upstream_reply option result \<times> 'w" where
  [eval_simps]: "doh_try_once net c out timeout w =
     (case post_https_oneshot net (doh_context c) (doh_server c) (doh_servername c) (doh_path c) ''application/dns-message'' out timeout w of
        (None, w1) \<Rightarrow> (Inr None, w1)
      | (Some resp, w1) \<Rightarrow> (Inr (doh_accept resp), w1))"

definition doh_adapter :: "('ep, 'w) tls_net \<Rightarrow> 'ep doh_adapter_config \<Rightarrow> 'w adapter" where
  [eval_simps]: "doh_adapter net c = \<lparr>ad_label = doh_label c, ad_try_once = doh_try_once net c,
     ad_tls_context = Some (net_ech net, net_store_ech net)\<rparr>"

definition make_doh_adapter :: "('ep, 'w) tls_net \<Rightarrow> 'ep doh_adapter_config \<Rightarrow> 'w \<Rightarrow> 'w adapter result \<times> 'w" where
  [eval_simps]: "make_doh_adapter net c w =
     (if doh_servername c = [] then (Inl (InvalidArgument ''DohAdapter: servername (Host header) required''), w)
      else case open_context net (doh_context c) w of (r, w1) \<Rightarrow> (bind_result r (\<lambda>_. Inr (doh_adapter net c)), w1))"

subsection \<open>The factory\<close>

text \<open>
  \<open>addr host\<close> is \<^verbatim>\<open>asio::ip::make_address\<close>, which throws on a malformed literal; \<open>ep\<close> pairs an address and a
  port, \<open>show_ep\<close> is the stream output of an endpoint. The network an adapter works on is chosen per
  position in the server list, since each adapter has a TLS context of its own.
\<close>

record ('addr, 'ep, 'w) factory_env =
  fe_addr :: "string \<Rightarrow> string + 'addr"
  fe_endpoint :: "'addr \<Rightarrow> u16 \<Rightarrow> 'ep"
  fe_show :: "'ep \<Rightarrow> string"
  fe_udp :: "('ep, 'w) udp_net"
  fe_tls :: "nat \<Rightarrow> ('ep, 'w) tls_net"

definition factory_endpoint :: "('addr, 'ep, 'w) factory_env \<Rightarrow> endpoint \<Rightarrow> 'ep result" where
  [eval_simps]: "factory_endpoint env ep =
     (case fe_addr env (ep_host ep) of
        Inl m \<Rightarrow> Inl (SystemError m)
      | Inr a \<Rightarrow> Inr (fe_endpoint env a (ep_port ep)))"

text \<open>The loop over the servers, \<open>build\<close> making the adapter for the server at a position.\<close>

fun build_adapters :: "('addr, 'ep, 'w) factory_env \<Rightarrow> (nat \<Rightarrow> 'ep \<Rightarrow> 'w \<Rightarrow> 'w adapter result \<times> 'w) \<Rightarrow> nat \<Rightarrow> endpoint list \<Rightarrow> 'w
    \<Rightarrow> 'w adapter list result \<times> 'w" where
  "build_adapters env build i [] w = (Inr [], w)"
| "build_adapters env build i (s # ss) w =
     (case factory_endpoint env s of
        Inl e \<Rightarrow> (Inl e, w)
      | Inr ep \<Rightarrow>
          (case build i ep w of
             (Inl e, w1) \<Rightarrow> (Inl e, w1)
           | (Inr ad, w1) \<Rightarrow>
               (case build_adapters env build (i + 1) ss w1 of
                  (r, w2) \<Rightarrow> (bind_result r (\<lambda>ads. Inr (ad # ads)), w2))))"

definition build_udp_adapters :: "('addr, 'ep, 'w) factory_env \<Rightarrow> upstream_config \<Rightarrow> 'w \<Rightarrow> 'w adapter list result \<times> 'w" where
  [eval_simps]: "build_udp_adapters env c = build_adapters env
     (\<lambda>i ep w. (Inr (make_udp_adapter (fe_udp env) \<lparr>udp_server = ep, udp_label = fe_show env ep\<rparr>), w)) 0 (up_servers c)"

definition dot_config_for :: "upstream_config \<Rightarrow> 'ep \<Rightarrow> string \<Rightarrow> 'ep dot_adapter_config" where
  [eval_simps]: "dot_config_for c ep label = \<lparr>dot_server = ep, dot_servername = up_servername c, dot_spki_pins = up_spki_pins c,
     dot_ca_file = up_ca_file c,
     dot_ech_outer_servername = (if up_ech_enabled c then up_ech_outer_servername c else []),
     dot_ech_config_list = (if up_ech_enabled c then up_ech_config_list c else []),
     dot_ech_grease = up_ech_grease c, dot_label = label\<rparr>"

definition build_dot_adapters :: "('addr, 'ep, 'w) factory_env \<Rightarrow> upstream_config \<Rightarrow> 'w \<Rightarrow> 'w adapter list result \<times> 'w" where
  [eval_simps]: "build_dot_adapters env c = build_adapters env
     (\<lambda>i ep. make_dot_adapter (fe_tls env i) (dot_config_for c ep (fe_show env ep))) 0 (up_servers c)"

definition doh_config_for :: "upstream_config \<Rightarrow> 'ep \<Rightarrow> string \<Rightarrow> 'ep doh_adapter_config" where
  [eval_simps]: "doh_config_for c ep label = \<lparr>doh_server = ep, doh_servername = up_servername c, doh_path = up_doh_path c,
     doh_spki_pins = up_spki_pins c, doh_ca_file = up_ca_file c,
     doh_ech_outer_servername = (if up_ech_enabled c then up_ech_outer_servername c else []),
     doh_ech_config_list = (if up_ech_enabled c then up_ech_config_list c else []),
     doh_ech_grease = up_ech_grease c, doh_label = label\<rparr>"

definition build_doh_adapters :: "('addr, 'ep, 'w) factory_env \<Rightarrow> upstream_config \<Rightarrow> 'w \<Rightarrow> 'w adapter list result \<times> 'w" where
  [eval_simps]: "build_doh_adapters env c = build_adapters env
     (\<lambda>i ep. make_doh_adapter (fe_tls env i) (doh_config_for c ep (fe_show env ep))) 0 (up_servers c)"

definition build_from_config :: "('addr, 'ep, 'w) factory_env \<Rightarrow> upstream_config \<Rightarrow> 'w \<Rightarrow> 'w resolver result \<times> 'w" where
  [eval_simps]: "build_from_config env c w =
     (case (case up_protocol c of
              Udp \<Rightarrow> build_udp_adapters env c w
            | Dot \<Rightarrow> build_dot_adapters env c w
            | Doh \<Rightarrow> build_doh_adapters env c w) of
        (r, w1) \<Rightarrow>
          (bind_result r (make_resolver \<lparr>rs_timeout = up_timeout c, retries_on_primary = up_retries_on_primary c,
             padding_block_size = up_padding_block_size c\<rparr>), w1))"

section \<open>The adapter contract\<close>

text \<open>
  The DoT adapter never throws for a message that fits its length prefix, the DoH adapter never
  throws at all.
\<close>

interpretation dot: quiet_adapter "dot_adapter net c" "\<lambda>out. length out \<le> 0xffff" for net c
  by unfold_locales
     (auto simp: dot_adapter_def dot_try_once_def dot_frame_def Let_def split: prod.split option.split bool.split)

interpretation doh: quiet_adapter "doh_adapter net c" "\<lambda>_. True" for net c
  by unfold_locales (auto simp: doh_adapter_def doh_try_once_def split: prod.split option.split)

section \<open>Assembly\<close>

lemma build_adapters_each:
  assumes "build_adapters env build i ss w = (Inr ads, w')"
  shows "length ads = length ss \<and>
    (\<forall>k < length ss. \<exists>ep w0 w1. factory_endpoint env (ss ! k) = Inr ep \<and> build (i + k) ep w0 = (Inr (ads ! k), w1))"
  using assms
proof (induction ss arbitrary: i w ads)
  case (Cons s ss)
  obtain ep ad w1 ads' where step: "factory_endpoint env s = Inr ep" "build i ep w = (Inr ad, w1)"
      "build_adapters env build (i + 1) ss w1 = (Inr ads', w')" "ads = ad # ads'"
    using Cons.prems by (auto split: sum.splits prod.splits)
  from Cons.IH [OF step(3)] have IH: "length ads' = length ss"
    "\<And>k. k < length ss \<Longrightarrow> \<exists>ep w0 w1. factory_endpoint env (ss ! k) = Inr ep \<and> build (i + 1 + k) ep w0 = (Inr (ads' ! k), w1)" by auto
  have "\<exists>ep w0 w1. factory_endpoint env ((s # ss) ! k) = Inr ep \<and> build (i + k) ep w0 = (Inr (ads ! k), w1)" if "k < Suc (length ss)" for k
  proof (cases k)
    case 0
    with step show ?thesis by auto
  next
    case (Suc m)
    with that IH(2) [of m] step(4) show ?thesis by auto
  qed
  with IH(1) step(4) show ?case by simp
qed simp

lemma dot_handshake_eq_post:
  assumes "servername \<noteq> []"
  shows "dot_handshake net c server servername timeout attempt w = post_handshake net c server servername timeout attempt w"
  using assms
proof (induction net c server servername timeout attempt w rule: dot_handshake.induct)
  case (1 net c server servername timeout attempt w)
  obtain ok1 w1 where c: "net_configure net c servername (net_arm_timer net timeout (net_cancel_timer net (net_new_stream net w))) = (ok1, w1)"
    by fastforce
  obtain ok2 w2 where h: "connect_and_handshake net server w1 = (ok2, w2)" by fastforce
  obtain ok3 w3 where r: "net_apply_retry net w2 = (ok3, w3)" by fastforce
  show ?case using 1 c h r by (subst dot_handshake.simps, subst post_handshake.simps) (cases ok1; cases ok2; cases ok3; auto)
qed

lemma frame_prefix: "length msg \<le> 0xffff \<Longrightarrow> dot_frame msg = Inr (u16_hi (word_of_nat (length msg)) # u16_lo (word_of_nat (length msg)) # msg)"
  by (simp add: dot_frame_def write_u16_be_def)

lemma quiet_forward:
  assumes "\<forall>ad \<in> set (rs_adapters rs). quiet_adapter ad fits" "fits (outbound_for (rs_cfg rs) query (fst (draw_id w)))" "12 \<le> length query"
    and "forward draw_id query rs w = (Inl e, rs', w')"
  shows "e = RuntimeError ''resolver: all adapters exhausted''"
proof -
  obtain i w1 where d: "draw_id w = (i, w1)" by fastforce
  let ?k = "nat (1 + retries_on_primary (rs_cfg rs))"
  have "fits (outbound (job_of rs query i))" using assms(2) d by (simp add: job_of_def)
  from try_adapters_no_throw [OF assms(1) this, of ?k "rs_counters rs" w1] obtain x ctrs w2 where
    "try_adapters (job_of rs query i) ?k (rs_adapters rs) (rs_counters rs) w1 = (Inr x, ctrs, w2)" by blast
  from forward_unfold [of query draw_id w, OF assms(3) d this] assms(4) show ?thesis by (auto split: option.splits)
qed

text \<open>The adapter the configuration asks for at a position of the server list.\<close>

definition adapter_for :: "('addr, 'ep, 'w) factory_env \<Rightarrow> upstream_config \<Rightarrow> nat \<Rightarrow> 'ep \<Rightarrow> 'w adapter" where
  "adapter_for env c k ep = (case up_protocol c of
      Udp \<Rightarrow> make_udp_adapter (fe_udp env) \<lparr>udp_server = ep, udp_label = fe_show env ep\<rparr>
    | Dot \<Rightarrow> dot_adapter (fe_tls env k) (dot_config_for c ep (fe_show env ep))
    | Doh \<Rightarrow> doh_adapter (fe_tls env k) (doh_config_for c ep (fe_show env ep)))"

lemma adapter_for_label [simp]: "ad_label (adapter_for env c k ep) = fe_show env ep"
  by (simp add: adapter_for_def make_udp_adapter_def dot_adapter_def doh_adapter_def dot_config_for_def doh_config_for_def split: upstream_protocol.split)

lemma make_tls_adapter_Inr:
  "make_dot_adapter net dc w0 = (Inr ad, w1) \<Longrightarrow> ad = dot_adapter net dc \<and> dot_servername dc \<noteq> []"
  "make_doh_adapter net hc w0 = (Inr ad, w1) \<Longrightarrow> ad = doh_adapter net hc \<and> doh_servername hc \<noteq> []"
  by (auto simp: make_dot_adapter_def make_doh_adapter_def split: if_splits prod.splits)

text \<open>What the factory passes to the loop over the servers, by protocol.\<close>

definition build_step :: "('addr, 'ep, 'w) factory_env \<Rightarrow> upstream_config \<Rightarrow> nat \<Rightarrow> 'ep \<Rightarrow> 'w \<Rightarrow> 'w adapter result \<times> 'w" where
  "build_step env c = (case up_protocol c of
      Udp \<Rightarrow> (\<lambda>i ep w. (Inr (make_udp_adapter (fe_udp env) \<lparr>udp_server = ep, udp_label = fe_show env ep\<rparr>), w))
    | Dot \<Rightarrow> (\<lambda>i ep. make_dot_adapter (fe_tls env i) (dot_config_for c ep (fe_show env ep)))
    | Doh \<Rightarrow> (\<lambda>i ep. make_doh_adapter (fe_tls env i) (doh_config_for c ep (fe_show env ep))))"

lemma build_step_Inr: "build_step env c k ep w0 = (Inr ad, w1) \<Longrightarrow> ad = adapter_for env c k ep \<and> (up_protocol c \<noteq> Udp \<longrightarrow> up_servername c \<noteq> [])"
  by (cases "up_protocol c") (auto simp: build_step_def adapter_for_def dest!: make_tls_adapter_Inr simp: dot_config_for_def doh_config_for_def)

lemma build_from_config_parts:
  assumes "build_from_config env c w = (Inr rs, w')"
  shows "length (rs_adapters rs) = length (up_servers c) \<and> length (rs_counters rs) = length (up_servers c) \<and> rs_adapters rs \<noteq> [] \<and>
    rs_cfg rs = \<lparr>rs_timeout = up_timeout c, retries_on_primary = up_retries_on_primary c, padding_block_size = up_padding_block_size c\<rparr> \<and>
    (\<forall>k < length (up_servers c). \<exists>ep. factory_endpoint env (up_servers c ! k) = Inr ep \<and> rs_adapters rs ! k = adapter_for env c k ep) \<and>
    (up_protocol c \<noteq> Udp \<longrightarrow> up_servername c \<noteq> [])"
proof -
  have build: "(case up_protocol c of Udp \<Rightarrow> build_udp_adapters env c w | Dot \<Rightarrow> build_dot_adapters env c w
        | Doh \<Rightarrow> build_doh_adapters env c w) = build_adapters env (build_step env c) 0 (up_servers c) w"
    by (simp add: build_step_def build_udp_adapters_def build_dot_adapters_def build_doh_adapters_def split: upstream_protocol.split)
  obtain ads where ads: "build_adapters env (build_step env c) 0 (up_servers c) w = (Inr ads, w')"
    and mk: "make_resolver \<lparr>rs_timeout = up_timeout c, retries_on_primary = up_retries_on_primary c, padding_block_size = up_padding_block_size c\<rparr> ads = Inr rs"
    using assms build by (auto simp: build_from_config_def split: prod.splits)
  note each = build_adapters_each [OF ads]
  have rs: "ads \<noteq> []" "rs_adapters rs = ads" "length (rs_counters rs) = length ads"
    "rs_cfg rs = \<lparr>rs_timeout = up_timeout c, retries_on_primary = up_retries_on_primary c, padding_block_size = up_padding_block_size c\<rparr>"
    using mk by (auto simp: make_resolver_def split: if_splits)
  have "\<exists>ep. factory_endpoint env (up_servers c ! k) = Inr ep \<and> ads ! k = adapter_for env c k ep" if "k < length (up_servers c)" for k
    using each that build_step_Inr by (metis add_0)
  moreover have "up_protocol c \<noteq> Udp \<longrightarrow> up_servername c \<noteq> []"
    using each rs(1) build_step_Inr by (metis length_greater_0_conv)
  ultimately show ?thesis using each rs by simp
qed

section \<open>Properties\<close>


definition sample_udp :: "(string \<times> u16, unit) udp_net" where
  [eval_simps]: "sample_udp = \<lparr>udp_open = (\<lambda>w. (Inr (), w)), udp_bind = (\<lambda>w. (Inr (), w)), udp_send_to = (\<lambda>_ _ w. (Inr (), w)),
     udp_arm_timer = (\<lambda>_ w. w), udp_receive_from = (\<lambda>n w. (Inr (sample_response, (''1.1.1.1'', 53)), w)), udp_cancel_timer = (\<lambda>w. w)\<rparr>"

definition sample_tls :: "(string \<times> u16, unit) tls_net" where
  [eval_simps]: "sample_tls = \<lparr>net_have_ech = False, net_ctx_ok = (\<lambda>_. True), net_found_ca = [], net_new_stream = id, net_arm_timer = (\<lambda>_. id), net_cancel_timer = id,
     net_set_ok = (\<lambda>_ _. True), net_set = (\<lambda>_. id), net_connect = (\<lambda>_ w. (False, w)), net_handshake = (\<lambda>w. (True, w)),
     net_write = (\<lambda>_ w. (True, w)), net_read = (\<lambda>n w. (None, w)), net_read_until = (\<lambda>_ _ w. (None, w)),
     net_close = id, net_ech_code = (\<lambda>_. RcNotTried), net_retry_config = (\<lambda>_. (0, None)), net_now = (\<lambda>_. 0),
     net_ech = (\<lambda>_. default_snapshot), net_store_ech = (\<lambda>_. id)\<rparr>"

definition sample_factory :: "(string, string \<times> u16, unit) factory_env" where
  [eval_simps]: "sample_factory = \<lparr>fe_addr = (\<lambda>h. Inr h), fe_endpoint = Pair, fe_show = fst, fe_udp = sample_udp, fe_tls = (\<lambda>_. sample_tls)\<rparr>"

definition sample_dot_upstream :: upstream_config where
  [eval_simps]: "sample_dot_upstream = default_upstream\<lparr>up_protocol := Dot, up_servername := ''d.example'', up_padding_block_size := 0\<rparr>"

lemma sample_build: "\<exists>rs. build_from_config sample_factory sample_dot_upstream () = (Inr rs, ()) \<and> length (rs_adapters rs) = 2"
  by (simp add: build_from_config_def build_dot_adapters_def make_dot_adapter_def open_context_def make_context_def tls_init_def load_trust_anchors_def
      dot_context_def make_tls_for_adapter_def factory_endpoint_def sample_factory_def sample_dot_upstream_def default_upstream_def
      dot_config_for_def sample_tls_def make_resolver_def Let_def)



text \<open>Upstreams that refuse every connection.\<close>

lemma dead_adapters:
  assumes "\<forall>ad \<in> set ads. \<forall>out t w. ad_try_once ad out t w = (Inr None, w)"
  shows "\<exists>ctrs'. try_adapters j k ads ctrs w = (Inr None, ctrs', w)"
  using assms
proof (induction ads arbitrary: k ctrs)
  case (Cons ad ads)
  have dead: "\<exists>c'. try_attempts j ad n ctr w = (Inr None, c', w)" for n ctr
    by (induction n arbitrary: ctr) (use Cons.prems in \<open>auto simp: try_attempts_Suc\<close>)
  show ?case
  proof (cases ctrs)
    case (Cons ctr cs)
    then show ?thesis using dead [of k ctr] Cons.IH [of 1 cs] Cons.prems by fastforce
  qed simp
qed simp

lemma sample_dead: "ad_try_once (dot_adapter sample_tls (dot_config_for sample_dot_upstream ep l)) out t w = (Inr None, w)"
  by (simp add: dot_adapter_def dot_try_once_def dot_handshake.simps [of _ _ _ _ _ 0] eval_simps)


text \<open>A UDP socket error breaks the fallback. The interface promises that a transport error is the result
  \<^verbatim>\<open>nullopt\<close>, but opening, binding and sending happen outside the \<^verbatim>\<open>try\<close> block: when the first UDP
  adapter cannot open its socket, the query fails with the socket's exception and no other adapter is
  asked, however many are configured.\<close>

theorem udp_open_error_skips_fallback:
  assumes "rs_adapters rs = make_udp_adapter net c # rest" "rs_counters rs = ctr # ctrs" "0 \<le> retries_on_primary (rs_cfg rs)"
    and "12 \<le> length query" "udp_open net (snd (draw_id w)) = (Inl m, w')"
  shows "forward draw_id query rs w = (Inl (SystemError m), rs, w')"
proof -
  obtain i w1 where d: "draw_id w = (i, w1)" by fastforce
  obtain n where n: "nat (1 + retries_on_primary (rs_cfg rs)) = Suc n" using assms(3) by (cases "nat (1 + retries_on_primary (rs_cfg rs))") auto
  have "try_adapters (job_of rs query i) (Suc n) (rs_adapters rs) (rs_counters rs) w1 = (Inl (SystemError m), rs_counters rs, w')"
    using assms(1,2,5) d by (simp add: make_udp_adapter_def udp_try_once_def udp_setup_def try_attempts_Suc)
  from forward_unfold [of query draw_id w, OF assms(4) d this [folded n]] show ?thesis by simp
qed

definition broken_udp :: "(string \<times> u16, unit) udp_net" where
  "broken_udp = sample_udp\<lparr>udp_open := \<lambda>w. (Inl ''too many open files'', w)\<rparr>"

definition broken_resolver :: "unit resolver" where
  "broken_resolver = sample_resolver\<lparr>rs_adapters := [make_udp_adapter broken_udp \<lparr>udp_server = (''1.1.1.1'', 53), udp_label = []\<rparr>, echo_adapter],
     rs_counters := [\<lparr>queries_answered = 0, timeouts = 0\<rparr>, \<lparr>queries_answered = 0, timeouts = 0\<rparr>]\<rparr>"

theorem udp_open_error_skips_fallback_witness:
  "forward sample_draw sample_query broken_resolver () = (Inl (SystemError ''too many open files''), broken_resolver, ())"
  by (rule udp_open_error_skips_fallback [of broken_resolver broken_udp "\<lparr>udp_server = (''1.1.1.1'', 53), udp_label = []\<rparr>" "[echo_adapter]"])
     (simp_all add: broken_resolver_def broken_udp_def sample_resolver_def sample_query_def)

text \<open>DoT framing round trips: a message that fits is prefixed with its length in two octets, and a peer
  that reads the prefix and then that many octets gets exactly the message; longer messages are
  refused instead of being cut.\<close>

theorem dot_frame_read:
  assumes "dot_frame msg = Inr framed" "msg \<noteq> []"
    and "net_read net 2 w = (Some (take 2 framed), w1)" "net_read net (length msg) w1 = (Some (drop 2 framed), w2)"
  shows "length msg \<le> 0xffff \<and> length framed = length msg + 2 \<and> dot_read_framed net w = (Some msg, w2) \<and>
    (\<forall>longer. length longer > 0xffff \<longleftrightarrow> (\<exists>e. dot_frame longer = Inl e))"
proof -
  have fits: "length msg \<le> 0xffff" using assms(1) by (simp add: dot_frame_def split: if_splits)
  let ?n = "word_of_nat (length msg) :: u16"
  have n: "unat ?n = length msg" using fits by (simp add: unat_of_nat take_bit_eq_mod)
  have fr: "framed = u16_hi ?n # u16_lo ?n # msg" using frame_prefix [OF fits] assms(1) by simp
  have "read_u16_be [u16_hi ?n, u16_lo ?n] 0 = ?n" by (simp add: read_u16_be_def)
  moreover have "?n \<noteq> 0" using assms(2) n by (metis length_0_conv unat_0)
  ultimately have "dot_read_framed net w = (Some msg, w2)" using assms(3,4) n fr by (simp add: dot_read_framed_def Let_def)
  then show ?thesis using fits fr by (simp add: dot_frame_def)
qed

definition frame_net :: "(string \<times> u16, unit) tls_net" where
  "frame_net = sample_tls\<lparr>net_read := \<lambda>n w. (Some (if n = 2 then [0, 3] else [7, 8, 9]), w)\<rparr>"

theorem dot_frame_read_witness: "dot_read_framed frame_net () = (Some [7, 8, 9], ())"
proof -
  have "dot_frame [7, 8, 9] = Inr [0, 3, 7, 8, 9]" by (simp add: dot_frame_def eval_simps)
  from dot_frame_read [OF this, of frame_net "()" "()" "()"] show ?thesis by (simp add: frame_net_def)
qed

text \<open>The content type is compared with its case: a server that spells it in capitals is not believed.\<close>

lemma doh_content_type_case:
  "doh_accept \<lparr>hr_status = 200, hr_body = b, hr_content_type = ''Application/DNS-Message'', hr_ech_status = s\<rparr> = None"
  by (simp add: doh_accept_def)

end
