(* ===== verification/EchBootstrap.thy ===== *)
theory EchBootstrap
  imports Writer
begin

text \<open>
  \<^verbatim>\<open>ech_bootstrap.cpp\<close>: fetching the ECHConfigList of the upstream from its HTTPS record over plain UDP.
  The socket is a record of operations on a world state; an operation that throws \<^verbatim>\<open>system_error\<close> returns
  \<open>False\<close>. The datagrams a connected socket delivers until the timer (or an error) ends the receive loop
  are a list, so the loop is a recursion over it. The file's own copies of the big-endian accessors are
  those of \<^verbatim>\<open>wire_endian.hpp\<close>.
\<close>

section \<open>Definitions\<close>

definition kQTypeHttps :: u16 where [eval_simps]: "kQTypeHttps = 65"
definition kMaxBootstrapResponse :: nat where [eval_simps]: "kMaxBootstrapResponse = 4096"
definition kSvcParamKeyEch :: u16 where [eval_simps]: "kSvcParamKeyEch = 5"

text \<open>The label loop; the argument is the name from \<^verbatim>\<open>label_start\<close> on.\<close>

function https_labels :: "string \<Rightarrow> bytes result" where
  "https_labels rest =
     (let label = takeWhile (\<lambda>c. c \<noteq> CHR ''.'') rest in
      if label = [] then Inr []
      else if length label > 63 then Inl (RuntimeError ''ech_bootstrap: label > 63 bytes'')
      else
        let here = word_of_nat (length label) # map char_byte label in
        (case dropWhile (\<lambda>c. c \<noteq> CHR ''.'') rest of
           [] \<Rightarrow> Inr here
         | _ # others \<Rightarrow> bind_result (https_labels others) (\<lambda>bs. Inr (here @ bs))))"
  by pat_completeness auto
termination
proof (relation "measure length")
  fix rest :: string and c others
  assume "dropWhile (\<lambda>c. c \<noteq> CHR ''.'') rest = c # others"
  then have "length (c # others) \<le> length rest" by (metis length_dropWhile_le)
  then show "(others, rest) \<in> measure length" by simp
qed simp

declare https_labels.simps [simp del]

definition build_https_query :: "string \<Rightarrow> u16 \<Rightarrow> bytes result" where
  [eval_simps]: "build_https_query qname i =
     (let out = write_u16_be (replicate 12 0) 0 i;
          out = write_u16_be (out[2 := 0x01, 3 := 0x00]) 4 1 in
      bind_result (https_labels qname) (\<lambda>labels.
      Inr (out @ labels @ [0] @ [0, ucast kQTypeHttps, 0, 1])))"

function skip_uncompressed_name :: "bytes \<Rightarrow> nat \<Rightarrow> nat option" where
  "skip_uncompressed_name rdata off =
     (if off < length rdata then
        let b = rdata ! off in
        if b = 0 then Some (off + 1)
        else if b AND 0xc0 \<noteq> 0 then None
        else if off + 1 + unat b > length rdata then None
        else skip_uncompressed_name rdata (off + (1 + unat b))
      else None)"
  by pat_completeness auto
termination
  by (relation "measure (\<lambda>(rdata, off). length rdata - off)") auto

function svcb_params :: "bytes \<Rightarrow> nat \<Rightarrow> bytes option" where
  "svcb_params rdata cursor =
     (if cursor + 4 \<le> length rdata then
        let key = read_u16_be rdata cursor;
            vlen = unat (read_u16_be rdata (cursor + 2)) in
        if cursor + 4 + vlen > length rdata then None
        else if key = kSvcParamKeyEch then Some (take vlen (drop (cursor + 4) rdata))
        else svcb_params rdata (cursor + 4 + vlen)
      else None)"
  by pat_completeness auto
termination
  by (relation "measure (\<lambda>(rdata, cursor). length rdata - cursor)") auto

declare skip_uncompressed_name.simps [simp del] svcb_params.simps [simp del]

definition svcb_extract_ech :: "bytes \<Rightarrow> bytes option" where
  [eval_simps]: "svcb_extract_ech rdata =
     (if length rdata < 3 then None
      else if read_u16_be rdata 0 = 0 then None
      else case skip_uncompressed_name rdata 2 of
        None \<Rightarrow> None
      | Some after_name \<Rightarrow> svcb_params rdata after_name)"

record ('ep, 'w) boot_net =
  bn_draw_id :: "'w \<Rightarrow> u16 \<times> 'w"
  bn_connect :: "'ep \<Rightarrow> 'w \<Rightarrow> bool \<times> 'w"
  bn_arm_timer :: "int \<Rightarrow> 'w \<Rightarrow> 'w"
  bn_send :: "bytes \<Rightarrow> 'w \<Rightarrow> bool \<times> 'w"
  bn_arrivals :: "'w \<Rightarrow> bytes list \<times> 'w"
  bn_cancel_timer :: "'w \<Rightarrow> 'w"

fun await_reply :: "u16 \<Rightarrow> bytes list \<Rightarrow> bytes option" where
  "await_reply our_id [] = None"
| "await_reply our_id (buf # others) =
     (if length buf < 12 then await_reply our_id others
      else case parse buf of
        Inl _ \<Rightarrow> await_reply our_id others
      | Inr msg \<Rightarrow>
          if hdr_id (msg_header msg) \<noteq> our_id then await_reply our_id others
          else if hdr_rcode (msg_header msg) \<noteq> 0 then None
          else map_option rr_rdata (find (\<lambda>rr. rr_type rr = kQTypeHttps) (answers msg)))"

definition fetch_https_rr_rdata :: "('ep, 'w) boot_net \<Rightarrow> 'ep \<Rightarrow> string \<Rightarrow> int \<Rightarrow> 'w \<Rightarrow> bytes option \<times> 'w" where
  [eval_simps]: "fetch_https_rr_rdata net bootstrap qname timeout w =
     (case bn_draw_id net w of (our_id, w1) \<Rightarrow>
        (case build_https_query qname our_id of
           Inl _ \<Rightarrow> (None, w1)
         | Inr query \<Rightarrow>
             (case bn_connect net bootstrap w1 of
                (False, w2) \<Rightarrow> (None, w2)
              | (True, w2) \<Rightarrow>
                  (case bn_send net query (bn_arm_timer net timeout w2) of
                     (False, w3) \<Rightarrow> (None, bn_cancel_timer net w3)
                   | (True, w3) \<Rightarrow>
                       (case bn_arrivals net w3 of (bufs, w4) \<Rightarrow>
                          (await_reply our_id (map (take kMaxBootstrapResponse) bufs), bn_cancel_timer net w4))))))"

fun bootstrap_ech_config :: "('ep, 'w) boot_net \<Rightarrow> 'ep list \<Rightarrow> string \<Rightarrow> int \<Rightarrow> 'w \<Rightarrow> bytes option \<times> 'w" where
  "bootstrap_ech_config net [] hostname timeout w = (None, w)"
| "bootstrap_ech_config net (ep # eps) hostname timeout w =
     (case fetch_https_rr_rdata net ep hostname timeout w of
        (None, w1) \<Rightarrow> bootstrap_ech_config net eps hostname timeout w1
      | (Some rdata, w1) \<Rightarrow>
          (case svcb_extract_ech rdata of
             None \<Rightarrow> bootstrap_ech_config net eps hostname timeout w1
           | Some ech \<Rightarrow> (Some ech, w1)))"

section \<open>The query\<close>

lemma takeWhile_dot_split:
  "CHR ''.'' \<notin> set (takeWhile (\<lambda>c. c \<noteq> CHR ''.'') s)"
  "dropWhile (\<lambda>c. c \<noteq> CHR ''.'') s = c # others \<Longrightarrow> s = takeWhile (\<lambda>c. c \<noteq> CHR ''.'') s @ CHR ''.'' # others"
proof -
  show "CHR ''.'' \<notin> set (takeWhile (\<lambda>c. c \<noteq> CHR ''.'') s)" by (auto dest: set_takeWhileD)
  assume d: "dropWhile (\<lambda>c. c \<noteq> CHR ''.'') s = c # others"
  then have "c = CHR ''.''" using hd_dropWhile [of "\<lambda>c. c \<noteq> CHR ''.''" s] by simp
  then show "s = takeWhile (\<lambda>c. c \<noteq> CHR ''.'') s @ CHR ''.'' # others" using d takeWhile_dropWhile_id by metis
qed

lemma https_labels_ok: "list_all label_ok (wire_labels q) \<Longrightarrow> https_labels q = Inr (enc_labels (wire_labels q))"
proof (induction q rule: https_labels.induct)
  case (1 q)
  let ?l = "takeWhile (\<lambda>c. c \<noteq> CHR ''.'') q"
  show ?case
  proof (cases "dropWhile (\<lambda>c. c \<noteq> CHR ''.'') q")
    case Nil
    then have "?l = q" by (metis append_Nil2 takeWhile_dropWhile_id)
    then have "CHR ''.'' \<notin> set q" using takeWhile_dot_split(1) [of q] by metis
    then have "split_dots q = [q]" by (rule split_dots_no_dot)
    with "1.prems" show ?thesis
      unfolding https_labels.simps [of q] \<open>?l = q\<close> Nil Let_def by (simp add: label_ok_def)
  next
    case (Cons c others)
    have q: "q = ?l @ CHR ''.'' # others" by (rule takeWhile_dot_split(2) [OF Cons])
    have split: "split_dots q = ?l # split_dots others"
      using split_dots_at_dot [OF takeWhile_dot_split(1) [of q], of others] q by simp
    have ok: "label_ok (map char_byte ?l)" "list_all label_ok (wire_labels others)" using "1.prems" split by simp_all
    have ne: "?l \<noteq> []" "\<not> length ?l > 63" using ok(1) by (auto simp: label_ok_def)
    from "1.IH" [OF refl ne refl Cons ok(2)] show ?thesis using Cons ne split by (subst https_labels.simps) (simp add: Let_def)
  qed
qed

lemma build_https_query_eq:
  assumes "list_all label_ok (wire_labels q)"
  shows "build_https_query q i = Inr ([u16_hi i, u16_lo i, 1, 0, 0, 1, 0, 0, 0, 0, 0, 0] @ enc_labels (wire_labels q) @ [0, 0, 65, 0, 1])"
proof -
  have hdr: "write_u16_be ((write_u16_be (replicate 12 0) 0 i)[2 := 0x01, 3 := 0x00]) 4 1 = [u16_hi i, u16_lo i, 1, 0, 0, 1, 0, 0, 0, 0, 0, 0]"
    by (simp add: write_u16_be_def numeral_eq_Suc) (simp add: u16_hi_def u16_lo_def)
  have "ucast kQTypeHttps = (65 :: byte)" by (simp add: kQTypeHttps_def)
  then show ?thesis using https_labels_ok [OF assms] hdr by (simp add: build_https_query_def)
qed

section \<open>Service parameters\<close>

definition enc_params :: "(u16 \<times> bytes) list \<Rightarrow> bytes" where
  "enc_params ps = concat (map (\<lambda>(k, v). [u16_hi k, u16_lo k, u16_hi (word_of_nat (length v)), u16_lo (word_of_nat (length v))] @ v) ps)"

definition svcb_rdata :: "u16 \<Rightarrow> bytes list \<Rightarrow> (u16 \<times> bytes) list \<Rightarrow> bytes" where
  "svcb_rdata priority target ps = [u16_hi priority, u16_lo priority] @ enc_labels target @ 0 # enc_params ps"

lemma skip_enc_labels:
  assumes "list_all label_ok ls"
  shows "skip_uncompressed_name (pre @ enc_labels ls @ 0 # post) (length pre) = Some (length pre + length (enc_labels ls) + 1)"
  using assms
proof (induction ls arbitrary: pre)
  case Nil
  then show ?case by (simp add: skip_uncompressed_name.simps)
next
  case (Cons l ls)
  have l: "label_ok l" using Cons.prems by simp
  let ?pkt = "pre @ enc_labels (l # ls) @ 0 # post"
  have here: "?pkt ! length pre = word_of_nat (length l)" by (simp add: nth_append)
  have "skip_uncompressed_name ?pkt (length pre) = skip_uncompressed_name ?pkt (length pre + (1 + length l))"
    by (subst skip_uncompressed_name.simps) (simp add: here label_ok_length_byte [OF l] Let_def del: append_assoc)
  also have "\<dots> = Some (length pre + length (enc_labels (l # ls)) + 1)"
    using Cons.IH [of "pre @ word_of_nat (length l) # l"] Cons.prems by simp
  finally show ?case .
qed

lemma svcb_params_enc:
  assumes "\<forall>(k, v) \<in> set ps. length v < 65536"
  shows "svcb_params (pre @ enc_params ps) (length pre) = map_of ps kSvcParamKeyEch"
  using assms
proof (induction ps arbitrary: pre)
  case Nil
  then show ?case by (simp add: enc_params_def svcb_params.simps)
next
  case (Cons p ps)
  obtain k v where p: "p = (k, v)" by fastforce
  have len: "unat (word_of_nat (length v) :: u16) = length v" using Cons.prems p by (simp add: unat_of_nat take_bit_eq_mod)
  define hd4 where "hd4 = [u16_hi k, u16_lo k, u16_hi (word_of_nat (length v)), u16_lo (word_of_nat (length v))]"
  define pkt where "pkt = pre @ enc_params (p # ps)"
  have pkt: "pkt = pre @ hd4 @ v @ enc_params ps" by (simp add: pkt_def enc_params_def p hd4_def)
  have facts: "length pkt = length pre + 4 + length v + length (enc_params ps)" "read_u16_be pkt (length pre) = k"
    "read_u16_be pkt (length pre + 2) = word_of_nat (length v)" "take (length v) (drop (length pre + 4) pkt) = v"
    by (simp_all add: pkt hd4_def read_u16_be_def nth_append)
  have "svcb_params pkt (length pre) = (if k = kSvcParamKeyEch then Some v else svcb_params pkt (length pre + 4 + length v))"
    by (subst svcb_params.simps) (simp only: facts len Let_def, simp)
  also have "svcb_params pkt (length pre + 4 + length v) = map_of ps kSvcParamKeyEch"
  proof -
    have "length (pre @ hd4 @ v) = length pre + 4 + length v" "(pre @ hd4 @ v) @ enc_params ps = pkt" by (simp_all add: hd4_def pkt)
    then show ?thesis using Cons.IH [of "pre @ hd4 @ v"] Cons.prems by (simp add: add.assoc)
  qed
  finally show ?case by (simp add: p pkt_def)
qed

section \<open>Replies\<close>

text \<open>A datagram the receive loop must not react to.\<close>

definition foreign :: "u16 \<Rightarrow> bytes \<Rightarrow> bool" where
  "foreign our_id buf \<longleftrightarrow> length buf < 12 \<or> (case parse buf of Inl _ \<Rightarrow> True | Inr msg \<Rightarrow> hdr_id (msg_header msg) \<noteq> our_id)"

lemma await_reply_foreign: "foreign our_id buf \<Longrightarrow> await_reply our_id (buf # bufs) = await_reply our_id bufs"
  by (auto simp: foreign_def split: sum.splits)

lemma await_reply_filter: "await_reply our_id bufs = await_reply our_id (filter (\<lambda>b. \<not> foreign our_id b) bufs)"
proof (induction bufs)
  case (Cons b bufs)
  show ?case
  proof (cases "foreign our_id b")
    case True
    then show ?thesis using Cons by (simp add: await_reply_foreign del: await_reply.simps)
  next
    case False
    then obtain msg where "\<not> length b < 12" "parse b = Inr msg" "hdr_id (msg_header msg) = our_id"
      by (auto simp: foreign_def split: sum.splits)
    then show ?thesis using False by simp
  qed
qed simp

lemma await_reply_Some:
  assumes "await_reply our_id bufs = Some rdata"
  shows "\<exists>buf \<in> set bufs. \<exists>msg rr. parse buf = Inr msg \<and> hdr_id (msg_header msg) = our_id \<and> hdr_rcode (msg_header msg) = 0 \<and>
    find (\<lambda>rr. rr_type rr = kQTypeHttps) (answers msg) = Some rr \<and> rdata = rr_rdata rr"
  using assms by (induction bufs) (fastforce split: if_splits sum.splits)+

text \<open>What it means that a server supplied a list: the reply it sent to our query with our id carries it.\<close>

definition served :: "('ep, 'w) boot_net \<Rightarrow> string \<Rightarrow> 'ep \<Rightarrow> bytes \<Rightarrow> bool" where
  "served net hostname ep ech \<longleftrightarrow>
     (\<exists>w w1 w2 w3 w4 w5 our_id query bufs buf msg rr. bn_draw_id net w = (our_id, w1) \<and> build_https_query hostname our_id = Inr query \<and>
        bn_connect net ep w1 = (True, w2) \<and> bn_send net query w3 = (True, w4) \<and> bn_arrivals net w4 = (bufs, w5) \<and>
        buf \<in> set bufs \<and> parse (take kMaxBootstrapResponse buf) = Inr msg \<and> hdr_id (msg_header msg) = our_id \<and> hdr_rcode (msg_header msg) = 0 \<and>
        find (\<lambda>rr. rr_type rr = kQTypeHttps) (answers msg) = Some rr \<and> svcb_extract_ech (rr_rdata rr) = Some ech)"

lemma fetch_served:
  assumes "fetch_https_rr_rdata net ep hostname timeout w = (Some rdata, w')" "svcb_extract_ech rdata = Some ech"
  shows "served net hostname ep ech"
proof -
  obtain our_id w1 where d: "bn_draw_id net w = (our_id, w1)" by fastforce
  obtain query where q: "build_https_query hostname our_id = Inr query" using assms(1) d by (auto simp: fetch_https_rr_rdata_def split: sum.splits)
  obtain w2 where c: "bn_connect net ep w1 = (True, w2)" using assms(1) d q by (auto simp: fetch_https_rr_rdata_def split: prod.splits bool.splits)
  obtain w4 where s: "bn_send net query (bn_arm_timer net timeout w2) = (True, w4)"
    using assms(1) d q c by (auto simp: fetch_https_rr_rdata_def split: prod.splits bool.splits)
  obtain bufs w5 where a: "bn_arrivals net w4 = (bufs, w5)" by fastforce
  have "await_reply our_id (map (take kMaxBootstrapResponse) bufs) = Some rdata"
    using assms(1) d q c s a by (simp add: fetch_https_rr_rdata_def)
  from await_reply_Some [OF this] obtain buf msg rr where "buf \<in> set bufs" "parse (take kMaxBootstrapResponse buf) = Inr msg"
    "hdr_id (msg_header msg) = our_id" "hdr_rcode (msg_header msg) = 0"
    "find (\<lambda>rr. rr_type rr = kQTypeHttps) (answers msg) = Some rr" "rdata = rr_rdata rr" by auto
  with d q c s a assms(2) show ?thesis unfolding served_def by blast
qed

lemma bootstrap_served: "bootstrap_ech_config net eps hostname timeout w = (Some ech, w') \<Longrightarrow> \<exists>ep \<in> set eps. served net hostname ep ech"
proof (induction eps arbitrary: w)
  case (Cons ep eps)
  obtain r w1 where f: "fetch_https_rr_rdata net ep hostname timeout w = (r, w1)" by fastforce
  show ?case
  proof (cases "\<exists>rdata ech'. r = Some rdata \<and> svcb_extract_ech rdata = Some ech'")
    case True
    with f Cons.prems obtain rdata where "r = Some rdata" "svcb_extract_ech rdata = Some ech" by auto
    with f fetch_served show ?thesis by fastforce
  next
    case False
    then have "bootstrap_ech_config net eps hostname timeout w1 = (Some ech, w')" using Cons.prems f by (cases r) auto
    from Cons.IH [OF this] show ?thesis by auto
  qed
qed simp

section \<open>Properties\<close>

text \<open>The ECH parameter of a service record is found exactly: for every ServiceMode record with an
  uncompressed target and any list of parameters in any order, the extractor returns the value of the
  first parameter with key 5, or nothing when there is none; AliasMode records give nothing.\<close>

theorem svcb_extract_exact:
  assumes "list_all label_ok target" "\<forall>(k, v) \<in> set ps. length v < 65536"
  shows "svcb_extract_ech (svcb_rdata priority target ps) = (if priority = 0 then None else map_of ps kSvcParamKeyEch)"
proof -
  let ?pre = "[u16_hi priority, u16_lo priority]"
  let ?name = "?pre @ enc_labels target @ [0]"
  have rdata: "svcb_rdata priority target ps = ?name @ enc_params ps" by (simp add: svcb_rdata_def)
  have skip: "skip_uncompressed_name (svcb_rdata priority target ps) 2 = Some (length ?name)"
    using skip_enc_labels [OF assms(1), of ?pre "enc_params ps"] by (simp add: svcb_rdata_def numeral_2_eq_2)
  have "read_u16_be (svcb_rdata priority target ps) 0 = priority" by (simp add: svcb_rdata_def read_u16_be_def)
  moreover have "\<not> length (svcb_rdata priority target ps) < 3" by (simp add: svcb_rdata_def)
  moreover have "svcb_params (svcb_rdata priority target ps) (length ?name) = map_of ps kSvcParamKeyEch"
    unfolding rdata by (rule svcb_params_enc [OF assms(2)])
  ultimately show ?thesis using skip by (simp add: svcb_extract_ech_def)
qed

theorem svcb_extract_exact_witness:
  "svcb_extract_ech (svcb_rdata 1 [[0x61]] [(1, [2, 0x68, 0x33]), (5, [9, 9])]) = Some [9, 9]"
  using svcb_extract_exact [of "[[0x61]]" "[(1, [2, 0x68, 0x33]), (5, [9, 9])]" 1] by (simp add: label_ok_def kSvcParamKeyEch_def)

text \<open>The bootstrap query asks the right question: for a name of labels of 1 to 63 octets and at most 253
  characters it parses back to that name in lower case, type HTTPS, class IN, recursion desired and
  the drawn id.\<close>

theorem build_https_query_roundtrip:
  assumes "list_all label_ok (wire_labels q)" "length q \<le> 253"
  shows "\<exists>out m. build_https_query q i = Inr out \<and> parse out = Inr m \<and>
    questions m = [\<lparr>q_name = map lower_char q, q_type = kQTypeHttps, q_class = 1\<rparr>] \<and>
    hdr_id (msg_header m) = i \<and> hdr_rd (msg_header m) \<and> \<not> hdr_qr (msg_header m) \<and> answers m = [] \<and> authority m = [] \<and> additional m = []"
proof -
  define hdr :: bytes where "hdr = [u16_hi i, u16_lo i, 1, 0, 0, 1, 0, 0, 0, 0, 0, 0]"
  define out where "out = hdr @ enc_labels (wire_labels q) @ 0 # [0, 65, 0, 1]"
  have l: "length hdr = 12" by (simp add: hdr_def)
  have "decode_name out 12 = Inr (map lower_char q, length q + 14)"
    using decode_name_enc_labels [OF assms(1), of hdr "[0, 65, 0, 1]"] assms(2)
    by (simp add: out_def l labels_text_wire_labels [OF assms(1)] kMaxNameSize_def)
  moreover have "read_u16_be out (length q + 14) = 65" "read_u16_be out (16 + length q) = 1"
    by (simp_all add: out_def read_u16_be_def nth_append l nth_Cons' u16_of_def)
  moreover have "read_u16_be out 0 = i" "read_u16_be out 2 = 0x0100" "read_u16_be out 4 = 1"
    "read_u16_be out 6 = 0" "read_u16_be out 8 = 0" "read_u16_be out 10 = 0"
    by (simp_all add: out_def hdr_def read_u16_be_def) (simp_all add: u16_of_def)
  ultimately have "parse out = Inr \<lparr>msg_header = \<lparr>hdr_id = i, hdr_qr = False, hdr_aa = False, hdr_tc = False,
        hdr_rd = True, hdr_ra = False, hdr_opcode = 0, hdr_rcode = 0, hdr_qdcount = 1, hdr_ancount = 0,
        hdr_nscount = 0, hdr_arcount = 0\<rparr>,
      questions = [\<lparr>q_name = map lower_char q, q_type = kQTypeHttps, q_class = 1\<rparr>],
      answers = [], authority = [], additional = [], question_section_end = length q + 18\<rparr>"
    using l by (simp add: parse_eq_Inr parse_to_eq_Inr parse_header_eq_Inr kHeaderSize_def header_of_flags_def
        parse_question_eq_Inr out_def kQTypeHttps_def)
  moreover have "build_https_query q i = Inr out" using build_https_query_eq [OF assms(1), of i] by (simp add: out_def hdr_def)
  ultimately show ?thesis by simp
qed

theorem build_https_query_roundtrip_witness:
  "\<exists>out m. build_https_query ''dns.example'' 7 = Inr out \<and> parse out = Inr m \<and> hdr_id (msg_header m) = 7 \<and> length (questions m) = 1"
proof -
  have "list_all label_ok (wire_labels ''dns.example'')" "length ''dns.example'' \<le> 253" by (simp_all add: label_ok_def)
  from build_https_query_roundtrip [OF this, of 7] show ?thesis by auto
qed

text \<open>C31: Forged datagrams cannot end or steer the bootstrap: short, malformed or wrong-id datagrams, wherever
  and however many arrive, do not change what is fetched; and a list that is returned was carried, by
  the first HTTPS record, in a successful reply with our random id from one of the configured servers.\<close>

theorem bootstrap_sound:
  assumes "bootstrap_ech_config net eps hostname timeout w = (Some ech, w')"
  shows "(\<exists>ep \<in> set eps. served net hostname ep ech) \<and>
    (\<forall>our_id bufs. await_reply our_id bufs = await_reply our_id (filter (\<lambda>b. \<not> foreign our_id b) bufs))"
  using bootstrap_served [OF assms] await_reply_filter by blast

text \<open>A server that first delivers a forged reply and then the real one.\<close>

definition https_reply :: "u16 \<Rightarrow> bytes" where
  [eval_simps]: "https_reply i = [u16_hi i, u16_lo i, 0x81, 0x80, 0, 0, 0, 1, 0, 0, 0, 0, 0, 0, 65, 0, 1, 0, 0, 0, 9, 0, 9, 0, 1, 0, 0, 5, 0, 2, 7, 8]"

definition sample_boot :: "(unit, unit) boot_net" where
  [eval_simps]: "sample_boot = \<lparr>bn_draw_id = (\<lambda>w. (0x1234, w)), bn_connect = (\<lambda>_ w. (True, w)), bn_arm_timer = (\<lambda>_ w. w),
     bn_send = (\<lambda>_ w. (True, w)), bn_arrivals = (\<lambda>w. ([https_reply 0x9999, [1, 2], https_reply 0x1234], w)), bn_cancel_timer = (\<lambda>w. w)\<rparr>"

lemma parse_https_reply: "parse (https_reply i) = Inr \<lparr>msg_header = \<lparr>hdr_id = i, hdr_qr = True, hdr_aa = False, hdr_tc = False, hdr_rd = True,
      hdr_ra = True, hdr_opcode = 0, hdr_rcode = 0, hdr_qdcount = 0, hdr_ancount = 1, hdr_nscount = 0, hdr_arcount = 0\<rparr>,
    questions = [], answers = [\<lparr>rr_name = [], rr_type = 65, rr_class = 1, rr_ttl = 9, rr_off = 23, rr_rdata = [0, 1, 0, 0, 5, 0, 2, 7, 8]\<rparr>],
    authority = [], additional = [], question_section_end = 12\<rparr>"
proof -
  have ids: "read_u16_be (https_reply i) 0 = i" by (simp add: https_reply_def read_u16_be_def)
  have words: "read_u16_be (https_reply i) 2 = 0x8180" "read_u16_be (https_reply i) 4 = 0" "read_u16_be (https_reply i) 6 = 1"
    "read_u16_be (https_reply i) 8 = 0" "read_u16_be (https_reply i) 10 = 0" "read_u16_be (https_reply i) 13 = 65"
    "read_u16_be (https_reply i) 15 = 1" "read_u32_be (https_reply i) 17 = 9" "read_u16_be (https_reply i) 21 = 9"
    by (simp_all add: https_reply_def read_u16_be_def read_u32_be_def u16_of_def u32_of_def)
  have name: "decode_name (https_reply i) 12 = Inr ([], 13)"
    by (simp add: decode_name_def decode_name_loop.simps https_reply_def)
  have len: "length (https_reply i) = 32" "take 9 (drop 23 (https_reply i)) = [0, 1, 0, 0, 5, 0, 2, 7, 8]" by (simp_all add: https_reply_def)
  show ?thesis
    by (simp add: parse_eq_Inr parse_to_eq_Inr parse_header_eq_Inr kHeaderSize_def header_of_flags_def parse_rr_eq_Inr
        ids words name len)
qed

lemma sample_bootstrap: "bootstrap_ech_config sample_boot [()] ''d.example'' 2000 () = (Some [7, 8], ())"
proof -
  have q: "build_https_query ''d.example'' 0x1234 = Inr ([0x12, 0x34, 1, 0, 0, 1, 0, 0, 0, 0, 0, 0] @ enc_labels (wire_labels ''d.example'') @ [0, 0, 65, 0, 1])"
    by (subst build_https_query_eq) (simp_all add: label_ok_def u16_hi_def u16_lo_def)
  have lens: "length (https_reply i) = 32" for i by (simp add: https_reply_def)
  have "fetch_https_rr_rdata sample_boot () ''d.example'' 2000 () = (Some [0, 1, 0, 0, 5, 0, 2, 7, 8], ())"
    using q by (simp add: fetch_https_rr_rdata_def sample_boot_def kMaxBootstrapResponse_def lens parse_https_reply kQTypeHttps_def)
  moreover have "svcb_extract_ech [0, 1, 0, 0, 5, 0, 2, 7, 8] = Some [7, 8]"
    by (simp add: eval_simps skip_uncompressed_name.simps svcb_params.simps)
  ultimately show ?thesis by simp
qed

theorem bootstrap_sound_witness: "\<exists>ep. served sample_boot ''d.example'' ep [7, 8]"
  using bootstrap_sound [OF sample_bootstrap] by blast

text \<open>An empty \<^verbatim>\<open>ech\<close> parameter ends the search: the remaining servers are not asked.\<close>

lemma bootstrap_empty_ech_stops:
  assumes "fetch_https_rr_rdata net ep hostname timeout w = (Some rdata, w1)" "svcb_extract_ech rdata = Some []"
  shows "bootstrap_ech_config net (ep # eps) hostname timeout w = (Some [], w1)"
  using assms by simp

text \<open>An empty label cuts the name short instead of being refused.\<close>

lemma https_query_cut: "https_labels ''a..b'' = https_labels ''a''"
  by (simp add: https_labels.simps)

end
