(* ===== verification/Platform.thy ===== *)
theory Platform
  imports Config
begin

text \<open>
  \<^verbatim>\<open>paths.cpp\<close> and \<^verbatim>\<open>privilege.cpp\<close> as they are built on Linux: where the configuration file is looked for,
  and giving up root. The system calls are the record \<open>posix\<close> over a state \<open>'w\<close> of the outside; a path is
  its text, with the operations of \<^verbatim>\<open>std::filesystem::path\<close> the sources use on paths without a doubled
  leading slash.
\<close>

section \<open>Definitions\<close>

subsection \<open>Paths\<close>

definition kConfigFileName :: string where [eval_simps]: "kConfigFileName = ''cloakdns.toml''"

definition strip_slashes :: "string \<Rightarrow> string" where
  [eval_simps]: "strip_slashes p = rev (dropWhile (\<lambda>c. c = CHR ''/'') (rev p))"

definition parent_path :: "string \<Rightarrow> string" where
  [eval_simps]: "parent_path p =
     (case rfind_char CHR ''/'' p (length p) of
        None \<Rightarrow> []
      | Some i \<Rightarrow> let q = strip_slashes (take i p) in if q = [] then ''/'' else q)"

definition filename :: "string \<Rightarrow> string" where
  [eval_simps]: "filename p = (case rfind_char CHR ''/'' p (length p) of None \<Rightarrow> p | Some i \<Rightarrow> drop (i + 1) p)"

definition path_extension :: "string \<Rightarrow> string" where
  [eval_simps]: "path_extension p =
     (let f = filename p in
      if f = ''.'' \<or> f = ''..'' then []
      else case rfind_char CHR ''.'' f (length f) of None \<Rightarrow> [] | Some 0 \<Rightarrow> [] | Some i \<Rightarrow> drop i f)"

definition path_join :: "string \<Rightarrow> string \<Rightarrow> string" where
  [eval_simps]: "path_join p q =
     (if p = [] \<or> prefix ''/'' q then q else if last p = CHR ''/'' then p @ q else p @ ''/'' @ q)"

definition default_config_dir :: string where [eval_simps]: "default_config_dir = ''/etc/cloakdns''"

definition find_config_path :: "(string \<Rightarrow> bool) \<Rightarrow> string \<Rightarrow> string option" where
  [eval_simps]: "find_config_path path_exists argv0 =
     (let sibling = path_join (parent_path argv0) kConfigFileName;
          system_path = path_join default_config_dir kConfigFileName in
      if argv0 \<noteq> [] \<and> path_exists sibling then Some sibling
      else if path_exists system_path then Some system_path
      else if path_exists kConfigFileName then Some kConfigFileName
      else None)"

subsection \<open>Privileges\<close>

text \<open>The three octets of the dash in the messages.\<close>

abbreviation em_dash :: string where
  "em_dash \<equiv> [CHR 0xE2, CHR 0x80, CHR 0x94]"

record 'w posix =
  px_getgrnam :: "string \<Rightarrow> 'w \<Rightarrow> nat option \<times> 'w"
  px_getpwnam :: "string \<Rightarrow> 'w \<Rightarrow> nat option \<times> 'w"
  px_setgroups :: "nat list \<Rightarrow> 'w \<Rightarrow> bool \<times> 'w"
  px_setgid :: "nat \<Rightarrow> 'w \<Rightarrow> bool \<times> 'w"
  px_setuid :: "nat \<Rightarrow> 'w \<Rightarrow> bool \<times> 'w"
  px_strerror :: "'w \<Rightarrow> string"

definition privilege_fail :: "'w posix \<Rightarrow> string \<Rightarrow> 'w \<Rightarrow> unit result \<times> 'w" where
  [eval_simps]: "privilege_fail px step w = (Inl (RuntimeError (''drop_privileges: '' @ step @ '' failed: '' @ px_strerror px w)), w)"

definition drop_privileges :: "'w posix \<Rightarrow> string \<Rightarrow> string \<Rightarrow> 'w \<Rightarrow> unit result \<times> 'w" where
  [eval_simps]: "drop_privileges px user grp w =
     (if user = [] then (Inr (), w)
      else let group_str = (if grp = [] then user else grp) in
        case px_getgrnam px group_str w of
          (None, w1) \<Rightarrow> privilege_fail px (''getgrnam('' @ group_str @ '')'') w1
        | (Some gid, w1) \<Rightarrow>
        (case px_getpwnam px user w1 of
          (None, w2) \<Rightarrow> privilege_fail px (''getpwnam('' @ user @ '')'') w2
        | (Some uid, w2) \<Rightarrow>
        (case px_setgroups px [gid] w2 of
          (False, w3) \<Rightarrow> privilege_fail px ''setgroups'' w3
        | (True, w3) \<Rightarrow>
        (case px_setgid px gid w3 of
          (False, w4) \<Rightarrow> privilege_fail px ''setgid'' w4
        | (True, w4) \<Rightarrow>
        (case px_setuid px uid w4 of
          (False, w5) \<Rightarrow> privilege_fail px ''setuid'' w5
        | (True, w5) \<Rightarrow>
        (case px_setuid px 0 w5 of
          (True, w6) \<Rightarrow> (Inl (RuntimeError (''drop_privileges: regained root after setuid '' @ em_dash @ '' refusing to run'')), w6)
        | (False, w6) \<Rightarrow> (Inr (), w6)))))))"

section \<open>Properties\<close>

text \<open>The steps a successful call took.\<close>

lemma drop_privileges_steps:
  assumes "drop_privileges px user grp w = (Inr (), w')" "user \<noteq> []"
  obtains gid uid w1 w2 w3 w4 w5 where
    "px_getgrnam px (if grp = [] then user else grp) w = (Some gid, w1)" "px_getpwnam px user w1 = (Some uid, w2)"
    "px_setgroups px [gid] w2 = (True, w3)" "px_setgid px gid w3 = (True, w4)" "px_setuid px uid w4 = (True, w5)"
    "px_setuid px 0 w5 = (False, w')"
  using assms by (auto simp: drop_privileges_def privilege_fail_def Let_def split: prod.splits option.splits bool.splits)

text \<open>C40: Giving up root is all or nothing. When a user is configured and \<^verbatim>\<open>drop_privileges\<close> returns, the
  supplementary groups are exactly the target group, then the group and then the user were changed, in
  this order, and the process is not root: this rests on \<^verbatim>\<open>setuid(0)\<close> never failing for root and on a
  failing \<^verbatim>\<open>setuid\<close> changing nothing.\<close>

theorem drop_privileges_not_root:
  assumes "drop_privileges px user grp w = (Inr (), w')" "user \<noteq> []"
    and setuid_root: "\<And>w. euid w = (0 :: nat) \<Longrightarrow> fst (px_setuid px 0 w)"
    and setuid_fails: "\<And>w w' u. px_setuid px u w = (False, w') \<Longrightarrow> euid w' = euid w"
  shows "euid w' \<noteq> 0 \<and> (\<exists>gid uid w1 w2 w3 w4 w5. px_getgrnam px (if grp = [] then user else grp) w = (Some gid, w1) \<and>
     px_getpwnam px user w1 = (Some uid, w2) \<and> px_setgroups px [gid] w2 = (True, w3) \<and> px_setgid px gid w3 = (True, w4) \<and>
     px_setuid px uid w4 = (True, w5))"
proof -
  obtain gid uid w1 w2 w3 w4 w5 where s: "px_getgrnam px (if grp = [] then user else grp) w = (Some gid, w1)"
      "px_getpwnam px user w1 = (Some uid, w2)" "px_setgroups px [gid] w2 = (True, w3)" "px_setgid px gid w3 = (True, w4)"
      "px_setuid px uid w4 = (True, w5)" "px_setuid px 0 w5 = (False, w')"
    using drop_privileges_steps [OF assms(1,2)] by metis
  have "euid w5 \<noteq> 0" using setuid_root [of w5] s(6) by auto
  then have "euid w' \<noteq> 0" using setuid_fails [OF s(6)] by simp
  with s show ?thesis by blast
qed

text \<open>A process as its effective user id, of which only root may change it.\<close>

definition uid_posix :: "nat posix" where
  [eval_simps]: "uid_posix = \<lparr>px_getgrnam = \<lambda>_ w. (Some 99, w), px_getpwnam = \<lambda>_ w. (Some 99, w), px_setgroups = \<lambda>_ w. (w = 0, w),
     px_setgid = \<lambda>_ w. (w = 0, w), px_setuid = \<lambda>u w. if w = 0 then (True, u) else (u = w, w), px_strerror = \<lambda>_. ''EPERM''\<rparr>"

theorem drop_privileges_not_root_witness: "drop_privileges uid_posix ''cloak'' [] 0 = (Inr (), 99) \<and> (99 :: nat) \<noteq> 0"
proof -
  have run: "drop_privileges uid_posix ''cloak'' [] 0 = (Inr (), 99)" by (simp add: drop_privileges_def uid_posix_def)
  have "px_setuid uid_posix u w = (False, w') \<Longrightarrow> w' = w" for u w w' by (auto simp: uid_posix_def split: if_splits)
  moreover have "w = 0 \<Longrightarrow> fst (px_setuid uid_posix 0 w)" for w by (simp add: uid_posix_def)
  ultimately show ?thesis using drop_privileges_not_root [OF run, where euid = "\<lambda>w. w"] run by simp
qed

text \<open>The search returns the first of the three places that exists.\<close>

lemma find_config_path_first:
  defines "places argv0 \<equiv> (if argv0 = [] then [] else [path_join (parent_path argv0) kConfigFileName]) @
     [path_join default_config_dir kConfigFileName, kConfigFileName]"
  shows "find_config_path path_exists argv0 = find path_exists (places argv0)"
  by (simp add: find_config_path_def places_def Let_def)

lemma parent_path_samples:
  "parent_path ''/usr/bin/cloakdns'' = ''/usr/bin''" "parent_path ''cloakdns'' = []" "parent_path ''/cloakdns'' = ''/''"
  "path_join [] kConfigFileName = kConfigFileName" "path_extension ''a.b/cfg.toml'' = ''.toml''" "path_extension ''.toml'' = []"
  by (simp_all add: eval_simps)

end
