(* ===== verification/Server.thy ===== *)
theory Server
  imports Handler Adapters EchBootstrap Platform
begin

text \<open>
  \<^verbatim>\<open>server.cpp\<close>, \<^verbatim>\<open>Server::Impl\<close>: assembling the server from a configuration, the reload on SIGHUP, stopping,
  and the event loop; and \<^verbatim>\<open>main.cpp\<close>. The daemon's events are the handlers' events with the datagram judged
  by the current block rules, the reload signal, the end of a bootstrap a reload started, and the stop
  signal, after which the logger writes out what it has queued. Until it is stopped, every run of the
  daemon is a run of the handlers, so what is proved of those holds across reloads. Lines on
  \<^verbatim>\<open>std::cout\<close> are part of the state, those on \<^verbatim>\<open>std::cerr\<close> are not.
\<close>

section \<open>Definitions\<close>

record ('addr, 'f, 'ep, 'w) server_env =
  se_handler :: "('f, 'w) handler_env"
  se_factory :: "('addr, 'ep, 'w) factory_env"
  se_boot :: "('ep, 'w) boot_net"
  se_config_env :: config_env
  se_open_read :: "'w \<Rightarrow> string \<Rightarrow> file_read"
  se_parse_toml :: "string \<Rightarrow> (string \<times> nat \<times> nat) + (string \<Rightarrow> toml_table option)"
  se_read_list :: "'w \<Rightarrow> string \<Rightarrow> string option"
  se_path_exists :: "'w \<Rightarrow> string \<Rightarrow> bool"
  se_now :: "'w \<Rightarrow> int"
  se_hours :: "int \<Rightarrow> int"
  se_bind :: "'addr \<Rightarrow> u16 \<Rightarrow> 'w \<Rightarrow> unit result \<times> 'w"
  se_posix :: "'w posix"
  se_log_fs :: "'w \<Rightarrow> log_fs"

subsection \<open>Block rules\<close>

fun load_sources :: "(string \<Rightarrow> 's \<Rightarrow> ('s \<times> nat) result) \<Rightarrow> string list \<Rightarrow> 's \<Rightarrow> nat \<Rightarrow> ('s \<times> nat) result" where
  "load_sources load [] bl acc = Inr (bl, acc)"
| "load_sources load (src # srcs) bl acc = bind_result (load src bl) (\<lambda>(bl, n). load_sources load srcs bl (acc + n))"

text \<open>The rules, and how many of each kind were new.\<close>

definition build_blocklist :: "(string \<Rightarrow> string option) \<Rightarrow> config \<Rightarrow> (blocklist \<times> nat \<times> nat) result" where
  [eval_simps]: "build_blocklist read_file cfg =
     bind_result (load_sources (load_hosts_file read_file) (cfg_blocklist cfg) empty_blocklist 0) (\<lambda>(out, total_rules).
     bind_result (load_sources (load_allowlist_file read_file) (cfg_allowlist cfg) out 0) (\<lambda>(out, allow). Inr (out, total_rules, allow)))"

definition loaded_line :: "config \<Rightarrow> nat \<Rightarrow> nat \<Rightarrow> string" where
  [eval_simps]: "loaded_line cfg total_rules allow =
     ''loaded '' @ dec_string total_rules @ '' block rule(s) from '' @ dec_string (length (cfg_blocklist cfg)) @ '' source(s)'' @
     (if cfg_allowlist cfg \<noteq> []
      then '', '' @ dec_string allow @ '' allow rule(s) from '' @ dec_string (length (cfg_allowlist cfg)) @ '' source(s)'' else [])"

subsection \<open>ECH\<close>

fun bootstrap_endpoints :: "('addr, 'ep, 'w) factory_env \<Rightarrow> endpoint list \<Rightarrow> 'ep list result" where
  "bootstrap_endpoints env [] = Inr []"
| "bootstrap_endpoints env (ep # eps) = bind_result (factory_endpoint env ep) (\<lambda>e. bind_result (bootstrap_endpoints env eps) (\<lambda>es. Inr (e # es)))"

abbreviation with_ech_list :: "bytes \<Rightarrow> config \<Rightarrow> config" where
  "with_ech_list b cfg \<equiv> cfg\<lparr>cfg_upstream := (cfg_upstream cfg)\<lparr>up_ech_config_list := b\<rparr>\<rparr>"

definition fetched_list :: "('addr, 'f, 'ep, 'w) server_env \<Rightarrow> bytes option \<Rightarrow> bytes option" where
  [eval_simps]: "fetched_list env r =
     (case r of
        None \<Rightarrow> None
      | Some b \<Rightarrow>
          if b = [] then None
          else case validate_ech_config_list (env_have_ech (se_config_env env)) (env_ech_probe (se_config_env env)) b of
            Some err \<Rightarrow> None
          | None \<Rightarrow> Some b)"

definition bootstrap_ech_at_startup :: "('addr, 'f, 'ep, 'w) server_env \<Rightarrow> config \<Rightarrow> 'w \<Rightarrow> (bool \<times> config) result \<times> 'w" where
  [eval_simps]: "bootstrap_ech_at_startup env cfg w =
     (let up = cfg_upstream cfg in
      if \<not> up_ech_enabled up \<or> \<not> up_ech_autobootstrap up then (Inr (False, cfg), w)
      else case bootstrap_endpoints (se_factory env) (up_ech_bootstrap_servers up) of
        Inl e \<Rightarrow> (Inl e, w)
      | Inr eps \<Rightarrow>
          (case bootstrap_ech_config (se_boot env) eps (up_servername up) (up_timeout up) w of
             (r, w1) \<Rightarrow>
               (case fetched_list env r of
                  Some b \<Rightarrow> (Inr (True, with_ech_list b cfg), w1)
                | None \<Rightarrow>
                    if up_ech_config_list up = []
                    then (Inl (RuntimeError (''ech bootstrap failed and no inline ech_config_list_b64 fallback '' @ em_dash @
                            '' refusing to start with ECH enabled but no config bytes'')), w1)
                    else (Inr (False, cfg), w1))))"

definition bootstrap_lines :: "config \<Rightarrow> string list" where
  [eval_simps]: "bootstrap_lines cfg =
     (let up = cfg_upstream cfg in
      if \<not> up_ech_enabled up \<or> \<not> up_ech_autobootstrap up then []
      else [''ech bootstrap: querying '' @ up_servername up @ '' HTTPS via '' @ dec_string (length (up_ech_bootstrap_servers up)) @ '' resolver(s)''])"

text \<open>
  \<^verbatim>\<open>Impl::swap_ech\<close>, on the resolver's control interface: what it prints, and what it does; a default time
  point is the epoch. \<open>se_hours\<close> is \<^verbatim>\<open>duration_cast<hours>\<close>.
\<close>

definition swap_lines :: "('addr, 'f, 'ep, 'w) server_env \<Rightarrow> 'w resolver \<Rightarrow> config \<Rightarrow> bool \<Rightarrow> 'w \<Rightarrow> string list" where
  [eval_simps]: "swap_lines env rs c from_bootstrap w =
     (if from_bootstrap
      then (case List.map_filter stat_ech_fetched_at (resolver_stats rs w) of
              [] \<Rightarrow> []
            | at # _ \<Rightarrow> [''ech: refreshed config '' @ em_dash @ '' previous was '' @ dec_int (se_hours env (se_now env w - at)) @ ''h old''])
      else []) @
     [''reload: swapped ECH config ('' @ dec_string (length (up_ech_config_list (cfg_upstream c))) @ '' bytes)'']"

definition impl_swap_ech :: "('addr, 'f, 'ep, 'w) server_env \<Rightarrow> 'w resolver \<Rightarrow> config \<Rightarrow> bool \<Rightarrow> 'w \<Rightarrow> 'w" where
  [eval_simps]: "impl_swap_ech env rs c from_bootstrap w =
     swap_ech rs (up_ech_config_list (cfg_upstream c)) (up_ech_outer_servername (cfg_upstream c))
       (if from_bootstrap then se_now env w else 0) w"

definition live_swap :: "('addr, 'f, 'ep, 'w) server_env \<Rightarrow> config \<Rightarrow> bool \<Rightarrow> ('f, 'w) server_state \<Rightarrow> ('f, 'w) server_state" where
  [eval_simps]: "live_swap env c from_bootstrap st =
     st\<lparr>sv_console := sv_console st @ swap_lines env (sv_resolver st) c from_bootstrap (sv_world st),
        sv_world := impl_swap_ech env (sv_resolver st) c from_bootstrap (sv_world st)\<rparr>"

subsection \<open>Starting up\<close>

record ('f, 'ep, 'w) daemon =
  dm_cfg :: config
  dm_reload_path :: string
  dm_blocklist :: blocklist
  dm_state :: "('f, 'w) server_state"
  dm_phases :: "'f phase list"
  dm_reloads :: "(config \<times> 'ep list) list"
  dm_running :: bool

definition listen :: "('addr, 'f, 'ep, 'w) server_env \<Rightarrow> server_config \<Rightarrow> 'w \<Rightarrow> unit result \<times> 'w" where
  [eval_simps]: "listen env c w =
     (case fe_addr (se_factory env) (listen_addr c) of
        Inl m \<Rightarrow> (Inl (SystemError m), w)
      | Inr a \<Rightarrow> se_bind env a (listen_port c) w)"

definition cache_config_of :: "config \<Rightarrow> cache_config" where
  [eval_simps]: "cache_config_of cfg = \<lparr>jitter_max = cs_jitter_max (cfg_cache cfg), sweep_interval = cs_sweep_interval (cfg_cache cfg),
     max_entries = cs_max_entries (cfg_cache cfg)\<rparr>"

definition logger_config_of :: "config \<Rightarrow> logger_config" where
  [eval_simps]: "logger_config_of cfg = (let l = cfg_logging cfg in
     \<lparr>lc_path = log_path l, lc_async = log_async l, lc_queue_size = log_queue_size l, lc_max_size_bytes = log_max_size_bytes l,
      lc_redact_client = log_redact_client l\<rparr>)"

text \<open>What the server says about itself once it listens.\<close>

definition banner :: "config \<Rightarrow> string list" where
  [eval_simps]: "banner cfg =
     [''cloakdns listening on '' @ listen_addr (cfg_server cfg) @ '':'' @ dec_string (unat (listen_port (cfg_server cfg))),
      ''upstream:'' @ concat (map (\<lambda>ep. '' '' @ ep_host ep @ '':'' @ dec_string (unat (ep_port ep))) (up_servers (cfg_upstream cfg))) @
        ''  (timeout '' @ dec_int (up_timeout (cfg_upstream cfg)) @ ''ms)'',
      ''cname uncloaking: max depth '' @ dec_int (cfg_uncloak_max_depth cfg),
      ''cache: '' @ dec_string (cs_max_entries (cfg_cache cfg)) @ '' entries, jitter 0-'' @ dec_int (cs_jitter_max (cfg_cache cfg)) @
        ''ms on hit, sweep '' @ dec_int (cs_sweep_interval (cfg_cache cfg)) @ ''s'',
      ''padding: '' @ (if up_padding_block_size (cfg_upstream cfg) = 0 then ''disabled''
         else dec_string (up_padding_block_size (cfg_upstream cfg)) @ ''-byte blocks''),
      ''logging: '' @ (if log_path (cfg_logging cfg) = [] then ''disabled''
         else log_path (cfg_logging cfg) @ (if log_async (cfg_logging cfg) then '' (async)'' else '' (sync)''))]"

definition start_server :: "('addr, 'f, 'ep, 'w) server_env \<Rightarrow> config \<Rightarrow> 'w resolver \<Rightarrow> string \<Rightarrow> 'w \<Rightarrow> ('f, 'ep, 'w) daemon result \<times> 'w" where
  [eval_simps]: "start_server env cfg rs reload_path w =
     (case bootstrap_ech_at_startup env cfg w of
        (Inl e, w1) \<Rightarrow> (Inl e, w1)
      | (Inr (bootstrap_succeeded, cfg), w1) \<Rightarrow>
     (case build_blocklist (se_read_list env w1) cfg of
        Inl e \<Rightarrow> (Inl e, w1)
      | Inr (bl, total_rules, allow) \<Rightarrow>
          let w2 = (if bootstrap_succeeded then impl_swap_ech env rs cfg True w1 else w1);
              (lg, fs) = make_logger (he_log (se_handler env)) (logger_config_of cfg) (se_log_fs env w2) in
          case listen env (cfg_server cfg) w2 of
            (Inl e, w3) \<Rightarrow> (Inl e, w3)
          | (Inr _, w3) \<Rightarrow>
          (case drop_privileges (se_posix env) (run_as_user (cfg_service cfg)) (run_as_group (cfg_service cfg)) w3 of
            (Inl e, w4) \<Rightarrow> (Inl e, w4)
          | (Inr _, w4) \<Rightarrow>
              (Inr \<lparr>dm_cfg = cfg, dm_reload_path = reload_path, dm_blocklist = bl,
                 dm_state = \<lparr>sv_cache = empty_cache (cache_config_of cfg), sv_logger = lg, sv_fs = fs, sv_resolver = rs,
                   sv_uncloak_blocklist = bl, sv_max_depth = cfg_uncloak_max_depth cfg, sv_sent = [], sv_logged = [],
                   sv_console = bootstrap_lines cfg @ [loaded_line cfg total_rules allow] @ banner cfg, sv_world = w4\<rparr>,
                 dm_phases = [], dm_reloads = [], dm_running = True\<rparr>, w4))))"

subsection \<open>Reload\<close>

definition on_reload :: "('addr, 'f, 'ep, 'w) server_env \<Rightarrow> ('f, 'ep, 'w) daemon \<Rightarrow> ('f, 'ep, 'w) daemon" where
  [eval_simps]: "on_reload env dm =
     (let st = print_line (CHR 0x0A # ''reload (SIGHUP): rebuilding blocklist'') (dm_state dm); dm = dm\<lparr>dm_state := st\<rparr>; w = sv_world st in
      case (if dm_reload_path dm = [] then Inr (dm_cfg dm)
            else load_config (se_open_read env w) (se_parse_toml env) (se_config_env env) (dm_reload_path dm)) of
        Inl e \<Rightarrow> dm
      | Inr fresh_cfg \<Rightarrow>
     (case build_blocklist (se_read_list env w) fresh_cfg of
        Inl e \<Rightarrow> dm
      | Inr (fresh, total_rules, allow) \<Rightarrow>
          let dm = dm\<lparr>dm_blocklist := fresh, dm_state := print_line (loaded_line fresh_cfg total_rules allow) st\<rparr>; up = cfg_upstream fresh_cfg in
          if up_ech_enabled up \<and> up_ech_autobootstrap up \<and> up_protocol up \<noteq> Udp then
            (case bootstrap_endpoints (se_factory env) (up_ech_bootstrap_servers up) of
               Inl e \<Rightarrow> dm
             | Inr eps \<Rightarrow> dm\<lparr>dm_reloads := dm_reloads dm @ [(fresh_cfg, eps)]\<rparr>)
          else dm\<lparr>dm_state := live_swap env fresh_cfg False (dm_state dm)\<rparr>))"

text \<open>The coroutine a reload spawns.\<close>

definition finish_reload :: "('addr, 'f, 'ep, 'w) server_env \<Rightarrow> config \<times> 'ep list \<Rightarrow> ('f, 'w) server_state \<Rightarrow> ('f, 'w) server_state" where
  [eval_simps]: "finish_reload env job st =
     (let (fresh_cfg, eps) = job; up = cfg_upstream fresh_cfg;
          (r, w1) = bootstrap_ech_config (se_boot env) eps (up_servername up) (up_timeout up) (sv_world st);
          st = st\<lparr>sv_world := w1\<rparr> in
      case fetched_list env r of
        Some b \<Rightarrow> live_swap env (with_ech_list b fresh_cfg) True st
      | None \<Rightarrow> live_swap env fresh_cfg False st)"

subsection \<open>Stopping\<close>

text \<open>
  \<^verbatim>\<open>ctx.stop()\<close> ends \<^verbatim>\<open>ctx.run()\<close>: no coroutine is resumed any more. Then the members of \<^verbatim>\<open>Impl\<close> are destroyed, the
  logger among them, which writes out its queue.
\<close>

definition stop_server :: "('addr, 'f, 'ep, 'w) server_env \<Rightarrow> ('f, 'ep, 'w) daemon \<Rightarrow> ('f, 'ep, 'w) daemon" where
  [eval_simps]: "stop_server env dm =
     (let st = dm_state dm; (lg, fs) = destroy_logger (he_log (se_handler env)) (sv_logger st) (sv_fs st) in
      dm\<lparr>dm_state := st\<lparr>sv_logger := lg, sv_fs := fs\<rparr>, dm_phases := [], dm_reloads := [], dm_running := False\<rparr>)"

definition on_stop_signal :: "('addr, 'f, 'ep, 'w) server_env \<Rightarrow> ('f, 'ep, 'w) daemon \<Rightarrow> ('f, 'ep, 'w) daemon" where
  [eval_simps]: "on_stop_signal env dm = stop_server env (dm\<lparr>dm_state := print_line (CHR 0x0A # ''shutting down'') (dm_state dm)\<rparr>)"

subsection \<open>The event loop\<close>

datatype 'f daemon_event = HandlerEvent "'f event" | Datagram bytes 'f | ReloadSignal | ReloadDone nat | StopSignal | StopCall

inductive daemon_step :: "('addr, 'f, 'ep, 'w) server_env \<Rightarrow> ('f, 'ep, 'w) daemon \<Rightarrow> 'f daemon_event \<Rightarrow> ('f, 'ep, 'w) daemon \<Rightarrow> bool"
  for env :: "('addr, 'f, 'ep, 'w) server_env" where
  step_datagram: "dm_running dm \<Longrightarrow>
    handler_step (se_handler env) (dm_state dm, dm_phases dm) (Receive buf from (dm_blocklist dm)) (st, ps) \<Longrightarrow>
    daemon_step env dm (Datagram buf from) (dm\<lparr>dm_state := st, dm_phases := ps\<rparr>)"
| step_handler: "dm_running dm \<Longrightarrow> \<forall>buf from bl. ev \<noteq> Receive buf from bl \<Longrightarrow>
    handler_step (se_handler env) (dm_state dm, dm_phases dm) ev (st, ps) \<Longrightarrow>
    daemon_step env dm (HandlerEvent ev) (dm\<lparr>dm_state := st, dm_phases := ps\<rparr>)"
| step_reload: "dm_running dm \<Longrightarrow> daemon_step env dm ReloadSignal (on_reload env dm)"
| step_reload_done: "dm_running dm \<Longrightarrow> i < length (dm_reloads dm) \<Longrightarrow>
    daemon_step env dm (ReloadDone i) (dm\<lparr>dm_state := finish_reload env (dm_reloads dm ! i) (dm_state dm),
      dm_reloads := take i (dm_reloads dm) @ drop (Suc i) (dm_reloads dm)\<rparr>)"
| step_stop_signal: "dm_running dm \<Longrightarrow> daemon_step env dm StopSignal (on_stop_signal env dm)"
| step_stop_call: "dm_running dm \<Longrightarrow> daemon_step env dm StopCall (stop_server env dm)"

subsection \<open>The program\<close>

abbreviation arg :: "string list \<Rightarrow> nat \<Rightarrow> string" where
  "arg argv i \<equiv> if i < length argv then argv ! i else []"

definition load_or_default :: "('addr, 'f, 'ep, 'w) server_env \<Rightarrow> string list \<Rightarrow> 'w \<Rightarrow> config result" where
  [eval_simps]: "load_or_default env argv w =
     (let load = load_config (se_open_read env w) (se_parse_toml env) (se_config_env env) in
      if length argv > 1 then
        if path_extension (argv ! 1) = ''.toml'' then load (argv ! 1)
        else Inr (default_config\<lparr>cfg_blocklist := [argv ! 1]\<rparr>)
      else case find_config_path (se_path_exists env w) (arg argv 0) of
        Some discovered \<Rightarrow> load discovered
      | None \<Rightarrow> Inr default_config)"

text \<open>The line \<^verbatim>\<open>load_or_default\<close> prints when it found a configuration file.\<close>

definition config_lines :: "('addr, 'f, 'ep, 'w) server_env \<Rightarrow> string list \<Rightarrow> 'w \<Rightarrow> string list" where
  [eval_simps]: "config_lines env argv w =
     (if length argv > 1 then []
      else case find_config_path (se_path_exists env w) (arg argv 0) of
        Some discovered \<Rightarrow> [''config: '' @ discovered]
      | None \<Rightarrow> [])"

definition detect_reload_path :: "('addr, 'f, 'ep, 'w) server_env \<Rightarrow> string list \<Rightarrow> 'w \<Rightarrow> string" where
  [eval_simps]: "detect_reload_path env argv w =
     (if length argv > 1 \<and> path_extension (argv ! 1) = ''.toml'' then argv ! 1
      else case find_config_path (se_path_exists env w) (arg argv 0) of
        Some discovered \<Rightarrow> discovered
      | None \<Rightarrow> [])"

definition print_first :: "string list \<Rightarrow> ('f, 'ep, 'w) daemon \<Rightarrow> ('f, 'ep, 'w) daemon" where
  [eval_simps]: "print_first lines dm = dm\<lparr>dm_state := (dm_state dm)\<lparr>sv_console := lines @ sv_console (dm_state dm)\<rparr>\<rparr>"

text \<open>\<open>main_start\<close> is \<^verbatim>\<open>main\<close> up to the event loop: the running daemon, or the message of the fatal exception (exit code 1).\<close>

definition main_start :: "('addr, 'f, 'ep, 'w) server_env \<Rightarrow> string list \<Rightarrow> 'w \<Rightarrow> ('f, 'ep, 'w) daemon result \<times> 'w" where
  [eval_simps]: "main_start env argv w =
     (let reload_path = detect_reload_path env argv w in
      case load_or_default env argv w of
        Inl e \<Rightarrow> (Inl e, w)
      | Inr cfg \<Rightarrow>
          (case build_from_config (se_factory env) (cfg_upstream cfg) w of
             (Inl e, w1) \<Rightarrow> (Inl e, w1)
           | (Inr rs, w1) \<Rightarrow> apfst (map_sum id (print_first (config_lines env argv w))) (start_server env cfg rs reload_path w1)))"

definition exit_code :: "('f, 'ep, 'w) daemon result \<Rightarrow> int" where
  [eval_simps]: "exit_code r = (case r of Inl e \<Rightarrow> 1 | Inr _ \<Rightarrow> 0)"

section \<open>Loading the rules\<close>

definition file_rules :: "(string \<Rightarrow> string option) \<Rightarrow> string list \<Rightarrow> string set" where
  "file_rules read_file paths = (\<Union>p \<in> set paths. case read_file p of None \<Rightarrow> {} | Some content \<Rightarrow> valid_rules (hosts_tokens content))"

context rule_store
begin

lemma load_all:
  assumes "finite (rules s)"
  shows "case find (\<lambda>p. read_file p = None) paths of
      Some p \<Rightarrow> load_sources (\<lambda>p. load_hosts_into read_file p
        (\<lambda>tok s. let before = card (rules s); s' = add tok s in (s', card (rules s') \<noteq> before))) paths s n
          = Inl (RuntimeError (''cannot open list file: '' @ p))
    | None \<Rightarrow> \<exists>k. load_sources (\<lambda>p. load_hosts_into read_file p
        (\<lambda>tok s. let before = card (rules s); s' = add tok s in (s', card (rules s') \<noteq> before))) paths s n
          = Inr (set_rules (rules s \<union> file_rules read_file paths) s, k) \<and> k + card (rules s) = n + card (rules s \<union> file_rules read_file paths)"
  using assms
proof (induction paths arbitrary: s n)
  case (Cons p paths)
  show ?case
  proof (cases "read_file p")
    case None
    then show ?thesis by (simp add: load_hosts_into_def)
  next
    case (Some content)
    obtain added where l: "load_hosts_into read_file p (\<lambda>tok s. let before = card (rules s); s' = add tok s in (s', card (rules s') \<noteq> before)) s =
        Inr (set_rules (rules s \<union> valid_rules (hosts_tokens content)) s, added)"
        "card (rules s) + added = card (rules s \<union> valid_rules (hosts_tokens content))"
      using load_spec [where read_file = read_file and path = p, OF Cons.prems Some] by blast
    have fin: "finite (rules (set_rules (rules s \<union> valid_rules (hosts_tokens content)) s))" using Cons.prems by (simp add: valid_rules_def)
    have "rules s \<union> valid_rules (hosts_tokens content) \<union> file_rules read_file paths = rules s \<union> file_rules read_file (p # paths)"
      using Some by (auto simp: file_rules_def)
    then show ?thesis using Cons.IH [OF fin, of "n + added"] l Some by (auto split: option.splits)
  qed
qed (simp add: file_rules_def)

end

lemma load_all_blocks:
  assumes "finite (bl_suffix bl)"
  shows "case find (\<lambda>p. read_file p = None) paths of
      Some p \<Rightarrow> load_sources (load_hosts_file read_file) paths bl n = Inl (RuntimeError (''cannot open list file: '' @ p))
    | None \<Rightarrow> \<exists>k. load_sources (load_hosts_file read_file) paths bl n = Inr (bl\<lparr>bl_suffix := bl_suffix bl \<union> file_rules read_file paths\<rparr>, k) \<and>
        k + card (bl_suffix bl) = n + card (bl_suffix bl \<union> file_rules read_file paths)"
  unfolding load_hosts_file_def [abs_def] using block_store.load_all [OF assms] .

lemma load_all_allows:
  assumes "finite (bl_allow_suffix bl)"
  shows "case find (\<lambda>p. read_file p = None) paths of
      Some p \<Rightarrow> load_sources (load_allowlist_file read_file) paths bl n = Inl (RuntimeError (''cannot open list file: '' @ p))
    | None \<Rightarrow> \<exists>k. load_sources (load_allowlist_file read_file) paths bl n = Inr (bl\<lparr>bl_allow_suffix := bl_allow_suffix bl \<union> file_rules read_file paths\<rparr>, k) \<and>
        k + card (bl_allow_suffix bl) = n + card (bl_allow_suffix bl \<union> file_rules read_file paths)"
  unfolding load_allowlist_file_def [abs_def] using allow_store.load_all [OF assms] .

lemma build_blocklist_eq:
  "build_blocklist read_file cfg =
     (case find (\<lambda>p. read_file p = None) (cfg_blocklist cfg @ cfg_allowlist cfg) of
        Some p \<Rightarrow> Inl (RuntimeError (''cannot open list file: '' @ p))
      | None \<Rightarrow> Inr (\<lparr>bl_exact = {}, bl_suffix = file_rules read_file (cfg_blocklist cfg), bl_regex = [], bl_allow_exact = {},
          bl_allow_suffix = file_rules read_file (cfg_allowlist cfg)\<rparr>, card (file_rules read_file (cfg_blocklist cfg)), card (file_rules read_file (cfg_allowlist cfg))))"
proof -
  have fin: "finite (bl_suffix empty_blocklist)" "finite (bl_allow_suffix (empty_blocklist\<lparr>bl_suffix := S\<rparr>))" for S
    by (simp_all add: empty_blocklist_def)
  note b = load_all_blocks [OF fin(1), of read_file "cfg_blocklist cfg" 0]
  note a = load_all_allows [OF fin(2), of read_file "cfg_allowlist cfg" _ 0]
  have split: "find P (xs @ ys) = (case find P xs of None \<Rightarrow> find P ys | Some x \<Rightarrow> Some x)" for P and xs ys :: "string list"
    by (induction xs) auto
  show ?thesis
  proof (cases "find (\<lambda>p. read_file p = None) (cfg_blocklist cfg)")
    case None
    then have k: "load_sources (load_hosts_file read_file) (cfg_blocklist cfg) empty_blocklist 0 =
        Inr (empty_blocklist\<lparr>bl_suffix := file_rules read_file (cfg_blocklist cfg)\<rparr>, card (file_rules read_file (cfg_blocklist cfg)))"
      using b by (auto simp: empty_blocklist_def)
    show ?thesis using a [of "file_rules read_file (cfg_blocklist cfg)"] None k
      by (auto simp: build_blocklist_def split empty_blocklist_def split: option.splits)
  next
    case (Some p)
    then show ?thesis using b by (simp add: build_blocklist_def split)
  qed
qed

section \<open>Reload\<close>

inductive_cases step_datagramE: "daemon_step env dm (Datagram buf from) dm'"
inductive_cases step_handlerE: "daemon_step env dm (HandlerEvent ev) dm'"
inductive_cases step_reloadE: "daemon_step env dm ReloadSignal dm'"
inductive_cases step_reload_doneE: "daemon_step env dm (ReloadDone i) dm'"

text \<open>A reload changes the block rules, the world, the console and the pending bootstraps, and nothing else.\<close>

definition outside_of :: "('f, 'w) server_state \<Rightarrow> ('f, 'w) server_state \<Rightarrow> bool" where
  "outside_of st st' \<longleftrightarrow> (\<exists>ls. sv_console st' = sv_console st @ ls) \<and> sv_cache st' = sv_cache st \<and> sv_logger st' = sv_logger st \<and>
     sv_fs st' = sv_fs st \<and> sv_resolver st' = sv_resolver st \<and> sv_uncloak_blocklist st' = sv_uncloak_blocklist st \<and>
     sv_max_depth st' = sv_max_depth st \<and> sv_sent st' = sv_sent st \<and> sv_logged st' = sv_logged st"

lemma outside_of_simps [simp]:
  "outside_of st st" "outside_of st0 st \<Longrightarrow> outside_of st0 (print_line l st)" "outside_of st0 st \<Longrightarrow> outside_of st0 (live_swap env c b st)"
  "outside_of st0 (st\<lparr>sv_world := w\<rparr>) = outside_of st0 st"
  by (auto simp: outside_of_def live_swap_def)

lemma outside_of_frame:
  assumes "outside_of st st'"
  shows "sv_cache st' = sv_cache st" "sv_logger st' = sv_logger st" "sv_sent st' = sv_sent st" "sv_logged st' = sv_logged st" "sv_fs st' = sv_fs st"
    "pinned st' = pinned st"
  using assms by (simp_all add: outside_of_def pinned_def)

lemma outside_step:
  assumes "outside_of st st'"
  shows "handler_step env (st, ps) Outside (st', ps)"
proof -
  obtain ls where "sv_console st' = sv_console st @ ls" using assms by (auto simp: outside_of_def)
  then have "st' = st\<lparr>sv_console := sv_console st @ ls, sv_world := sv_world st'\<rparr>"
    using assms by (intro server_state.equality) (simp_all add: outside_of_def)
  then show ?thesis by (metis step_outside)
qed

lemma on_reload_frame:
  "dm_phases (on_reload env dm) = dm_phases dm" "dm_cfg (on_reload env dm) = dm_cfg dm" "dm_reload_path (on_reload env dm) = dm_reload_path dm"
  "dm_running (on_reload env dm) = dm_running dm"
  by (simp_all add: on_reload_def Let_def split: sum.split prod.split)

lemma on_reload_outside: "outside_of (dm_state dm) (dm_state (on_reload env dm))"
  by (simp add: on_reload_def Let_def split: sum.split prod.split)

lemma finish_reload_outside: "outside_of st (finish_reload env job st)"
  by (simp add: finish_reload_def Let_def split: prod.split option.split)

text \<open>The datagrams among the events of a daemon run.\<close>

fun datagrams :: "'f daemon_event list \<Rightarrow> ('f \<times> bytes) list" where
  "datagrams [] = []"
| "datagrams (Datagram buf from # evs) = (from, take kReceiveBuffer buf) # datagrams evs"
| "datagrams (_ # evs) = datagrams evs"

lemma datagrams_append [simp]: "datagrams (evs @ evs') = datagrams evs @ datagrams evs'"
  by (induction evs rule: datagrams.induct) auto

fun daemon_resume :: "'f daemon_event \<Rightarrow> bool" where
  "daemon_resume (HandlerEvent ev) = is_resume ev"
| "daemon_resume _ = False"

lemma received_other: "\<forall>buf from bl. ev \<noteq> Receive buf from bl \<Longrightarrow> received [ev] = []"
  by (cases ev) auto

lemma daemon_step_handlers:
  assumes "daemon_step env dm ev dm'" "dm_running dm'"
  shows "dm_running dm \<and> (\<exists>hev. handler_step (se_handler env) (dm_state dm, dm_phases dm) hev (dm_state dm', dm_phases dm') \<and>
    received [hev] = datagrams [ev] \<and> is_resume hev = daemon_resume ev \<and> (\<forall>buf f bl. hev = Receive buf f bl \<longrightarrow> bl = dm_blocklist dm))"
  using assms(1)
proof (cases rule: daemon_step.cases)
  case (step_datagram buf f st ps)
  then show ?thesis by (auto intro!: exI [of _ "Receive buf f (dm_blocklist dm)"])
next
  case (step_handler hev st ps)
  then show ?thesis using received_other by (auto intro!: exI [of _ hev])
next
  case step_reload
  have "handler_step (se_handler env) (dm_state dm, dm_phases dm) Outside (dm_state (on_reload env dm), dm_phases dm)"
    by (rule outside_step [OF on_reload_outside])
  then show ?thesis using step_reload by (auto simp: on_reload_frame intro!: exI [of _ Outside])
next
  case (step_reload_done i)
  have "handler_step (se_handler env) (dm_state dm, dm_phases dm) Outside (finish_reload env (dm_reloads dm ! i) (dm_state dm), dm_phases dm)"
    by (rule outside_step [OF finish_reload_outside])
  then show ?thesis using step_reload_done by (auto intro!: exI [of _ Outside])
next
  case step_stop_signal
  then show ?thesis using assms(2) by (simp add: on_stop_signal_def stop_server_def Let_def split: prod.splits)
next
  case step_stop_call
  then show ?thesis using assms(2) by (simp add: stop_server_def Let_def split: prod.splits)
qed

lemma daemon_run_handlers:
  assumes "run_steps (daemon_step env) dm evs dm'" "dm_running dm'"
  shows "\<exists>hevs. run_steps (handler_step (se_handler env)) (dm_state dm, dm_phases dm) hevs (dm_state dm', dm_phases dm') \<and>
    received hevs = datagrams evs \<and> length (filter is_resume hevs) = length (filter daemon_resume evs)"
  using assms
proof (induction rule: run_steps.induct)
  case run_Nil
  show ?case by (intro exI [of _ "[]"]) (simp add: run_steps.run_Nil)
next
  case (run_snoc evs c ev c')
  from daemon_step_handlers [OF run_snoc.hyps(2) run_snoc.prems] obtain hev where
      s: "dm_running c" "handler_step (se_handler env) (dm_state c, dm_phases c) hev (dm_state c', dm_phases c')" "received [hev] = datagrams [ev]"
        "is_resume hev = daemon_resume ev" by blast
  from run_snoc.IH [OF s(1)] obtain hevs where h: "run_steps (handler_step (se_handler env)) (dm_state dm, dm_phases dm) hevs (dm_state c, dm_phases c)"
      "received hevs = datagrams evs" "length (filter is_resume hevs) = length (filter daemon_resume evs)" by blast
  show ?case using run_steps.run_snoc [OF h(1) s(2)] h(2,3) s(3,4) by (intro exI [of _ "hevs @ [hev]"]) simp
qed

text \<open>A run either still goes on, or its last event stopped it.\<close>

lemma daemon_run_cases:
  assumes "run_steps (daemon_step env) dm0 evs dm" "dm_running dm0"
  obtains (Running) "dm_running dm"
  | (Stopped) evs1 ev dm1 dm2 where "run_steps (daemon_step env) dm0 evs1 dm1" "dm_running dm1" "evs = evs1 @ [ev]" "datagrams [ev] = []" "\<not> daemon_resume ev"
      "dm = stop_server env dm2" "outside_of (dm_state dm1) (dm_state dm2)"
  using assms
proof (cases rule: run_steps.cases)
  case (run_snoc evs1 dm1 ev)
  show ?thesis
  proof (cases "dm_running dm")
    case False
    from run_snoc(3) show ?thesis
    proof (cases rule: daemon_step.cases)
      case step_stop_signal
      show ?thesis by (rule Stopped [OF run_snoc(2) step_stop_signal(3) run_snoc(1), of "dm1\<lparr>dm_state := print_line (CHR 0x0A # ''shutting down'') (dm_state dm1)\<rparr>"])
          (use step_stop_signal in \<open>simp_all add: on_stop_signal_def\<close>)
    next
      case step_stop_call
      show ?thesis by (rule Stopped [OF run_snoc(2) step_stop_call(3) run_snoc(1), of dm1]) (use step_stop_call in simp_all)
    qed (use False on_reload_frame(4) in auto)
  qed (rule Running)
qed simp

lemma stop_server_frame:
  "dm_running (stop_server env dm) = False" "dm_phases (stop_server env dm) = []" "sv_sent (dm_state (stop_server env dm)) = sv_sent (dm_state dm)"
  "sv_logged (dm_state (stop_server env dm)) = sv_logged (dm_state dm)" "sv_cache (dm_state (stop_server env dm)) = sv_cache (dm_state dm)"
  "pinned (dm_state (stop_server env dm)) = pinned (dm_state dm)" "dm_cfg (stop_server env dm) = dm_cfg dm"
  by (simp_all add: stop_server_def Let_def pinned_def split: prod.split)

text \<open>
  Behind every state of the daemon is a run of the handlers: it ended in that state while the daemon
  runs, and in the state that was shut down once it is stopped.
\<close>

lemma daemon_history:
  assumes "run_steps (daemon_step env) dm0 evs dm" "dm_running dm0"
  obtains hevs st ps where "run_steps (handler_step (se_handler env)) (dm_state dm0, dm_phases dm0) hevs (st, ps)" "received hevs = datagrams evs"
    "length (filter is_resume hevs) = length (filter daemon_resume evs)"
    "sv_sent (dm_state dm) = sv_sent st" "sv_logged (dm_state dm) = sv_logged st" "sv_cache (dm_state dm) = sv_cache st"
    "if dm_running dm then st = dm_state dm \<and> ps = dm_phases dm
     else dm_phases dm = [] \<and> (sv_logger (dm_state dm), sv_fs (dm_state dm)) = destroy_logger (he_log (se_handler env)) (sv_logger st) (sv_fs st)"
  using assms
proof (cases rule: daemon_run_cases)
  case Running
  then show ?thesis using daemon_run_handlers [OF assms(1)] that by force
next
  case (Stopped evs1 ev dm1 dm2)
  obtain hevs where h: "run_steps (handler_step (se_handler env)) (dm_state dm0, dm_phases dm0) hevs (dm_state dm1, dm_phases dm1)"
      "received hevs = datagrams evs1" "length (filter is_resume hevs) = length (filter daemon_resume evs1)" using daemon_run_handlers [OF Stopped(1,2)] by blast
  note fr = outside_of_frame [OF Stopped(7)]
  have "(sv_logger (dm_state dm), sv_fs (dm_state dm)) = destroy_logger (he_log (se_handler env)) (sv_logger (dm_state dm1)) (sv_fs (dm_state dm1))"
    using fr(2,5) by (simp add: Stopped(6) stop_server_def Let_def split: prod.split)
  then show ?thesis using that [OF h(1)] h(2,3) fr(1,3,4) Stopped(3-6) by (simp add: stop_server_frame)
qed

text \<open>The block rules of the uncloaker, the cache limits and the upstreams are pinned for the life of the process.\<close>

lemma daemon_step_pinned: "daemon_step env dm ev dm' \<Longrightarrow> pinned (dm_state dm') = pinned (dm_state dm)"
proof (induction rule: daemon_step.induct)
  case (step_datagram dm buf f st ps)
  then show ?case using handler_step_pinned by fastforce
next
  case (step_handler dm ev st ps)
  then show ?case using handler_step_pinned by fastforce
next
  case (step_reload dm)
  show ?case by (rule outside_of_frame(6) [OF on_reload_outside])
next
  case (step_reload_done dm i)
  show ?case by (simp, rule outside_of_frame(6) [OF finish_reload_outside])
next
  case (step_stop_signal dm)
  then show ?case by (simp add: on_stop_signal_def stop_server_frame)
next
  case (step_stop_call dm)
  then show ?case by (simp add: stop_server_frame)
qed

lemma daemon_run_pinned: "run_steps (daemon_step env) dm evs dm' \<Longrightarrow> pinned (dm_state dm') = pinned (dm_state dm)"
  by (induction rule: run_steps.induct) (auto dest: daemon_step_pinned)

section \<open>Properties of the daemon\<close>

text \<open>The rules the server runs on are exactly those of the configured files. Building the list fails
  only when a file cannot be opened, naming the first such file; otherwise the suffix block rules are
  precisely the valid names in the block files, the suffix allow rules those in the allow files, and
  there are no other rules: neither the order of the files nor repetitions matter. The two numbers the
  start-up message reports are the numbers of these rules.\<close>

theorem build_blocklist_exact:
  "build_blocklist read_file cfg =
     (case find (\<lambda>p. read_file p = None) (cfg_blocklist cfg @ cfg_allowlist cfg) of
        Some p \<Rightarrow> Inl (RuntimeError (''cannot open list file: '' @ p))
      | None \<Rightarrow> Inr (\<lparr>bl_exact = {}, bl_suffix = file_rules read_file (cfg_blocklist cfg), bl_regex = [], bl_allow_exact = {},
          bl_allow_suffix = file_rules read_file (cfg_allowlist cfg)\<rparr>, card (file_rules read_file (cfg_blocklist cfg)), card (file_rules read_file (cfg_allowlist cfg))))"
  by (rule build_blocklist_eq)

text \<open>A reload never reaches the uncloaker. Whatever happens while the daemon runs, reloads included, the
  rules against which CNAME targets are checked are those of the start: a name added to the block files
  later is caught as a query name, but not behind a CNAME.\<close>

theorem uncloak_rules_pinned:
  assumes "run_steps (daemon_step env) dm evs dm'"
  shows "sv_uncloak_blocklist (dm_state dm') = sv_uncloak_blocklist (dm_state dm)"
  by (rule pinned_eq(1) [OF daemon_run_pinned [OF assms]])

lemma start_server_state:
  assumes "start_server env cfg rs reload_path w = (Inr dm, w')"
  shows "sv_sent (dm_state dm) = []" "dm_phases dm = []" "sv_uncloak_blocklist (dm_state dm) = dm_blocklist dm"
    "sv_cache (dm_state dm) = empty_cache (cache_config_of (dm_cfg dm))" "sv_resolver (dm_state dm) = rs" "sv_logged (dm_state dm) = []"
    "dm_running dm" "\<exists>fs. (sv_logger (dm_state dm), sv_fs (dm_state dm)) = make_logger (he_log (se_handler env)) (logger_config_of (dm_cfg dm)) fs"
    "0 < cs_max_entries (cfg_cache (dm_cfg dm)) \<Longrightarrow> resolver_shape rs \<Longrightarrow> server_ok (dm_state dm)"
proof -
  show "\<exists>fs. (sv_logger (dm_state dm), sv_fs (dm_state dm)) = make_logger (he_log (se_handler env)) (logger_config_of (dm_cfg dm)) fs"
    using assms by (auto simp: start_server_def Let_def split: prod.splits sum.splits) (metis sym)+
  show *: "sv_sent (dm_state dm) = []" "dm_phases dm = []" "sv_uncloak_blocklist (dm_state dm) = dm_blocklist dm"
    "sv_cache (dm_state dm) = empty_cache (cache_config_of (dm_cfg dm))" "sv_resolver (dm_state dm) = rs" "sv_logged (dm_state dm) = []"
    "dm_running dm"
    using assms by (auto simp: start_server_def Let_def split: prod.splits sum.splits)
  show "0 < cs_max_entries (cfg_cache (dm_cfg dm)) \<Longrightarrow> resolver_shape rs \<Longrightarrow> server_ok (dm_state dm)"
    by (simp add: server_ok_def cache_vetted_def *) (simp add: empty_cache_def cache_config_of_def)
qed

lemma build_from_config_shape: "build_from_config env c w = (Inr rs, w') \<Longrightarrow> resolver_shape rs"
  using build_from_config_parts [of env c w rs w'] by (simp add: resolver_shape_def)

text \<open>What \<^verbatim>\<open>main\<close> hands to the event loop.\<close>

lemma main_start_state:
  assumes "main_start env argv w = (Inr dm, w')"
  shows "sv_sent (dm_state dm) = []" "dm_phases dm = []" "sv_uncloak_blocklist (dm_state dm) = dm_blocklist dm"
    "sv_cache (dm_state dm) = empty_cache (cache_config_of (dm_cfg dm))" "sv_logged (dm_state dm) = []" "dm_running dm"
    "\<exists>fs. (sv_logger (dm_state dm), sv_fs (dm_state dm)) = make_logger (he_log (se_handler env)) (logger_config_of (dm_cfg dm)) fs"
    "0 < cs_max_entries (cfg_cache (dm_cfg dm)) \<Longrightarrow> server_ok (dm_state dm)" "resolver_shape (sv_resolver (dm_state dm))"
proof -
  obtain cfg where l: "load_or_default env argv w = Inr cfg" using assms by (cases "load_or_default env argv w") (auto simp: main_start_def)
  obtain rs w1 where b: "build_from_config (se_factory env) (cfg_upstream cfg) w = (Inr rs, w1)"
    using assms l by (cases "build_from_config (se_factory env) (cfg_upstream cfg) w"; cases "fst (build_from_config (se_factory env) (cfg_upstream cfg) w)")
      (auto simp: main_start_def)
  obtain r w2 where r: "start_server env cfg rs (detect_reload_path env argv w) w1 = (r, w2)" by fastforce
  then obtain dm1 where "r = Inr dm1" and dm: "dm = print_first (config_lines env argv w) dm1"
    using assms l b by (cases r) (simp_all add: main_start_def)
  then have s: "start_server env cfg rs (detect_reload_path env argv w) w1 = (Inr dm1, w2)" using r by simp
  note st = start_server_state [OF s] and shape = build_from_config_shape [OF b]
  show "sv_sent (dm_state dm) = []" "dm_phases dm = []" "sv_uncloak_blocklist (dm_state dm) = dm_blocklist dm"
    "sv_cache (dm_state dm) = empty_cache (cache_config_of (dm_cfg dm))" "sv_logged (dm_state dm) = []" "dm_running dm"
    "\<exists>fs. (sv_logger (dm_state dm), sv_fs (dm_state dm)) = make_logger (he_log (se_handler env)) (logger_config_of (dm_cfg dm)) fs"
    "resolver_shape (sv_resolver (dm_state dm))"
    using st shape by (simp_all add: dm print_first_def)
  show "0 < cs_max_entries (cfg_cache (dm_cfg dm)) \<Longrightarrow> server_ok (dm_state dm)"
    using st(9) shape by (simp add: dm print_first_def server_ok_def)
qed

lemma bootstrap_ech_at_startup_sound:
  assumes "bootstrap_ech_at_startup env cfg w = (Inr (boot, cfg'), w')"
  shows "(\<exists>b. cfg' = with_ech_list b cfg \<and> boot \<and> b \<noteq> [] \<and>
      validate_ech_config_list (env_have_ech (se_config_env env)) (env_ech_probe (se_config_env env)) b = None) \<or> (cfg' = cfg \<and> \<not> boot)"
    and "up_ech_enabled (cfg_upstream cfg) \<Longrightarrow> up_ech_autobootstrap (cfg_upstream cfg) \<Longrightarrow> up_ech_config_list (cfg_upstream cfg') \<noteq> []"
  using assms
  by (auto simp: bootstrap_ech_at_startup_def fetched_list_def Let_def split: if_splits sum.splits prod.splits option.splits)

text \<open>C24: What a started server rests on. When the start succeeds, every list file could be read and the rules
  are exactly theirs, for queries and for the uncloaker alike; with ECH and its bootstrap configured
  there are ECH bytes, fetched ones only if they were validated; the socket was bound before the
  privileges were given up, and both succeeded; and the cache is empty with the configured limit, which
  puts the server in order whenever the limit is positive and the resolver counts for each of its upstreams.\<close>

theorem startup_sound:
  assumes "start_server env cfg rs reload_path w = (Inr dm, w')"
  shows "\<exists>boot cfg' w1 w2 w3. bootstrap_ech_at_startup env cfg w = (Inr (boot, cfg'), w1) \<and> dm_cfg dm = cfg' \<and>
    (up_ech_enabled (cfg_upstream cfg) \<and> up_ech_autobootstrap (cfg_upstream cfg) \<longrightarrow> up_ech_config_list (cfg_upstream cfg') \<noteq> []) \<and>
    (boot \<longrightarrow> validate_ech_config_list (env_have_ech (se_config_env env)) (env_ech_probe (se_config_env env)) (up_ech_config_list (cfg_upstream cfg')) = None) \<and>
    dm_blocklist dm = \<lparr>bl_exact = {}, bl_suffix = file_rules (se_read_list env w1) (cfg_blocklist cfg), bl_regex = [], bl_allow_exact = {},
      bl_allow_suffix = file_rules (se_read_list env w1) (cfg_allowlist cfg)\<rparr> \<and>
    (\<forall>p \<in> set (cfg_blocklist cfg @ cfg_allowlist cfg). se_read_list env w1 p \<noteq> None) \<and>
    sv_uncloak_blocklist (dm_state dm) = dm_blocklist dm \<and>
    listen env (cfg_server cfg) w2 = (Inr (), w3) \<and>
    drop_privileges (se_posix env) (run_as_user (cfg_service cfg)) (run_as_group (cfg_service cfg)) w3 = (Inr (), w') \<and>
    sv_cache (dm_state dm) = empty_cache (cache_config_of cfg) \<and> sv_sent (dm_state dm) = [] \<and> dm_phases dm = [] \<and>
    (0 < cs_max_entries (cfg_cache cfg) \<and> resolver_shape rs \<longrightarrow> server_ok (dm_state dm))"
proof -
  obtain boot cfg' w1 where b: "bootstrap_ech_at_startup env cfg w = (Inr (boot, cfg'), w1)"
    using assms by (cases "bootstrap_ech_at_startup env cfg w"; cases "fst (bootstrap_ech_at_startup env cfg w)") (auto simp: start_server_def)
  note sound = bootstrap_ech_at_startup_sound [OF b]
  have same: "cfg_blocklist cfg' = cfg_blocklist cfg" "cfg_allowlist cfg' = cfg_allowlist cfg" "cfg_server cfg' = cfg_server cfg"
      "cfg_service cfg' = cfg_service cfg" "cache_config_of cfg' = cache_config_of cfg"
    using sound(1) by (auto simp: cache_config_of_def)
  obtain bl n k where bl: "build_blocklist (se_read_list env w1) cfg' = Inr (bl, n, k)" using assms b by (auto simp: start_server_def split: sum.splits)
  let ?w2 = "if boot then impl_swap_ech env rs cfg' True w1 else w1"
  obtain w3 where l: "listen env (cfg_server cfg') ?w2 = (Inr (), w3)"
    using assms b bl by (cases "listen env (cfg_server cfg') ?w2"; cases "fst (listen env (cfg_server cfg') ?w2)") (auto simp: start_server_def Let_def split: prod.splits)
  obtain lg fs where m: "make_logger (he_log (se_handler env)) (logger_config_of cfg') (se_log_fs env ?w2) = (lg, fs)" by fastforce
  have d: "drop_privileges (se_posix env) (run_as_user (cfg_service cfg')) (run_as_group (cfg_service cfg')) w3 = (Inr (), w')"
    and dm: "dm = \<lparr>dm_cfg = cfg', dm_reload_path = reload_path, dm_blocklist = bl,
                 dm_state = \<lparr>sv_cache = empty_cache (cache_config_of cfg'), sv_logger = lg, sv_fs = fs, sv_resolver = rs,
                   sv_uncloak_blocklist = bl, sv_max_depth = cfg_uncloak_max_depth cfg', sv_sent = [], sv_logged = [],
                   sv_console = bootstrap_lines cfg' @ [loaded_line cfg' n k] @ banner cfg', sv_world = w'\<rparr>,
                 dm_phases = [], dm_reloads = [], dm_running = True\<rparr>"
    using assms b bl l m by (auto simp: start_server_def Let_def split: prod.splits sum.splits)
  have found: "find (\<lambda>p. se_read_list env w1 p = None) (cfg_blocklist cfg @ cfg_allowlist cfg) = None"
    and rules: "bl = \<lparr>bl_exact = {}, bl_suffix = file_rules (se_read_list env w1) (cfg_blocklist cfg), bl_regex = [], bl_allow_exact = {},
      bl_allow_suffix = file_rules (se_read_list env w1) (cfg_allowlist cfg)\<rparr>"
    using bl by (auto simp: build_blocklist_eq same split: option.splits)
  have "server_ok (dm_state dm)" if "0 < cs_max_entries (cfg_cache cfg) \<and> resolver_shape rs"
    using that start_server_state(9) [OF assms] same(5) by (simp add: dm cache_config_of_def)
  then show ?thesis using b sound bl l d dm same found rules unfolding find_None_iff
    by (intro exI [of _ boot] exI [of _ cfg'] exI [of _ w1] exI [of _ ?w2] exI [of _ w3]) auto
qed

definition silent_boot :: "(string \<times> u16, unit) boot_net" where
  [eval_simps]: "silent_boot = \<lparr>bn_draw_id = \<lambda>w. (0, w), bn_connect = \<lambda>_ w. (True, w), bn_arm_timer = \<lambda>_ w. w, bn_send = \<lambda>_ w. (True, w),
     bn_arrivals = \<lambda>w. ([], w), bn_cancel_timer = \<lambda>w. w\<rparr>"

definition sample_posix :: "unit posix" where
  [eval_simps]: "sample_posix = \<lparr>px_getgrnam = \<lambda>_ w. (None, w), px_getpwnam = \<lambda>_ w. (None, w), px_setgroups = \<lambda>_ w. (False, w),
     px_setgid = \<lambda>_ w. (False, w), px_setuid = \<lambda>_ w. (False, w), px_strerror = \<lambda>_. ''EPERM''\<rparr>"

definition sample_server_env :: "(string, unit, string \<times> u16, unit) server_env" where
  [eval_simps]: "sample_server_env = \<lparr>se_handler = sample_handler_env, se_factory = sample_factory, se_boot = silent_boot, se_config_env = sample_env,
     se_open_read = \<lambda>_ _. CannotOpen, se_parse_toml = \<lambda>_. Inl ([], 0, 0), se_read_list = \<lambda>_. sample_hosts, se_path_exists = \<lambda>_ p. p = kConfigFileName,
     se_now = \<lambda>_. 1, se_hours = \<lambda>d. d div 3600, se_bind = \<lambda>_ _ w. (Inr (), w), se_posix = sample_posix, se_log_fs = \<lambda>_. empty_fs\<rparr>"

definition sample_server_config :: config where
  [eval_simps]: "sample_server_config = default_config\<lparr>cfg_blocklist := [''hosts'']\<rparr>"

lemma sample_start_rules:
  assumes "read_file ''hosts'' \<noteq> None"
  shows "\<exists>dm. start_server (sample_server_env\<lparr>se_read_list := \<lambda>_. read_file\<rparr>) (sample_server_config\<lparr>cfg_logging := l\<rparr>) rs path () = (Inr dm, ()) \<and>
    dm_cfg dm = sample_server_config\<lparr>cfg_logging := l\<rparr>"
proof -
  let ?cfg = "sample_server_config\<lparr>cfg_logging := l\<rparr>" and ?env = "sample_server_env\<lparr>se_read_list := \<lambda>_. read_file\<rparr>"
  have "bootstrap_ech_at_startup ?env ?cfg () = (Inr (False, ?cfg), ())"
    by (simp add: bootstrap_ech_at_startup_def sample_server_config_def default_config_def default_upstream_def)
  moreover have "find (\<lambda>p. read_file p = None) (cfg_blocklist ?cfg @ cfg_allowlist ?cfg) = None"
    using assms by (simp add: sample_server_config_def default_config_def)
  then obtain bl n k where "build_blocklist (se_read_list ?env ()) ?cfg = Inr (bl, n, k)"
    by (simp add: build_blocklist_eq)
  moreover have "listen ?env (cfg_server ?cfg) () = (Inr (), ())"
    by (simp add: listen_def sample_server_env_def sample_factory_def)
  moreover have "drop_privileges (se_posix ?env) (run_as_user (cfg_service ?cfg)) (run_as_group (cfg_service ?cfg)) () = (Inr (), ())"
    by (simp add: drop_privileges_def sample_server_config_def default_config_def)
  ultimately show ?thesis by (simp add: start_server_def Let_def split: prod.split)
qed

lemma sample_start_log:
  "\<exists>dm. start_server sample_server_env (sample_server_config\<lparr>cfg_logging := l\<rparr>) rs path () = (Inr dm, ()) \<and> dm_cfg dm = sample_server_config\<lparr>cfg_logging := l\<rparr>"
proof -
  have "sample_server_env\<lparr>se_read_list := \<lambda>_. sample_hosts\<rparr> = sample_server_env" by (simp add: sample_server_env_def)
  then show ?thesis using sample_start_rules [of sample_hosts l rs path] by (simp add: sample_hosts_def)
qed

lemma sample_start: "\<exists>dm. start_server sample_server_env sample_server_config rs path () = (Inr dm, ()) \<and> dm_cfg dm = sample_server_config"
  using sample_start_log [of "cfg_logging sample_server_config" rs path] by simp

lemma sample_max_entries: "0 < cs_max_entries (cfg_cache sample_server_config)"
  by (simp add: sample_server_config_def default_config_def)

theorem startup_sound_witness:
  "\<exists>dm. start_server sample_server_env sample_server_config sample_resolver [] () = (Inr dm, ()) \<and> server_ok (dm_state dm)"
proof -
  obtain dm where d: "start_server sample_server_env sample_server_config sample_resolver [] () = (Inr dm, ())" using sample_start by blast
  have "resolver_shape sample_resolver" by (simp add: resolver_shape_def sample_resolver_def)
  with startup_sound [OF d] sample_max_entries have "server_ok (dm_state dm)" by blast
  with d show ?thesis by blast
qed

theorem uncloak_rules_pinned_witness:
  "\<exists>dm evs dm'. run_steps (daemon_step sample_server_env) dm evs dm' \<and> evs = [ReloadSignal] \<and> sv_uncloak_blocklist (dm_state dm') = sv_uncloak_blocklist (dm_state dm)"
proof -
  obtain dm where d: "start_server sample_server_env sample_server_config sample_resolver [] () = (Inr dm, ())" using sample_start by blast
  let ?dm = "on_reload sample_server_env dm"
  have run: "run_steps (daemon_step sample_server_env) dm [ReloadSignal] ?dm"
    using run_snoc [where step = "daemon_step sample_server_env" and evs = "[]", OF run_Nil step_reload] start_server_state(7) [OF d] by simp
  from uncloak_rules_pinned [OF run] run show ?thesis by (intro exI [of _ dm] exI [of _ "[ReloadSignal]"] exI [of _ ?dm]) simp
qed

text \<open>The configuration a reload works with.\<close>

definition fresh_config :: "('addr, 'f, 'ep, 'w) server_env \<Rightarrow> ('f, 'ep, 'w) daemon \<Rightarrow> config result" where
  "fresh_config env dm = (if dm_reload_path dm = [] then Inr (dm_cfg dm)
     else load_config (se_open_read env (sv_world (dm_state dm))) (se_parse_toml env) (se_config_env env) (dm_reload_path dm))"

lemma on_reload_fresh:
  "on_reload env dm =
     (let st = print_line (CHR 0x0A # ''reload (SIGHUP): rebuilding blocklist'') (dm_state dm) in
      case fresh_config env dm of
        Inl e \<Rightarrow> dm\<lparr>dm_state := st\<rparr>
      | Inr c \<Rightarrow>
     (case build_blocklist (se_read_list env (sv_world (dm_state dm))) c of
        Inl e \<Rightarrow> dm\<lparr>dm_state := st\<rparr>
      | Inr (fresh, n, k) \<Rightarrow>
          let dm = dm\<lparr>dm_blocklist := fresh, dm_state := print_line (loaded_line c n k) st\<rparr>; up = cfg_upstream c in
          if up_ech_enabled up \<and> up_ech_autobootstrap up \<and> up_protocol up \<noteq> Udp then
            (case bootstrap_endpoints (se_factory env) (up_ech_bootstrap_servers up) of
               Inl e \<Rightarrow> dm
             | Inr eps \<Rightarrow> dm\<lparr>dm_reloads := dm_reloads dm @ [(c, eps)]\<rparr>)
          else dm\<lparr>dm_state := live_swap env c False (dm_state dm)\<rparr>))"
  by (simp add: on_reload_def fresh_config_def Let_def split: sum.split prod.split)


text \<open>
  A re-bootstrap that brings nothing is reported as keeping the previous configuration, but the bytes of
  the reloaded file are swapped in: when it has none, ECH is off from then on.
\<close>

lemma failed_rebootstrap_drops_ech:
  assumes "bootstrap_ech_config (se_boot env) eps (up_servername (cfg_upstream c)) (up_timeout (cfg_upstream c)) (sv_world st) = (None, w1)"
    and "up_ech_config_list (cfg_upstream c) = []"
    and "rs_adapters (sv_resolver st) = [ad]" "ad_tls_context ad = Some (load, store)" "\<And>s w. load (store s w) = s"
  shows "ech_bytes (load (sv_world (finish_reload env (c, eps) st))) = None"
  using assms by (simp add: finish_reload_def fetched_list_def live_swap_def impl_swap_ech_def swap_ech_def Let_def)

text \<open>A reload without ECH in the fresh configuration still replaces the live ECH parameters.\<close>

lemma reload_swaps_without_ech:
  assumes "fresh_config env dm = Inr c" "build_blocklist (se_read_list env (sv_world (dm_state dm))) c = Inr (bl, n, k)" "\<not> up_ech_enabled (cfg_upstream c)"
  shows "sv_world (dm_state (on_reload env dm)) = swap_ech (sv_resolver (dm_state dm)) (up_ech_config_list (cfg_upstream c))
     (up_ech_outer_servername (cfg_upstream c)) 0 (sv_world (dm_state dm))"
  using assms by (simp add: on_reload_fresh live_swap_def impl_swap_ech_def Let_def)

text \<open>
  A bootstrap resolver that is not an address makes the reload fail after the rules were replaced, while
  the message says the previous ones are kept.
\<close>

lemma failed_reload_replaces_rules:
  assumes "fresh_config env dm = Inr c" "build_blocklist (se_read_list env (sv_world (dm_state dm))) c = Inr (bl, n, k)"
    and "up_ech_enabled (cfg_upstream c)" "up_ech_autobootstrap (cfg_upstream c)" "up_protocol (cfg_upstream c) \<noteq> Udp"
    and "bootstrap_endpoints (se_factory env) (up_ech_bootstrap_servers (cfg_upstream c)) = Inl e"
  shows "dm_blocklist (on_reload env dm) = bl \<and> dm_reloads (on_reload env dm) = dm_reloads dm"
  using assms by (simp add: on_reload_fresh Let_def)

text \<open>
  Started with a bare block file, the program does not read the configuration file it finds in one of the
  usual places, but a reload does, although the comment says that reload is disabled in this mode.
\<close>

lemma legacy_mode_reloads:
  assumes "length argv = 2" "path_extension (argv ! 1) \<noteq> ''.toml''" "find_config_path (se_path_exists env w) (argv ! 0) = Some p"
  shows "load_or_default env argv w = Inr (default_config\<lparr>cfg_blocklist := [argv ! 1]\<rparr>) \<and> detect_reload_path env argv w = p"
  using assms by (simp add: load_or_default_def detect_reload_path_def)

end
