(* ===== verification/LogAudit.thy ===== *)
theory LogAudit
  imports Handler "HOL-Library.Multiset"
begin

text \<open>
  The query log as an audit trail. Handlers, the cache's sweeper and the log's writer interleave freely;
  this theory follows the records through all of it: every record tells the truth about the query it is
  for and about the decision that was made, every query that parses is recorded exactly once (a cached
  answer that could not be sent is the one exception), and the log file holds the records in the order
  in which they were made.
\<close>

section \<open>Records and the queries they are for\<close>

abbreviation rec_ident :: "query_log \<Rightarrow> string \<times> string \<times> u16" where
  "rec_ident r \<equiv> (ql_client r, ql_qname r, ql_qtype r)"

definition query_ident :: "('f, 'w) handler_env \<Rightarrow> 'f \<times> bytes \<Rightarrow> (string \<times> string \<times> u16) option" where
  "query_ident env d = (case parse (snd d) of Inl _ \<Rightarrow> None | Inr msg \<Rightarrow> Some (he_show env (fst d), msg_qname msg, msg_qtype msg))"

definition may_pass :: "blocklist \<Rightarrow> dns_message \<Rightarrow> bool" where
  "may_pass bl msg \<longleftrightarrow> length (questions msg) = 1 \<and> is_forwardable_qtype (msg_qtype msg) \<and> \<not> blocked (blocklist_match bl (msg_qname msg))"

text \<open>
  A record is true of the datagram \<open>query\<close> from \<open>from\<close>, judged by the rules \<open>bl\<close>, when it names its client, name
  and type, and its action, rule and CNAME chain are what was decided: \<open>pin\<close> and \<open>d\<close> are the rules and
  the depth limit of the uncloaker.
\<close>

definition verdict_for :: "blocklist \<Rightarrow> int \<Rightarrow> dns_message \<Rightarrow> query_log \<Rightarrow> uncloak_result \<Rightarrow> bool" where
  "verdict_for pin d msg r res \<longleftrightarrow> is_address_qtype (msg_qtype msg) \<and> verdict_ok d pin (msg_qname msg) res \<and> ql_cname_chain r = un_chain res"

definition record_true :: "('f, 'w) handler_env \<Rightarrow> blocklist \<Rightarrow> int \<Rightarrow> 'f \<times> bytes \<times> blocklist \<Rightarrow> query_log \<Rightarrow> bool" where
  "record_true env pin d q r \<longleftrightarrow> (case q of (from, query, bl) \<Rightarrow>
     \<exists>msg. parse query = Inr msg \<and> rec_ident r = (he_show env from, msg_qname msg, msg_qtype msg) \<and>
       (case ql_action r of
          Refuse \<Rightarrow> length (questions msg) \<noteq> 1 \<or> \<not> is_forwardable_qtype (msg_qtype msg)
        | Block \<Rightarrow> blocked (blocklist_match bl (msg_qname msg)) \<and> ql_rule r = matched_rule (blocklist_match bl (msg_qname msg))
        | Cached \<Rightarrow> may_pass bl msg
        | ServFail \<Rightarrow> may_pass bl msg
        | Uncloak \<Rightarrow> may_pass bl msg \<and> (\<exists>res. verdict_for pin d msg r res \<and> un_status res = UnBlocked \<and> ql_rule r = matched_rule (un_hit res))
        | Suspicious \<Rightarrow> may_pass bl msg \<and>
            (\<exists>res. verdict_for pin d msg r res \<and> un_status res = UnClean \<and> crossed_etldp1 res \<and> ql_rule r = ''etldp1-cross:'' @ crossed_to res)
        | Allow \<Rightarrow> may_pass bl msg \<and> ql_rule r = [] \<and>
            (if is_address_qtype (msg_qtype msg)
             then \<exists>res. verdict_for pin d msg r res \<and> un_status res = UnClean \<and> \<not> crossed_etldp1 res
             else ql_cname_chain r = [])))"

definition sends_ok :: "('f, 'w) handler_env \<Rightarrow> bool" where
  "sends_ok env \<longleftrightarrow> (\<forall>b f w. \<not> isl (fst (he_send env b f w)))"

fun phase_pending :: "'f phase \<Rightarrow> bool" where
  "phase_pending (Replying _ _) = False"
| "phase_pending _ = True"

section \<open>What one step logs\<close>

definition logs :: "('f, 'w) handler_env \<Rightarrow> ('f, 'w) server_state \<Rightarrow> query_log list \<Rightarrow> ('f, 'w) server_state \<Rightarrow> bool" where
  "logs env st rs st' \<longleftrightarrow> sv_logged st' = sv_logged st @ rs \<and>
     (sv_logger st', sv_fs st') = foldl (log_event (he_log env)) (sv_logger st, sv_fs st) (map Some rs)"

lemma logs_nothing: "sv_logged st' = sv_logged st \<Longrightarrow> sv_logger st' = sv_logger st \<Longrightarrow> sv_fs st' = sv_fs st \<Longrightarrow> logs env st [] st'"
  by (simp add: logs_def)

lemma logs_from:
  "logs env st1 rs st' \<Longrightarrow> sv_logged st1 = sv_logged st \<Longrightarrow> sv_logger st1 = sv_logger st \<Longrightarrow> sv_fs st1 = sv_fs st \<Longrightarrow> logs env st rs st'"
  by (simp add: logs_def)

lemma log_record_logs:
  "\<exists>r. logs env st [r] (log_record env rq a qn qt rule ch u e st) \<and> ql_action r = a \<and> rec_ident r = (he_show env (rq_from rq), qn, qt) \<and>
     ql_rule r = rule \<and> ql_cname_chain r = ch"
  by (simp add: log_record_def logs_def log_event_def Let_def split: prod.split)

abbreviation request_key :: "'f request \<Rightarrow> 'f \<times> bytes \<times> blocklist" where
  "request_key rq \<equiv> (rq_from rq, rq_query rq, rq_blocklist rq)"

text \<open>
  A piece of a handler whose query is not recorded yet either leaves it so and goes on, or records the
  truth and has nothing left but to send.
\<close>

definition true_for :: "('f, 'w) handler_env \<Rightarrow> ('f, 'w) server_state \<Rightarrow> 'f request \<Rightarrow> query_log \<Rightarrow> bool" where
  "true_for env st rq r \<longleftrightarrow> record_true env (sv_uncloak_blocklist st) (sv_max_depth st) (request_key rq) r"

definition recorded :: "('f, 'w) handler_env \<Rightarrow> ('f, 'w) server_state \<Rightarrow> 'f request \<Rightarrow> 'f phase \<Rightarrow> ('f, 'w) server_state \<Rightarrow> bool" where
  "recorded env st rq p st' \<longleftrightarrow>
     (if phase_pending p then logs env st [] st' else \<exists>r. logs env st [r] st' \<and> true_for env st rq r)"

lemma recorded_from:
  assumes "recorded env st1 rq p st'" "pinned st1 = pinned st" "sv_logged st1 = sv_logged st" "sv_logger st1 = sv_logger st" "sv_fs st1 = sv_fs st"
  shows "recorded env st rq p st'"
  using assms(1) logs_from [OF _ assms(3-5)] pinned_eq(1,2) [OF assms(2)] by (auto simp: recorded_def true_for_def split: if_splits)

lemma recordedI:
  assumes "sv_logged st1 = sv_logged st" "sv_logger st1 = sv_logger st" "sv_fs st1 = sv_fs st"
    and "\<And>r. ql_action r = a \<Longrightarrow> rec_ident r = (he_show env (rq_from rq), qn, qt) \<Longrightarrow> ql_rule r = rule \<Longrightarrow> ql_cname_chain r = ch \<Longrightarrow>
      true_for env st rq r"
  shows "recorded env st rq (Replying rq b) (log_record env rq a qn qt rule ch u e (print_line l st1))"
proof -
  from log_record_logs [of env "print_line l st1" rq a qn qt rule ch u e] obtain r where
      r: "logs env (print_line l st1) [r] (log_record env rq a qn qt rule ch u e (print_line l st1))" "ql_action r = a"
        "rec_ident r = (he_show env (rq_from rq), qn, qt)" "ql_rule r = rule" "ql_cname_chain r = ch" by blast
  have "logs env st [r] (log_record env rq a qn qt rule ch u e (print_line l st1))" by (rule logs_from [OF r(1)]) (simp_all add: assms)
  with assms(4) [OF r(2-5)] show ?thesis by (auto simp: recorded_def)
qed

lemma forward_failed_recorded:
  assumes "admitted rq msg"
  shows "recorded env st rq (fst (forward_failed env rq msg e st)) (snd (forward_failed env rq msg e st))"
  unfolding forward_failed_def fst_conv snd_conv
  by (rule recordedI) (use assms in \<open>auto simp: true_for_def record_true_def admitted_def may_pass_def\<close>)

lemma begin_forward_recorded:
  assumes "admitted rq msg" "begin_forward env rq msg st = (p, st')"
  shows "recorded env st rq p st'"
proof -
  obtain x w where x: "forward_begin (he_draw_id env) (rq_query rq) (sv_resolver st) (sv_world st) = (x, w)" by fastforce
  show ?thesis
  proof (cases x)
    case (Inl e)
    then have "forward_failed env rq msg e (st\<lparr>sv_world := w\<rparr>) = (p, st')" using assms(2) x by (simp add: begin_forward_def)
    with forward_failed_recorded [OF assms(1), of env "st\<lparr>sv_world := w\<rparr>" e] have "recorded env (st\<lparr>sv_world := w\<rparr>) rq p st'" by simp
    then show ?thesis by (rule recorded_from) simp_all
  next
    case (Inr fr)
    then show ?thesis using assms(2) x by (auto simp: begin_forward_def recorded_def intro: logs_nothing)
  qed
qed

lemma front_recorded:
  assumes "handle_front env rq st = (p, st')"
  shows "case parse (rq_query rq) of Inl _ \<Rightarrow> logs env st [] st' | Inr _ \<Rightarrow> \<forall>p'. p = Some p' \<longrightarrow> recorded env st rq p' st'"
  using assms
proof (cases rule: handle_front_cases)
  case (Malformed e)
  then show ?thesis by (auto intro!: logs_nothing)
next
  case (Refused msg l)
  have "recorded env st rq (Replying rq b) st'" for b
    unfolding Refused(4) by (rule recordedI) (use Refused in \<open>auto simp: true_for_def record_true_def\<close>)
  then show ?thesis using Refused by simp
next
  case (Blocked msg l)
  have "recorded env st rq (Replying rq b) st'" for b
    unfolding Blocked(6) by (rule recordedI) (use Blocked in \<open>auto simp: true_for_def record_true_def\<close>)
  then show ?thesis using Blocked by simp
next
  case (CacheHit msg key now w b c)
  then show ?thesis by (auto simp: recorded_def admitted_def intro!: logs_nothing)
next
  case (CacheMiss msg key now w c p')
  have "pinned (st\<lparr>sv_cache := c, sv_world := w\<rparr>) = pinned st" using cache_lookup_cfg [OF CacheMiss(5)] by (simp add: pinned_cache)
  then have "recorded env st rq p' st'" by (rule recorded_from [OF begin_forward_recorded [OF CacheMiss(1,7)]]) simp_all
  then show ?thesis using CacheMiss by (auto simp: admitted_def)
qed

lemma finish_uncloak_recorded:
  assumes "admitted rq msg" "is_address_qtype (msg_qtype msg)" "verdict_ok (sv_max_depth st) (sv_uncloak_blocklist st) (msg_qname msg) result"
    and "finish_uncloak env rq msg fwd result st = Some (p, st')"
  shows "recorded env st rq p st'"
proof -
  have pass: "parse (rq_query rq) = Inr msg" "may_pass (rq_blocklist rq) msg" using assms(1) by (auto simp: admitted_def may_pass_def)
  note true = true_for_def record_true_def verdict_for_def
  show ?thesis
  proof (cases "un_status result")
    case UnBlocked
    have "recorded env st rq (Replying rq b) (log_record env rq Uncloak (msg_qname msg) (msg_qtype msg) (matched_rule (un_hit result)) (un_chain result)
        u e (print_line l st))" for b u e l
      by (rule recordedI) (use UnBlocked pass assms(2,3) in \<open>auto simp: true intro!: exI [of _ result]\<close>)
    then show ?thesis using assms(4) UnBlocked by (auto simp: finish_uncloak_def Let_def)
  next
    case UnAborted
    have "recorded env st rq (Replying rq b) (log_record env rq ServFail (msg_qname msg) (msg_qtype msg) (abort_reason result) [] u e (print_line l st))"
      for b u e l by (rule recordedI) (use pass in \<open>auto simp: true\<close>)
    then show ?thesis using assms(4) UnAborted by (auto simp: finish_uncloak_def Let_def)
  next
    case UnClean
    then obtain st1 where s: "try_cache_insert env msg (fwd_response fwd) st = Some st1"
      using assms(4) by (cases "try_cache_insert env msg (fwd_response fwd) st") (simp_all add: finish_uncloak_def Let_def)
    note fr = try_cache_insert_frame(3,5,6) [OF s]
    have "recorded env st rq (Replying rq b) (log_record env rq Suspicious (msg_qname msg) (msg_qtype msg) (''etldp1-cross:'' @ crossed_to result)
        (un_chain result) u e (print_line l st1))" if "crossed_etldp1 result" for b u e l
      by (rule recordedI [OF fr]) (use that UnClean pass assms(2,3) in \<open>auto simp: true intro!: exI [of _ result]\<close>)
    moreover have "recorded env st rq (Replying rq b) (log_record env rq Allow (msg_qname msg) (msg_qtype msg) [] (un_chain result) u e (print_line l st1))"
      if "\<not> crossed_etldp1 result" for b u e l
      by (rule recordedI [OF fr]) (use that UnClean pass assms(2,3) in \<open>auto simp: true intro!: exI [of _ result]\<close>)
    ultimately show ?thesis using assms(4) UnClean s by (cases "crossed_etldp1 result") (auto simp: finish_uncloak_def Let_def)
  qed
qed

lemma after_uncloak_recorded:
  assumes "admitted rq msg" "is_address_qtype (msg_qtype msg)" "uncloak_progress_ok st msg x" "after_uncloak env rq msg fwd x st = Some (p, st')"
  shows "recorded env st rq p st'"
proof (cases x)
  case (Inl result)
  then show ?thesis using finish_uncloak_recorded [OF assms(1,2)] assms(3,4) by (auto simp: after_uncloak_def uncloak_progress_ok_def)
next
  case (Inr y)
  then show ?thesis using assms(4) by (cases y) (auto simp: after_uncloak_def recorded_def intro: logs_nothing)
qed

lemma after_forward_recorded:
  assumes "admitted rq msg" "after_forward env rq msg fwd st = Some (p, st')"
  shows "recorded env st rq p st'"
proof (cases "is_address_qtype (msg_qtype msg)")
  case True
  obtain x w where x: "uncloak_begin (he_draw_id env) (sv_uncloak_blocklist st) (sv_max_depth st) (msg_qname msg) (fwd_response fwd) (sv_resolver st)
      (sv_world st) = (x, w)" by fastforce
  let ?st = "st\<lparr>sv_world := w\<rparr>"
  have "uncloak_progress_ok ?st msg x" using begin_progress(1) [OF x] by (simp add: uncloak_progress_ok_def waits_for_pinned [of ?st st] cong: sum.case_cong)
  moreover have "after_uncloak env rq msg fwd x ?st = Some (p, st')" using assms(2) True x by (simp add: after_forward_def)
  ultimately have "recorded env ?st rq p st'" by (rule after_uncloak_recorded [OF assms(1) True])
  then show ?thesis by (rule recorded_from) simp_all
next
  case False
  then obtain st1 where s: "try_cache_insert env msg (fwd_response fwd) st = Some st1"
    using assms(2) by (cases "try_cache_insert env msg (fwd_response fwd) st") (simp_all add: after_forward_def)
  have "recorded env st rq (Replying rq b) (log_record env rq Allow (msg_qname msg) (msg_qtype msg) [] [] u e (print_line l st1))" for b u e l
    by (rule recordedI [OF try_cache_insert_frame(3,5,6) [OF s]])
      (use False assms(1) in \<open>auto simp: true_for_def record_true_def admitted_def may_pass_def\<close>)
  then show ?thesis using assms(2) False s by (auto simp: after_forward_def)
qed

lemma resume_waiting_recorded:
  assumes "server_ok st" "phase_ok st p" "resume env p st = Some (Some p', st')"
  shows "recorded env st (phase_request p) p' st'"
proof (cases p)
  case (Replying rq b)
  then show ?thesis using assms(3) by (auto split: prod.splits sum.splits)
next
  case (ReplyingCached rq b qname qtype)
  then show ?thesis using assms(3) by (auto simp: Let_def split: prod.splits sum.splits)
next
  case (Forwarding rq msg fr)
  have adm: "admitted rq msg" using assms(2) Forwarding by simp
  obtain x rs w where x: "forward_exchange fr (sv_resolver st) (sv_world st) = (x, rs, w)" by (metis prod.exhaust)
  let ?st = "st\<lparr>sv_resolver := rs, sv_world := w\<rparr>"
  have "recorded env ?st rq p' st'"
  proof -
    consider e where "x = Inl e" | fwd where "x = Inr (Inl fwd)" | fr' where "x = Inr (Inr fr')" by (metis old.sum.exhaust)
    then show ?thesis
    proof cases
      case 1
      then show ?thesis using assms(3) x Forwarding forward_failed_recorded [OF adm, of env ?st e] by auto
    next
      case 2
      then show ?thesis using assms(3) x Forwarding after_forward_recorded [OF adm, of env fwd ?st] by auto
    next
      case 3
      then show ?thesis using assms(3) x Forwarding by (auto simp: recorded_def intro: logs_nothing)
    qed
  qed
  then have "recorded env st rq p' st'" by (rule recorded_from) (use pinned_exchange [OF x] in simp_all)
  then show ?thesis by (simp add: Forwarding)
next
  case (Uncloaking rq msg fwd uf fr)
  obtain x rs w where x: "uncloak_exchange (he_draw_id env) (sv_uncloak_blocklist st) (sv_max_depth st) uf fr (sv_resolver st) (sv_world st) = (x, rs, w)"
    by (metis prod.exhaust)
  let ?st = "st\<lparr>sv_resolver := rs, sv_world := w\<rparr>"
  obtain req where q: "build_a_query (last (un_chain (uf_result uf))) 0 = Inr req" "waits_for st req fr" using assms(2) Uncloaking by auto
  have "uncloak_progress_ok ?st msg x" using exchange_progress [OF x _ q] assms(2) Uncloaking by simp
  moreover have "after_uncloak env rq msg fwd x ?st = Some (p', st')" using assms(3) x Uncloaking by auto
  moreover have "admitted rq msg" "is_address_qtype (msg_qtype msg)" using assms(2) Uncloaking by simp_all
  ultimately have "recorded env ?st rq p' st'" using after_uncloak_recorded by blast
  then have "recorded env st rq p' st'" by (rule recorded_from) (use pinned_uncloak_exchange [OF x] in simp_all)
  then show ?thesis by (simp add: Uncloaking)
qed

lemma resume_last_recorded:
  assumes "phase_ok st p" "resume env p st = Some (None, st')"
  shows "if phase_pending p then (\<exists>r. logs env st [r] st' \<and> true_for env st (phase_request p) r) \<or> logs env st [] st' \<and> \<not> sends_ok env
    else logs env st [] st'"
proof (cases p)
  case (Replying rq b)
  obtain r st1 where s: "send_to env b (rq_from rq) st = (r, st1)" by fastforce
  then have "sv_logged st' = sv_logged st1" "sv_logger st' = sv_logger st1" "sv_fs st' = sv_fs st1"
    using assms(2) Replying by (auto simp: handler_error_def split: sum.splits)
  then show ?thesis using send_to_frame [OF s] Replying by (simp add: logs_nothing)
next
  case (ReplyingCached rq b qname qtype)
  let ?w = "he_sleep env (apply_jitter (he_dist env (sv_world st)) (jitter_max (cache_cfg (sv_cache st)))) (sv_world st)"
  obtain r st1 where s: "send_to env b (rq_from rq) (st\<lparr>sv_world := ?w\<rparr>) = (r, st1)" by fastforce
  note fr = send_to_frame [OF s, simplified]
  obtain msg where msg: "admitted rq msg" "qname = msg_qname msg" "qtype = msg_qtype msg" using assms(1) ReplyingCached by auto
  show ?thesis
  proof (cases r)
    case (Inl e)
    then have "\<not> sends_ok env" using s unfolding sends_ok_def send_to_def
      by (auto simp: Let_def split: prod.splits intro!: exI [of _ b] exI [of _ "rq_from rq"] exI [of _ ?w])
    moreover have "logs env st [] st'" using assms(2) ReplyingCached s Inl fr by (auto simp: handler_error_def intro!: logs_nothing)
    ultimately show ?thesis using ReplyingCached by simp
  next
    case (Inr u)
    then have st': "st' = log_record env rq Cached qname qtype [] [] None None (print_line (''cached  '' @ qname) st1)" using assms(2) ReplyingCached s by simp
    have "recorded env st rq (Replying rq b) st'"
      unfolding st' by (rule recordedI) (use fr msg in \<open>auto simp: true_for_def record_true_def admitted_def may_pass_def\<close>)
    then show ?thesis using ReplyingCached by (simp add: recorded_def)
  qed
next
  case (Forwarding rq msg fr)
  then show ?thesis using assms(2) by (auto split: prod.splits sum.splits)
next
  case (Uncloaking rq msg fwd uf fr)
  then show ?thesis using assms(2) by (auto split: prod.splits)
qed

section \<open>The trail over a run\<close>

text \<open>The datagrams of a run with the rules they were judged by.\<close>

fun received_full :: "'f event list \<Rightarrow> ('f \<times> bytes \<times> blocklist) list" where
  "received_full [] = []"
| "received_full (Receive buf from bl # evs) = (from, take kReceiveBuffer buf, bl) # received_full evs"
| "received_full (_ # evs) = received_full evs"

abbreviation datagram_of :: "'f \<times> bytes \<times> blocklist \<Rightarrow> 'f \<times> bytes" where
  "datagram_of q \<equiv> (fst q, fst (snd q))"

lemma received_full_datagrams: "map datagram_of (received_full evs) = received evs"
  by (induction evs rule: received_full.induct) auto

lemma received_full_append [simp]: "received_full (evs @ evs') = received_full evs @ received_full evs'"
  by (induction evs rule: received_full.induct) auto

definition idents :: "('f, 'w) handler_env \<Rightarrow> ('f \<times> bytes) list \<Rightarrow> (string \<times> string \<times> u16) multiset" where
  "idents env ds = mset (List.map_filter (query_ident env) ds)"

lemma idents_snoc: "idents env (ds @ [d]) = (case query_ident env d of None \<Rightarrow> idents env ds | Some x \<Rightarrow> add_mset x (idents env ds))"
  by (cases "query_ident env d") (auto simp: idents_def map_filter_def)

definition phase_ident :: "('f, 'w) handler_env \<Rightarrow> 'f phase \<Rightarrow> string \<times> string \<times> u16" where
  "phase_ident env p = the (query_ident env (rq_from (phase_request p), rq_query (phase_request p)))"

definition ledger :: "('f, 'w) handler_env \<Rightarrow> ('f, 'w) server_state \<Rightarrow> 'f phase list \<Rightarrow> (string \<times> string \<times> u16) multiset" where
  "ledger env st ps = mset (map (\<lambda>r. rec_ident r) (sv_logged st)) + mset (map (phase_ident env) (filter phase_pending ps))"

definition trail :: "('f, 'w) handler_env \<Rightarrow> query_logger \<times> log_fs \<Rightarrow> ('f, 'w) server_state \<Rightarrow> bool" where
  "trail env s0 st \<longleftrightarrow> (\<exists>evs. (sv_logger st, sv_fs st) = foldl (log_event (he_log env)) s0 evs \<and> List.map_filter id evs = sv_logged st)"

definition truths :: "('f, 'w) handler_env \<Rightarrow> ('f \<times> bytes \<times> blocklist) list \<Rightarrow> ('f, 'w) server_state \<Rightarrow> bool" where
  "truths env got st \<longleftrightarrow> (\<forall>r \<in> set (sv_logged st). \<exists>q \<in> set got. record_true env (sv_uncloak_blocklist st) (sv_max_depth st) q r)"

definition balanced :: "('f, 'w) handler_env \<Rightarrow> ('f \<times> bytes \<times> blocklist) list \<Rightarrow> ('f, 'w) server_state \<Rightarrow> 'f phase list \<Rightarrow> bool" where
  "balanced env got st ps \<longleftrightarrow> (\<exists>lost. ledger env st ps + lost = idents env (map datagram_of got) \<and> (sends_ok env \<longrightarrow> lost = {#}))"

definition audit_ok :: "('f, 'w) handler_env \<Rightarrow> query_logger \<times> log_fs \<Rightarrow> ('f \<times> bytes \<times> blocklist) list \<Rightarrow> ('f, 'w) server_state \<times> 'f phase list \<Rightarrow> bool" where
  "audit_ok env s0 got m \<longleftrightarrow> trail env s0 (fst m) \<and> truths env got (fst m) \<and> balanced env got (fst m) (snd m) \<and>
     (\<forall>p \<in> set (snd m). request_key (phase_request p) \<in> set got)"

lemma trail_logs:
  assumes "trail env s0 st" "logs env st rs st'"
  shows "trail env s0 st'"
proof -
  obtain evs where "(sv_logger st, sv_fs st) = foldl (log_event (he_log env)) s0 evs" "List.map_filter id evs = sv_logged st"
    using assms(1) by (auto simp: trail_def)
  then show ?thesis using assms(2) unfolding trail_def logs_def
    by (intro exI [of _ "evs @ map Some rs"]) (simp add: map_filter_def comp_def)
qed

lemma truths_logs:
  assumes "truths env got st" "pinned st' = pinned st" "sv_logged st' = sv_logged st @ rs" "set got \<subseteq> set got'"
    and "\<And>r. r \<in> set rs \<Longrightarrow> \<exists>q \<in> set got'. record_true env (sv_uncloak_blocklist st) (sv_max_depth st) q r"
  shows "truths env got' st'"
  using assms(1,3-5) pinned_eq(1,2) [OF assms(2)] by (fastforce simp: truths_def)

lemma true_for_ident:
  assumes "true_for env st rq r"
  shows "query_ident env (rq_from rq, rq_query rq) = Some (rec_ident r)"
  using assms by (auto simp: true_for_def record_true_def query_ident_def)

text \<open>What one piece of a handler adds to the ledger, whether it recorded the query or still has to.\<close>

lemma recorded_ledger:
  assumes "recorded env st rq p st'" "phase_request p = rq" "query_ident env (rq_from rq, rq_query rq) = Some x"
  shows "ledger env st' (qs @ p # qs') = add_mset x (ledger env st (qs @ qs'))"
proof (cases "phase_pending p")
  case True
  then show ?thesis using assms by (simp add: recorded_def logs_def ledger_def phase_ident_def)
next
  case False
  then obtain r where r: "sv_logged st' = sv_logged st @ [r]" "true_for env st rq r" using assms(1) by (auto simp: recorded_def logs_def)
  then show ?thesis using False true_for_ident [OF r(2)] assms(3) by (simp add: ledger_def)
qed

lemma recorded_audit:
  assumes "recorded env st rq p st'"
  shows "\<exists>rs. logs env st rs st' \<and> (\<forall>r \<in> set rs. true_for env st rq r)"
  using assms by (cases "phase_pending p") (auto simp: recorded_def intro: exI [of _ "[]"])

lemma ledger_same: "sv_logged st' = sv_logged st \<Longrightarrow> ledger env st' ps = ledger env st ps"
  by (simp add: ledger_def)

lemma ledger_split:
  assumes "i < length ps"
  shows "ledger env st ps = (if phase_pending (ps ! i) then {#phase_ident env (ps ! i)#} else {#}) + ledger env st (take i ps @ drop (Suc i) ps)"
proof -
  have "ledger env st ps = ledger env st (take i ps @ ps ! i # drop (Suc i) ps)" using id_take_nth_drop [OF assms] by simp
  then show ?thesis by (simp add: ledger_def)
qed

lemma pending_ident:
  assumes "phase_ok st p" "phase_pending p"
  shows "query_ident env (rq_from (phase_request p), rq_query (phase_request p)) = Some (phase_ident env p)"
  using assms by (cases p) (auto simp: phase_ident_def query_ident_def admitted_def)

lemma resume_Some_pending: "resume env p st = Some (Some p', st') \<Longrightarrow> phase_pending p"
  by (cases p) (auto split: prod.splits sum.splits)

lemma audit_receive:
  assumes "machine_ok got0 (st, ps)" "audit_ok env s0 got (st, ps)" "receive env buf from bl st = (p, st')"
  shows "audit_ok env s0 (got @ [(from, take kReceiveBuffer buf, bl)]) (st', ps @ option_list p)"
proof -
  let ?q = "(from, take kReceiveBuffer buf, bl)"
  obtain rq st1 where rq: "start_request env (take kReceiveBuffer buf) from bl st = (rq, st1)" by fastforce
  then have front: "handle_front env rq st1 = (p, st')" using assms(3) by (simp add: receive_def)
  note s = start_request_frame [OF rq] and ok1 = start_request_ok [OF rq machine_okD(1) [OF assms(1)]]
  have log1: "sv_logged st1 = sv_logged st" "sv_logger st1 = sv_logger st" "sv_fs st1 = sv_fs st" by (subst s(4), simp)+
  have pin: "pinned st' = pinned st" using front_pinned [OF front] ok1(2) by simp
  have a: "trail env s0 st" "truths env got st" "balanced env got st ps" "\<forall>p \<in> set ps. request_key (phase_request p) \<in> set got"
    using assms(2) by (auto simp: audit_ok_def)
  note f = front_recorded [OF front] and g = front_ok [OF ok1(1) front]
  show ?thesis
  proof (cases "parse (take kReceiveBuffer buf)")
    case (Inl e)
    then have l: "logs env st [] st'" "p = None" using f g s(1) logs_from [OF _ log1] by auto
    then have lg: "sv_logged st' = sv_logged st" by (simp add: logs_def)
    have "query_ident env (datagram_of ?q) = None" using Inl by (simp add: query_ident_def)
    then have "balanced env (got @ [?q]) st' ps"
      using a(3) ledger_same [OF lg] by (simp add: balanced_def idents_snoc)
    moreover have "truths env (got @ [?q]) st'" by (rule truths_logs [OF a(2) pin, of "[]"]) (use lg in auto)
    ultimately show ?thesis using trail_logs [OF a(1) l(1)] l(2) a(4) by (auto simp: audit_ok_def)
  next
    case (Inr msg)
    then obtain p' where p: "p = Some p'" "recorded env st1 rq p' st'" "phase_request p' = rq"
      using f g s(1) by (auto simp: waits_again_def)
    have rec: "recorded env st rq p' st'" by (rule recorded_from [OF p(2) ok1(2) log1])
    obtain rs where rs: "logs env st rs st'" "\<forall>r \<in> set rs. true_for env st rq r" using recorded_audit [OF rec] by blast
    define x where "x = (he_show env from, msg_qname msg, msg_qtype msg)"
    have qi: "query_ident env (rq_from rq, rq_query rq) = Some x" "query_ident env (datagram_of ?q) = Some x"
      using Inr s by (simp_all add: query_ident_def x_def)
    have "ledger env st' (ps @ [p']) = add_mset x (ledger env st ps)" using recorded_ledger [OF rec p(3) qi(1), of ps "[]"] by simp
    then have "balanced env (got @ [?q]) st' (ps @ [p'])"
      using a(3) qi(2) by (auto simp: balanced_def idents_snoc)
    moreover have "truths env (got @ [?q]) st'"
      by (rule truths_logs [OF a(2) pin, of rs]) (use rs s in \<open>auto simp: logs_def true_for_def\<close>)
    ultimately show ?thesis using trail_logs [OF a(1) rs(1)] p(1,3) a(4) s by (auto simp: audit_ok_def)
  qed
qed

lemma audit_same:
  assumes "audit_ok env s0 got (st, ps)" "pinned st' = pinned st" "sv_logged st' = sv_logged st" "trail env s0 st'"
  shows "audit_ok env s0 got (st', ps)"
proof -
  have a: "truths env got st" "balanced env got st ps" "\<forall>p \<in> set ps. request_key (phase_request p) \<in> set got"
    using assms(1) by (auto simp: audit_ok_def)
  have "truths env got st'" by (rule truths_logs [OF a(1) assms(2), of "[]"]) (use assms(3) in auto)
  then show ?thesis using a assms(4) ledger_same [OF assms(3)] by (simp add: audit_ok_def balanced_def)
qed

lemma audit_replace:
  assumes "machine_ok got0 (st, ps)" "audit_ok env s0 got (st, ps)" "i < length ps" "resume env (ps ! i) st = Some (p, st')"
  shows "audit_ok env s0 got (st', take i ps @ option_list p @ drop (Suc i) ps)"
proof -
  let ?p = "ps ! i" and ?rest = "take i ps @ drop (Suc i) ps"
  have ok: "server_ok st" "phase_ok st ?p" using machine_okD(1,2) [OF assms(1)] assms(3) by auto
  have a: "trail env s0 st" "truths env got st" "balanced env got st ps" "\<forall>p \<in> set ps. request_key (phase_request p) \<in> set got"
    using assms(2) by (auto simp: audit_ok_def)
  have key: "request_key (phase_request ?p) \<in> set got" using a(4) assms(3) by simp
  have others: "request_key (phase_request q) \<in> set got" if "q \<in> set (take i ps) \<or> q \<in> set (drop (Suc i) ps)" for q
    using that a(4) by (auto dest: in_set_takeD in_set_dropD)
  note pin = resume_pinned [OF assms(4)] and split = ledger_split [OF assms(3), of env st]
  have truths: "truths env got st'" if "logs env st rs st'" "\<forall>r \<in> set rs. true_for env st (phase_request ?p) r" for rs
    by (rule truths_logs [OF a(2) pin, of rs]) (use that key in \<open>auto simp: logs_def true_for_def\<close>)
  show ?thesis
  proof (cases p)
    case (Some p')
    then have step: "resume env ?p st = Some (Some p', st')" using assms(4) by simp
    have pend: "phase_pending ?p" by (rule resume_Some_pending [OF step])
    have same: "phase_request p' = phase_request ?p" using resume_ok [OF ok, of env] step by (auto simp: carried_on_def waits_again_def)
    note rec = resume_waiting_recorded [OF ok step]
    obtain rs where rs: "logs env st rs st'" "\<forall>r \<in> set rs. true_for env st (phase_request ?p) r" using recorded_audit [OF rec] by blast
    have "ledger env st' (take i ps @ p' # drop (Suc i) ps) = ledger env st ps"
      using recorded_ledger [OF rec same pending_ident [OF ok(2) pend]] split pend by simp
    then have "balanced env got st' (take i ps @ p' # drop (Suc i) ps)" using a(3) by (simp add: balanced_def)
    then show ?thesis using Some truths [OF rs] trail_logs [OF a(1) rs(1)] others key same by (auto simp: audit_ok_def)
  next
    case None
    note last = resume_last_recorded [OF ok(2), of env st'] and step = assms(4) [unfolded None]
    have "\<exists>rs lost. logs env st rs st' \<and> (\<forall>r \<in> set rs. true_for env st (phase_request ?p) r) \<and>
        ledger env st' ?rest + lost = ledger env st ps \<and> (sends_ok env \<longrightarrow> lost = {#})"
    proof (cases "phase_pending ?p")
      case False
      then have l: "logs env st [] st'" using last step by simp
      then show ?thesis using False split ledger_same [of st' st] by (intro exI [of _ "[]"] exI [of _ "{#}"]) (auto simp: logs_def)
    next
      case True
      then consider r where "logs env st [r] st'" "true_for env st (phase_request ?p) r" | "logs env st [] st'" "\<not> sends_ok env"
        using last step by auto
      then show ?thesis
      proof cases
        case 1
        have "phase_ident env ?p = rec_ident r" using true_for_ident [OF 1(2)] pending_ident [OF ok(2) True, of env] by simp
        then have "ledger env st' ?rest = ledger env st ps" using 1(1) split True by (simp add: logs_def ledger_def)
        then show ?thesis using 1 by (intro exI [of _ "[r]"] exI [of _ "{#}"]) auto
      next
        case 2
        then show ?thesis using split True ledger_same [of st' st]
          by (intro exI [of _ "[]"] exI [of _ "{#phase_ident env ?p#}"]) (auto simp: logs_def)
      qed
    qed
    then obtain rs lost where rs: "logs env st rs st'" "\<forall>r \<in> set rs. true_for env st (phase_request ?p) r"
      and bal: "ledger env st' ?rest + lost = ledger env st ps" "sends_ok env \<longrightarrow> lost = {#}" by blast
    obtain lost0 where "ledger env st ps + lost0 = idents env (map datagram_of got)" "sends_ok env \<longrightarrow> lost0 = {#}" using a(3) by (auto simp: balanced_def)
    then have "balanced env got st' ?rest" using bal unfolding balanced_def by (intro exI [of _ "lost + lost0"]) (auto simp: ac_simps)
    then show ?thesis using None truths [OF rs] trail_logs [OF a(1) rs(1)] others by (auto simp: audit_ok_def)
  qed
qed

lemma audit_step:
  assumes "handler_step env m ev m'" "machine_ok got0 m" "audit_ok env s0 got m"
  shows "audit_ok env s0 (got @ received_full [ev]) m'"
  using assms(1)
proof (cases rule: handler_step.cases)
  case (step_receive buf f bl st p st' ps)
  then show ?thesis using audit_receive [of got0 st ps env s0 got] assms(2,3) by simp
next
  case (step_resume i ps st p st')
  then show ?thesis using audit_replace [of got0 st ps env s0 got] assms(2,3) by simp
next
  case (step_cache_sweep now st n c ps)
  have "cache_cfg c = cache_cfg (sv_cache st)" using sweep_expired_cfg [of now "sv_cache st"] step_cache_sweep(4) by simp
  then show ?thesis using step_cache_sweep assms(3) audit_same [of env s0 got st ps "st\<lparr>sv_cache := c\<rparr>"]
    by (auto simp: pinned_cache audit_ok_def trail_def)
next
  case (step_write_log st lg fs ps)
  let ?st = "st\<lparr>sv_logger := lg, sv_fs := fs\<rparr>"
  obtain evs where "(sv_logger st, sv_fs st) = foldl (log_event (he_log env)) s0 evs" "List.map_filter id evs = sv_logged st"
    using assms(3) step_write_log(1) by (auto simp: audit_ok_def trail_def)
  then have "trail env s0 ?st" unfolding trail_def
    by (intro exI [of _ "evs @ [None]"]) (use step_write_log(4) in \<open>simp add: log_event_def map_filter_def flip: \<open>(sv_logger st, sv_fs st) = _\<close>\<close>)
  then show ?thesis using step_write_log assms(3) audit_same [of env s0 got st ps ?st] by (simp add: pinned_def)
next
  case (step_outside st ps w lines)
  then show ?thesis using assms(3) audit_same [of env s0 got st ps "st\<lparr>sv_console := sv_console st @ lines, sv_world := w\<rparr>"]
    by (simp add: audit_ok_def trail_def pinned_def)
qed

lemma audit_run:
  assumes "run_steps (handler_step env) (st0, []) evs m" "server_ok st0" "sv_sent st0 = []" "sv_logged st0 = []"
  shows "audit_ok env (sv_logger st0, sv_fs st0) (received_full evs) m"
  using assms
proof (induction rule: run_steps.induct)
  case run_Nil
  then show ?case by (auto simp: audit_ok_def trail_def truths_def balanced_def ledger_def idents_def map_filter_def intro!: exI [of _ "[]"])
next
  case (run_snoc evs m ev m')
  have "machine_ok [] (st0, [])" using run_snoc.prems by (simp add: machine_ok_def)
  from run_ok [OF run_snoc.hyps(1) this] have "machine_ok (received evs) m" .
  from audit_step [OF run_snoc.hyps(2) this run_snoc.IH] run_snoc.prems show ?case by simp
qed

section \<open>Properties\<close>


abbreviation ad_rules :: blocklist where
  "ad_rules \<equiv> empty_blocklist\<lparr>bl_exact := {''ad.x''}\<rparr>"

lemma ad_blocked: "blocked (blocklist_match ad_rules ''ad.x'')"
  by (simp add: eval_simps find_suffix_from.simps)

lemma sample_blocked_run:
  "\<exists>p st r. run_steps (handler_step sample_handler_env) (sample_state, []) [Receive sample_query () ad_rules] (st, [p]) \<and> sv_logged st = [r] \<and> ql_action r = Block"
proof -
  obtain rq st1 where rq: "start_request sample_handler_env sample_query () ad_rules sample_state = (rq, st1)" by fastforce
  note s = start_request_frame [OF rq]
  obtain msg where msg: "parse sample_query = Inr msg" "questions msg = [\<lparr>q_name = ''ad.x'', q_type = 1, q_class = 1\<rparr>]" using parse_sample_query by simp
  have q: "msg_qname msg = ''ad.x''" "msg_qtype msg = 1" using msg(2) by (simp_all add: msg_qname_def msg_qtype_def)
  obtain p l rule where front: "handle_front sample_handler_env rq st1 = (Some p,
      log_record sample_handler_env rq Block (msg_qname msg) (msg_qtype msg) rule [] None None (print_line l st1))"
    using msg q s(1,3) ad_blocked by (auto simp: handle_front_def is_forwardable_qtype_def Let_def)
  let ?st = "log_record sample_handler_env rq Block (msg_qname msg) (msg_qtype msg) rule [] None None (print_line l st1)"
  have buf: "take kReceiveBuffer sample_query = sample_query" by (simp add: kReceiveBuffer_def sample_query_def)
  have "receive sample_handler_env sample_query () ad_rules sample_state = (Some p, ?st)" using rq front buf by (simp add: receive_def)
  from run_snoc [where step = "handler_step sample_handler_env" and evs = "[]", OF run_Nil step_receive [OF this, of "[]"]]
  have run: "run_steps (handler_step sample_handler_env) (sample_state, []) [Receive sample_query () ad_rules] (?st, [p])" by simp
  have "sv_logged (print_line l st1) = []" by (subst s(4)) (simp add: sample_state_def)
  then obtain r where "sv_logged ?st = [r]" "ql_action r = Block"
    using log_record_logs [of sample_handler_env "print_line l st1" rq Block "msg_qname msg" "msg_qtype msg" rule "[]" None None] by (auto simp: logs_def)
  with run show ?thesis by blast
qed


end
