(* ===== verification/Filtering.thy ===== *)
theory Filtering
  imports Server LogAudit
begin

text \<open>
  From the list files to the answer: which rules are in force while the daemon runs, and what becomes of a
  query for a listed name. Nothing here is a definition of the program; the theory puts the loader, the
  matcher, the reload and the handler together.
\<close>

section \<open>The rules in force\<close>

text \<open>
  The configurations whose list files can be in force: the one of the start, and what the configuration
  file said at a reload.
\<close>

definition config_in_force :: "('addr, 'f, 'ep, 'w) server_env \<Rightarrow> ('f, 'ep, 'w) daemon \<Rightarrow> 'w \<Rightarrow> config \<Rightarrow> bool" where
  "config_in_force env dm w cfg \<longleftrightarrow> cfg = dm_cfg dm \<or>
     dm_reload_path dm \<noteq> [] \<and> load_config (se_open_read env w) (se_parse_toml env) (se_config_env env) (dm_reload_path dm) = Inr cfg"

definition rules_in_force :: "('addr, 'f, 'ep, 'w) server_env \<Rightarrow> ('f, 'ep, 'w) daemon \<Rightarrow> blocklist \<Rightarrow> bool" where
  "rules_in_force env dm bl \<longleftrightarrow> (\<exists>w cfg n k. config_in_force env dm w cfg \<and> build_blocklist (se_read_list env w) cfg = Inr (bl, n, k))"

lemma rules_in_force_cong: "dm_cfg dm' = dm_cfg dm \<Longrightarrow> dm_reload_path dm' = dm_reload_path dm \<Longrightarrow> rules_in_force env dm' bl = rules_in_force env dm bl"
  by (simp add: rules_in_force_def config_in_force_def)

lemma reload_rules:
  assumes "rules_in_force env dm (dm_blocklist dm)"
  shows "rules_in_force env dm (dm_blocklist (on_reload env dm))"
proof -
  have "dm_blocklist (on_reload env dm) = dm_blocklist dm \<or>
      (\<exists>c n k. fresh_config env dm = Inr c \<and> build_blocklist (se_read_list env (sv_world (dm_state dm))) c = Inr (dm_blocklist (on_reload env dm), n, k))"
    by (cases "fresh_config env dm") (auto simp: on_reload_fresh Let_def split: sum.splits prod.splits if_splits)
  then show ?thesis
  proof (elim disjE exE conjE)
    fix c n k
    assume c: "fresh_config env dm = Inr c" "build_blocklist (se_read_list env (sv_world (dm_state dm))) c = Inr (dm_blocklist (on_reload env dm), n, k)"
    then have "config_in_force env dm (sv_world (dm_state dm)) c" by (auto simp: fresh_config_def config_in_force_def split: if_splits)
    with c(2) show ?thesis unfolding rules_in_force_def by blast
  qed (use assms in simp)
qed

lemma daemon_step_rules:
  assumes "daemon_step env dm ev dm'" "rules_in_force env dm (dm_blocklist dm)"
  shows "dm_cfg dm' = dm_cfg dm" "dm_reload_path dm' = dm_reload_path dm" "rules_in_force env dm (dm_blocklist dm')"
  using assms by (cases; simp add: on_reload_frame reload_rules on_stop_signal_def stop_server_def Let_def split: prod.split)+

lemma daemon_run_rules:
  assumes "run_steps (daemon_step env) dm0 evs dm" "rules_in_force env dm0 (dm_blocklist dm0)"
  shows "dm_cfg dm = dm_cfg dm0 \<and> dm_reload_path dm = dm_reload_path dm0 \<and> rules_in_force env dm0 (dm_blocklist dm)"
  using assms
proof (induction rule: run_steps.induct)
  case (run_snoc evs dm ev dm')
  then have IH: "dm_cfg dm = dm_cfg dm0" "dm_reload_path dm = dm_reload_path dm0" "rules_in_force env dm0 (dm_blocklist dm)" by auto
  note same = rules_in_force_cong [OF IH(1,2)]
  from daemon_step_rules [OF run_snoc.hyps(2)] IH show ?case by (simp add: same)
qed simp

lemma start_rules:
  assumes "start_server env cfg rs reload_path w = (Inr dm, w')"
  shows "rules_in_force env dm (dm_blocklist dm)"
proof -
  have "\<exists>w n k. build_blocklist (se_read_list env w) (dm_cfg dm) = Inr (dm_blocklist dm, n, k)"
    using assms by (auto simp: start_server_def Let_def split: prod.splits sum.splits) blast
  then show ?thesis by (auto simp: rules_in_force_def config_in_force_def)
qed

text \<open>What the rules in force catch, in terms of the files.\<close>

definition listed :: "('w \<Rightarrow> string \<Rightarrow> string option) \<Rightarrow> 'w \<Rightarrow> config \<Rightarrow> string \<Rightarrow> bool" where
  "listed read_file w cfg q \<longleftrightarrow> (\<exists>d \<in> file_rules (read_file w) (cfg_blocklist cfg). label_suffix d q \<and>
     (\<forall>a \<in> file_rules (read_file w) (cfg_allowlist cfg). label_suffix a q \<longrightarrow> length a < length d))"

lemma file_rules_wf: "finite (file_rules read_file paths) \<and> (\<forall>d \<in> file_rules read_file paths. is_valid_domain d \<and> to_lower_ascii d = d)"
  by (auto simp: file_rules_def valid_rules_def split: option.splits)

lemma built_rules_block:
  assumes "build_blocklist (se_read_list env w) cfg = Inr (bl, n, k)"
  shows "blocked (blocklist_match bl q) \<longleftrightarrow> listed (se_read_list env) w cfg q"
    "blocked (blocklist_match bl q) \<Longrightarrow> matched_rule (blocklist_match bl q) \<in> file_rules (se_read_list env w) (cfg_blocklist cfg) \<and>
       label_suffix (matched_rule (blocklist_match bl q)) q"
proof -
  have bl: "bl = \<lparr>bl_exact = {}, bl_suffix = file_rules (se_read_list env w) (cfg_blocklist cfg), bl_regex = [], bl_allow_exact = {},
      bl_allow_suffix = file_rules (se_read_list env w) (cfg_allowlist cfg)\<rparr>"
    using assms by (auto simp: build_blocklist_eq split: option.splits)
  have "blocklist_wf bl" using file_rules_wf by (auto simp: bl blocklist_wf_def)
  from blocked_by_lists [OF this, of q] bl
  show "blocked (blocklist_match bl q) \<longleftrightarrow> listed (se_read_list env) w cfg q"
    "blocked (blocklist_match bl q) \<Longrightarrow> matched_rule (blocklist_match bl q) \<in> file_rules (se_read_list env w) (cfg_blocklist cfg) \<and>
       label_suffix (matched_rule (blocklist_match bl q)) q"
    by (simp_all add: listed_def)
qed

section \<open>What becomes of a query\<close>

lemma front_block_record:
  assumes "handle_front env rq st = (p, st')" "parse (rq_query rq) = Inr msg" "length (questions msg) = 1" "is_forwardable_qtype (msg_qtype msg)"
  shows "if blocked (blocklist_match (rq_blocklist rq) (msg_qname msg))
    then p = Some (Replying rq (block_response (msg_qtype msg) (rq_query rq) msg)) \<and> sv_resolver st' = sv_resolver st \<and> sv_cache st' = sv_cache st \<and>
      (\<exists>r. sv_logged st' = sv_logged st @ [r] \<and> ql_action r = Block \<and> ql_rule r = matched_rule (blocklist_match (rq_blocklist rq) (msg_qname msg)))
    else \<exists>rs. sv_logged st' = sv_logged st @ rs \<and> (\<forall>r \<in> set rs. ql_action r = ServFail)"
  using assms(1)
proof (cases rule: handle_front_cases)
  case (Blocked msg' l)
  then show ?thesis using assms(2) log_record_logs [of env "print_line l st" rq Block "msg_qname msg" "msg_qtype msg"
      "matched_rule (blocklist_match (rq_blocklist rq) (msg_qname msg))" "[]" None None] by (auto simp: logs_def)
next
  case (CacheMiss msg' key now w c p')
  have "sv_logged st' = sv_logged st \<or> (\<exists>r. sv_logged st' = sv_logged st @ [r] \<and> ql_action r = ServFail)"
    using CacheMiss(7) by (auto simp: begin_forward_def forward_failed_def log_record_def Let_def split: prod.splits sum.splits)
  with CacheMiss assms(2) show ?thesis by (auto simp: admitted_def)
qed (use assms in \<open>auto simp: admitted_def\<close>)

section \<open>Properties\<close>


abbreviation ad_env :: "(string, unit, string \<times> u16, unit) server_env" where
  "ad_env \<equiv> sample_server_env\<lparr>se_read_list := \<lambda>_ _. Some ''0 ad.x''\<rparr>"

lemma ad_listed:
  assumes "config_in_force ad_env dm () cfg" "dm_cfg dm = sample_server_config"
  shows "listed (se_read_list ad_env) () cfg ''ad.x''"
proof -
  have "cfg = sample_server_config"
    using assms by (auto simp: config_in_force_def load_config_def fail_def sample_server_env_def)
  moreover have "hosts_tokens ''0 ad.x'' = [''ad.x'']" by (simp add: hosts_tokens_def eval_simps)
  moreover have "to_lower_ascii ''ad.x'' = ''ad.x'' \<and> is_valid_domain ''ad.x''" by (simp add: eval_simps char_of_eq_iff)
  ultimately show ?thesis
    by (auto simp: listed_def file_rules_def valid_rules_Cons sample_server_config_def default_config_def)
qed


end
