(* ===== verification/Replies.thy ===== *)
theory Replies
  imports Filtering
begin

text \<open>
  What clients can be sent. Every reply is one the server made up for that query, for a reason the query
  gives, or an upstream's answer to exactly that question which was checked for blocked names behind
  CNAMEs, fresh or from the cache.
\<close>

section \<open>Replies with a reason\<close>

text \<open>
  \<open>bl0\<close> are the rules the query was judged by when it came in, \<open>bl\<close> those of the uncloaker. A response
  served from the cache is a vetted response of the same question with new TTLs and the query's id.
\<close>

definition question_key :: "dns_message \<Rightarrow> cache_key" where
  "question_key msg = \<lparr>key_qname = msg_qname msg, key_qtype = msg_qtype msg, key_qclass = q_class (questions msg ! 0)\<rparr>"

definition earned :: "blocklist \<Rightarrow> bytes \<Rightarrow> blocklist \<Rightarrow> bytes \<Rightarrow> bool" where
  "earned bl query bl0 b \<longleftrightarrow> (\<exists>msg. parse query = Inr msg \<and>
     (if length (questions msg) \<noteq> 1 \<or> \<not> is_forwardable_qtype (msg_qtype msg) then b = build_refused_response query msg
      else if blocked (blocklist_match bl0 (msg_qname msg)) then b = block_response (msg_qtype msg) query msg
      else b = build_servfail_response query msg \<or> is_address_qtype (msg_qtype msg) \<and> b = block_response (msg_qtype msg) query msg \<or>
        vetted_entry bl (question_key msg) b \<or>
        (\<exists>e now. vetted_entry bl (question_key msg) (entry_response e) \<and> now < expires_at e \<and> b = serve_entry now (read_u16_be query 0) e)))"

abbreviation earned_for :: "blocklist \<Rightarrow> 'f request \<Rightarrow> bytes \<Rightarrow> bool" where
  "earned_for bl rq b \<equiv> earned bl (rq_query rq) (rq_blocklist rq) b"

fun ready_reply :: "'f phase \<Rightarrow> bytes option" where
  "ready_reply (Replying _ b) = Some b"
| "ready_reply (ReplyingCached _ b _ _) = Some b"
| "ready_reply _ = None"

lemma earned_servfail: "admitted rq msg \<Longrightarrow> earned_for bl rq (build_servfail_response (rq_query rq) msg)"
  by (auto simp: earned_def admitted_def)

lemma earned_sinkhole:
  "admitted rq msg \<Longrightarrow> is_address_qtype (msg_qtype msg) \<Longrightarrow>
     earned_for bl rq (if msg_qtype msg = kTypeAAAA then build_block_aaaa_response (rq_query rq) msg else build_block_a_response (rq_query rq) msg)"
  by (auto simp: earned_def admitted_def is_address_qtype_def block_response_def kTypeA_def kTypeAAAA_def)

lemma earned_answer:
  assumes "admitted rq msg" "answers_question (questions msg) b" "is_address_qtype (msg_qtype msg) \<longrightarrow> clean_response bl (msg_qname msg) b"
  shows "earned_for bl rq b"
proof -
  have "length (questions msg) = 1" "is_forwardable_qtype (msg_qtype msg)" using assms(1) by (auto simp: admitted_def)
  with single_question [OF this(1)] assms(2,3) have "vetted_entry bl (question_key msg) b" by (simp add: vetted_entry_def question_key_def)
  with assms(1) show ?thesis by (auto simp: earned_def admitted_def)
qed

section \<open>The pieces of a handler\<close>

lemma begin_forward_earned:
  assumes "admitted rq msg" "begin_forward env rq msg st = (p, st')" "ready_reply p = Some b"
  shows "earned_for bl rq b"
  using assms earned_servfail [OF assms(1)] by (auto simp: begin_forward_def forward_failed_def split: prod.splits sum.splits)

lemma front_earned:
  assumes "server_ok st" "handle_front env rq st = (Some p, st')" "ready_reply p = Some b"
  shows "earned_for (sv_uncloak_blocklist st) rq b"
  using assms(2)
proof (cases rule: handle_front_cases)
  case (CacheHit msg key now w b' c)
  obtain e where e: "map_of (cmap (sv_cache st)) key = Some e" "b' = serve_entry now (hdr_id (msg_header msg)) e" "now < expires_at e"
    using cache_lookup_vetted [OF _ _ CacheHit(5), of "sv_uncloak_blocklist st"] assms(1) by (auto simp: server_ok_def)
  have q: "parse (rq_query rq) = Inr msg" "length (questions msg) = 1" using CacheHit(1) by (auto simp: admitted_def)
  have "key = question_key msg" using CacheHit(2) single_question [OF q(2)] by (simp add: question_key_def)
  moreover have "vetted_entry (sv_uncloak_blocklist st) key (entry_response e)" using assms(1) e(1) by (simp add: server_ok_def cache_vetted_def)
  moreover have "b = b'" using CacheHit(6) assms(3) by simp
  ultimately show ?thesis using e(2,3) CacheHit(1) parse_bounds [OF q(1)] by (auto simp: earned_def admitted_def)
next
  case (CacheMiss msg key now w c p')
  then show ?thesis using begin_forward_earned [OF CacheMiss(1,7)] assms(3) by simp
qed (use assms(3) in \<open>auto simp: earned_def\<close>)

lemma finish_uncloak_earned:
  assumes "admitted rq msg" "is_address_qtype (msg_qtype msg)" "answers_question (questions msg) (fwd_response fwd)"
    and "un_status result = UnClean \<longrightarrow> clean_response bl (msg_qname msg) (fwd_response fwd)"
    and "finish_uncloak env rq msg fwd result st = Some (p, st')" "ready_reply p = Some b"
  shows "earned_for bl rq b"
proof (cases "un_status result")
  case UnClean
  then have "b = fwd_response fwd" using assms(5,6)
    by (cases "try_cache_insert env msg (fwd_response fwd) st") (auto simp: finish_uncloak_def Let_def)
  then show ?thesis using earned_answer [OF assms(1,3)] assms(4) UnClean by simp
next
  case UnBlocked
  then show ?thesis using assms(5,6) earned_sinkhole [OF assms(1,2)] by (auto simp: finish_uncloak_def Let_def)
next
  case UnAborted
  then show ?thesis using assms(5,6) earned_servfail [OF assms(1)] by (auto simp: finish_uncloak_def Let_def)
qed

lemma after_uncloak_earned:
  assumes "admitted rq msg" "is_address_qtype (msg_qtype msg)" "answers_question (questions msg) (fwd_response fwd)"
    and "(\<exists>y. x = Inr y) \<or> un_status (projl x) = UnClean \<Longrightarrow> clean_response bl (msg_qname msg) (fwd_response fwd)"
    and "after_uncloak env rq msg fwd x st = Some (p, st')" "ready_reply p = Some b"
  shows "earned_for bl rq b"
proof (cases x)
  case (Inl result)
  then show ?thesis using finish_uncloak_earned [OF assms(1-3), of result bl env st p st' b] assms(4-6) by (simp add: after_uncloak_def)
qed (use assms(5,6) in \<open>auto simp: after_uncloak_def\<close>)

lemma after_forward_earned:
  assumes "admitted rq msg" "answers_question (questions msg) (fwd_response fwd)"
    and "after_forward env rq msg fwd st = Some (p, st')" "ready_reply p = Some b"
  shows "earned_for (sv_uncloak_blocklist st) rq b"
proof (cases "is_address_qtype (msg_qtype msg)")
  case True
  obtain x w where x: "uncloak_begin (he_draw_id env) (sv_uncloak_blocklist st) (sv_max_depth st) (msg_qname msg) (fwd_response fwd) (sv_resolver st)
      (sv_world st) = (x, w)" by fastforce
  then have "after_uncloak env rq msg fwd x (st\<lparr>sv_world := w\<rparr>) = Some (p, st')" using assms(3) True by (simp add: after_forward_def)
  from after_uncloak_earned [OF assms(1) True assms(2) begin_progress(2) [OF x] this assms(4)] show ?thesis by simp
next
  case False
  then have "b = fwd_response fwd" using assms(3,4)
    by (cases "try_cache_insert env msg (fwd_response fwd) st") (auto simp: after_forward_def)
  then show ?thesis using earned_answer [OF assms(1,2)] False by simp
qed

lemma resume_earned:
  assumes "phase_ok st p" "resume env p st = Some (Some p', st')" "ready_reply p' = Some b"
  shows "earned_for (sv_uncloak_blocklist st) (phase_request p) b"
proof (cases p)
  case (Forwarding rq msg fr)
  have adm: "admitted rq msg" "waits_for st (rq_query rq) fr" "parse (rq_query rq) = Inr msg" using assms(1) Forwarding by (auto simp: admitted_def)
  have len: "12 \<le> length (rq_query rq)" using parse_bounds [OF adm(3)] by simp
  obtain x rs w where x: "forward_exchange fr (sv_resolver st) (sv_world st) = (x, rs, w)" by (metis prod.exhaust)
  let ?st = "st\<lparr>sv_resolver := rs, sv_world := w\<rparr>"
  consider e where "x = Inl e" | fwd where "x = Inr (Inl fwd)" | fr' where "x = Inr (Inr fr')" by (metis old.sum.exhaust)
  then show ?thesis
  proof cases
    case 1
    then show ?thesis using x Forwarding assms(2,3) earned_servfail [OF adm(1)] by (auto simp: forward_failed_def)
  next
    case 2
    have ans: "answers_question (questions msg) (fwd_response fwd)"
      using exchange_answers [OF x [unfolded 2] _ adm(3) len] adm(2) by (auto simp: waits_for_def)
    have "after_forward env rq msg fwd ?st = Some (p', st')" using x 2 Forwarding assms(2) by auto
    from after_forward_earned [OF adm(1) ans this assms(3)] show ?thesis by (simp add: Forwarding)
  next
    case 3
    then show ?thesis using x Forwarding assms(2,3) by auto
  qed
next
  case (Uncloaking rq msg fwd uf fr)
  obtain x rs w where x: "uncloak_exchange (he_draw_id env) (sv_uncloak_blocklist st) (sv_max_depth st) uf fr (sv_resolver st) (sv_world st) = (x, rs, w)"
    by (metis prod.exhaust)
  then have a: "after_uncloak env rq msg fwd x (st\<lparr>sv_resolver := rs, sv_world := w\<rparr>) = Some (p', st')" using assms(2) Uncloaking by auto
  show ?thesis using after_uncloak_earned [OF _ _ _ _ a assms(3)] assms(1) by (simp add: Uncloaking)
qed (use assms(2) in \<open>auto split: prod.splits sum.splits\<close>)

lemma resume_sends:
  assumes "resume env p st = Some (None, st')"
  shows "\<exists>b. ready_reply p = Some b \<and> sv_sent st' = sv_sent st @ [(rq_from (phase_request p), b)]"
proof (cases p)
  case (Replying rq b)
  then show ?thesis using assms send_to_frame(5) [of env b "rq_from rq" st] by (auto simp: handler_error_def split: prod.splits sum.splits)
next
  case (ReplyingCached rq b qname qtype)
  let ?w = "he_sleep env (apply_jitter (he_dist env (sv_world st)) (jitter_max (cache_cfg (sv_cache st)))) (sv_world st)"
  show ?thesis using assms ReplyingCached send_to_frame(5) [of env b "rq_from rq" "st\<lparr>sv_world := ?w\<rparr>"]
    by (auto simp: handler_error_def Let_def split: prod.splits sum.splits)
qed (use assms in \<open>auto split: prod.splits sum.splits\<close>)

section \<open>Over a run\<close>

definition replies_ok :: "('f \<times> bytes \<times> blocklist) set \<Rightarrow> ('f, 'w) server_state \<times> 'f phase list \<Rightarrow> bool" where
  "replies_ok got m \<longleftrightarrow>
     (\<forall>p \<in> set (snd m). request_key (phase_request p) \<in> got \<and>
        (\<forall>b. ready_reply p = Some b \<longrightarrow> earned_for (sv_uncloak_blocklist (fst m)) (phase_request p) b)) \<and>
     (\<forall>(f, b) \<in> set (sv_sent (fst m)). \<exists>q bl0. (f, q, bl0) \<in> got \<and> earned (sv_uncloak_blocklist (fst m)) q bl0 b)"

lemma replies_ok_mono: "replies_ok got m \<Longrightarrow> got \<subseteq> got' \<Longrightarrow> replies_ok got' m"
  by (fastforce simp: replies_ok_def)

lemma replies_same:
  assumes "replies_ok got (st, ps)" "sv_uncloak_blocklist st' = sv_uncloak_blocklist st" "sv_sent st' = sv_sent st" "set ps' \<subseteq> set ps"
  shows "replies_ok got (st', ps')"
  using assms by (auto simp: replies_ok_def)

lemma replies_receive:
  assumes "server_ok st" "replies_ok got (st, ps)" "receive env buf f bl st = (p, st')"
  shows "replies_ok (insert (f, take kReceiveBuffer buf, bl) got) (st', ps @ option_list p)"
proof -
  obtain rq st1 where rq: "start_request env (take kReceiveBuffer buf) f bl st = (rq, st1)" by fastforce
  then have front: "handle_front env rq st1 = (p, st')" using assms(3) by (simp add: receive_def)
  note s = start_request_frame(1-3) [OF rq] and s1 = start_request_ok [OF rq assms(1)]
  note f = front_ok [OF s1(1) front]
  have st': "sv_uncloak_blocklist st' = sv_uncloak_blocklist st" "sv_uncloak_blocklist st1 = sv_uncloak_blocklist st" "sv_sent st' = sv_sent st"
    using f s1(2,3) pinned_eq(1) by (auto simp: waits_again_def split: sum.splits)
  have old: "replies_ok (insert (f, take kReceiveBuffer buf, bl) got) (st', ps)"
    using replies_ok_mono [OF replies_same [OF assms(2) st'(1,3) subset_refl]] by blast
  show ?thesis
  proof (cases p)
    case (Some p')
    then have "phase_request p' = rq" using f by (auto simp: waits_again_def split: sum.splits)
    moreover have "earned_for (sv_uncloak_blocklist st') rq b" if "ready_reply p' = Some b" for b
      using front_earned [OF s1(1) front [unfolded Some] that] st' by simp
    ultimately show ?thesis using old Some s by (auto simp: replies_ok_def)
  qed (use old in simp)
qed

lemma replies_resume:
  assumes "server_ok st" "phase_ok st (ps ! i)" "replies_ok got (st, ps)" "i < length ps" "resume env (ps ! i) st = Some (p, st')"
  shows "replies_ok got (st', take i ps @ option_list p @ drop (Suc i) ps)"
proof -
  let ?p = "ps ! i"
  have here: "request_key (phase_request ?p) \<in> got" "\<And>b. ready_reply ?p = Some b \<Longrightarrow> earned_for (sv_uncloak_blocklist st) (phase_request ?p) b"
    using assms(3) nth_mem [OF assms(4)] by (auto simp: replies_ok_def)
  have on: "carried_on st ?p p st'" using resume_ok [OF assms(1,2), of env] assms(5) by auto
  then have bl: "sv_uncloak_blocklist st' = sv_uncloak_blocklist st" using pinned_eq(1) by (auto simp: carried_on_def waits_again_def split: option.splits)
  have sub: "set (take i ps @ drop (Suc i) ps) \<subseteq> set ps" by (auto dest: in_set_takeD in_set_dropD)
  show ?thesis
  proof (cases p)
    case None
    from resume_sends [OF assms(5) [unfolded None]] obtain b where b: "ready_reply ?p = Some b" "sv_sent st' = sv_sent st @ [(rq_from (phase_request ?p), b)]" by blast
    with assms(3) sub here bl None show ?thesis by (auto simp: replies_ok_def)
  next
    case (Some p')
    then have p': "sv_sent st' = sv_sent st" "phase_request p' = phase_request ?p" using on by (auto simp: carried_on_def waits_again_def)
    have "earned_for (sv_uncloak_blocklist st') (phase_request p') b" if "ready_reply p' = Some b" for b
      using resume_earned [OF assms(2) assms(5) [unfolded Some] that] p'(2) bl by simp
    with replies_same [OF assms(3) bl p'(1) sub] here(1) Some p'(2) show ?thesis by (auto simp: replies_ok_def)
  qed
qed

lemma replies_step:
  assumes "handler_step env m ev m'" "machine_ok got0 m" "replies_ok got m"
  shows "replies_ok (got \<union> set (received_full [ev])) m'"
  using assms(1)
proof (cases rule: handler_step.cases)
  case (step_receive buf f bl st p st' ps)
  have "server_ok st" using assms(2) step_receive(1) by (simp add: machine_ok_def)
  from replies_receive [OF this _ step_receive(4)] assms(3) step_receive show ?thesis by simp
next
  case (step_resume i ps st p st')
  have "server_ok st" "phase_ok st (ps ! i)" using assms(2) step_resume(1,4) by (auto simp: machine_ok_def)
  from replies_resume [OF this _ step_resume(4,5)] assms(3) step_resume show ?thesis by simp
next
  case (step_cache_sweep now st n c ps)
  then show ?thesis using replies_same [of got st ps "st\<lparr>sv_cache := c\<rparr>" ps] assms(3) by simp
next
  case (step_write_log st lg fs ps)
  then show ?thesis using replies_same [of got st ps "st\<lparr>sv_logger := lg, sv_fs := fs\<rparr>" ps] assms(3) by simp
next
  case (step_outside st ps w lines)
  then show ?thesis using replies_same [of got st ps "st\<lparr>sv_console := sv_console st @ lines, sv_world := w\<rparr>" ps] assms(3) by simp
qed

lemma received_full_snapshot:
  "\<forall>buf f bl. ev = Receive buf f bl \<longrightarrow> bl = bl0 \<Longrightarrow> received_full [ev] = map (\<lambda>(f, q). (f, q, bl0)) (received [ev])"
  by (cases ev) auto

lemma daemon_stopped:
  assumes "daemon_step env dm ev dm'" "\<not> dm_running dm'"
  shows "sv_sent (dm_state dm') = sv_sent (dm_state dm)" "dm_phases dm' = []"
  using assms by (cases; simp add: on_stop_signal_def stop_server_frame on_reload_frame)+

lemma daemon_replies:
  assumes "run_steps (daemon_step env) dm0 evs dm" "dm_running dm0" "server_ok (dm_state dm0)" "sv_sent (dm_state dm0) = []" "dm_phases dm0 = []"
    and "rules_in_force env dm0 (dm_blocklist dm0)"
  shows "\<exists>got. replies_ok got (dm_state dm, dm_phases dm) \<and> (\<forall>(f, q, bl0) \<in> got. (f, q) \<in> set (datagrams evs) \<and> rules_in_force env dm0 bl0)"
  using assms
proof (induction rule: run_steps.induct)
  case run_Nil
  then show ?case by (intro exI [of _ "{}"]) (simp add: replies_ok_def)
next
  case (run_snoc evs dm ev dm')
  then obtain got where got: "replies_ok got (dm_state dm, dm_phases dm)" "\<forall>(f, q, bl0) \<in> got. (f, q) \<in> set (datagrams evs) \<and> rules_in_force env dm0 bl0" by blast
  have pin: "sv_uncloak_blocklist (dm_state dm') = sv_uncloak_blocklist (dm_state dm)" by (rule pinned_eq(1) [OF daemon_step_pinned [OF run_snoc.hyps(2)]])
  show ?case
  proof (cases "dm_running dm'")
    case False
    note stop = daemon_stopped [OF run_snoc.hyps(2) False]
    from replies_same [OF got(1) pin stop(1), of "[]"] got(2) stop(2) show ?thesis by (intro exI [of _ got]) auto
  next
    case True
    from daemon_step_handlers [OF run_snoc.hyps(2) True] obtain hev where run: "dm_running dm"
        "handler_step (se_handler env) (dm_state dm, dm_phases dm) hev (dm_state dm', dm_phases dm')" "received [hev] = datagrams [ev]"
        "\<forall>buf f bl. hev = Receive buf f bl \<longrightarrow> bl = dm_blocklist dm" by blast
    obtain hevs where h: "run_steps (handler_step (se_handler env)) (dm_state dm0, dm_phases dm0) hevs (dm_state dm, dm_phases dm)"
      using daemon_run_handlers [OF run_snoc.hyps(1) run(1)] by blast
    have "machine_ok [] (dm_state dm0, dm_phases dm0)" using run_snoc.prems by (simp add: machine_ok_def)
    from replies_step [OF run(2) run_ok [OF h this] got(1)]
    have "replies_ok (got \<union> set (received_full [hev])) (dm_state dm', dm_phases dm')" .
    moreover have "rules_in_force env dm0 (dm_blocklist dm)" using daemon_run_rules [OF run_snoc.hyps(1) run_snoc.prems(5)] by blast
    ultimately show ?thesis using got(2) run(3)
      by (intro exI [of _ "got \<union> set (received_full [hev])"]) (auto simp: received_full_snapshot [OF run(4)])
  qed
qed

section \<open>Properties\<close>

text \<open>C5: Every reply is earned. Once the server has started with a positive cache limit, in every run every packet sent answers a datagram from that address that parses, for a
  reason: it is REFUSED for a query with other than one question or of a type that is not forwarded; the
  sinkhole answer if the list files in force when the query came in block its name; and otherwise SERVFAIL,
  the sinkhole answer for an address query, or a reply of an upstream to exactly this question, passed on
  or out of the cache before it expired with new TTLs and the client's id. No reply of an upstream to an
  address query is passed on, at once or from the cache, that shows a CNAME hop from the queried name
  blocked by the rules of the start.\<close>

theorem replies_earned:
  assumes "start_server env cfg rs reload_path w = (Inr dm0, w0)" "resolver_shape rs" "0 < cs_max_entries (cfg_cache (dm_cfg dm0))"
    and "run_steps (daemon_step env) dm0 evs dm" "(f, b) \<in> set (sv_sent (dm_state dm))"
  shows "\<exists>q bl0. (f, q) \<in> set (datagrams evs) \<and> rules_in_force env dm0 bl0 \<and> earned (dm_blocklist dm0) q bl0 b"
proof -
  note s = start_server_state [OF assms(1)]
  obtain got where got: "replies_ok got (dm_state dm, dm_phases dm)" "\<forall>(f, q, bl0) \<in> got. (f, q) \<in> set (datagrams evs) \<and> rules_in_force env dm0 bl0"
    using daemon_replies [OF assms(4) s(7) s(9) [OF assms(3,2)] s(1,2) start_rules [OF assms(1)]] by blast
  have "sv_uncloak_blocklist (dm_state dm) = dm_blocklist dm0" using pinned_eq(1) [OF daemon_run_pinned [OF assms(4)]] s(3) by simp
  then obtain q bl0 where "(f, q, bl0) \<in> got" "earned (dm_blocklist dm0) q bl0 b" using got(1) assms(5) by (auto simp: replies_ok_def)
  with got(2) show ?thesis by blast
qed

lemma resume_replying: "\<exists>st'. resume env (Replying rq b) st = Some (None, st')"
  by (cases "send_to env b (rq_from rq) st"; cases "fst (send_to env b (rq_from rq) st)") simp_all

lemma daemon_send_step:
  assumes "dm_running dm" "dm_phases dm = [Replying rq b]"
  shows "\<exists>dm'. daemon_step env dm (HandlerEvent (Resume 0)) dm' \<and> (rq_from rq, b) \<in> set (sv_sent (dm_state dm'))"
proof -
  obtain st where r: "resume (se_handler env) (Replying rq b) (dm_state dm) = Some (None, st)" using resume_replying by blast
  have "handler_step (se_handler env) (dm_state dm, [Replying rq b]) (Resume 0) (st, take 0 [Replying rq b] @ option_list None @ drop (Suc 0) [Replying rq b])"
    by (rule step_resume) (simp, unfold nth_Cons_0, rule r)
  then have "daemon_step env dm (HandlerEvent (Resume 0)) (dm\<lparr>dm_state := st, dm_phases := []\<rparr>)"
    using assms by (intro step_handler) simp_all
  moreover have "(rq_from rq, b) \<in> set (sv_sent st)" using resume_sends [OF r] by (auto simp del: resume.simps)
  ultimately show ?thesis by (intro exI [of _ "dm\<lparr>dm_state := st, dm_phases := []\<rparr>"] conjI) simp_all
qed

lemma sample_blocked_reply:
  assumes "start_server ad_env sample_server_config sample_resolver [] () = (Inr dm0, ())" "dm_cfg dm0 = sample_server_config"
  shows "\<exists>dm1 rq b. daemon_step ad_env dm0 (Datagram sample_query ()) dm1 \<and> dm_running dm1 \<and> dm_phases dm1 = [Replying rq b]"
proof -
  note s = start_server_state [OF assms(1)]
  obtain p st where r: "receive (se_handler ad_env) sample_query () (dm_blocklist dm0) (dm_state dm0) = (p, st)" by fastforce
  obtain rq st0 where rq: "start_request (se_handler ad_env) (take kReceiveBuffer sample_query) () (dm_blocklist dm0) (dm_state dm0) = (rq, st0)" by fastforce
  with r have front: "handle_front (se_handler ad_env) rq st0 = (p, st)" by (simp add: receive_def)
  obtain msg where msg: "parse (rq_query rq) = Inr msg" "length (questions msg) = 1" "msg_qname msg = ''ad.x''" "is_forwardable_qtype (msg_qtype msg)"
    using parse_sample_query start_request_frame(1) [OF rq] by (simp add: kReceiveBuffer_def sample_query_def msg_qname_def msg_qtype_def is_forwardable_qtype_def)
  obtain w cfg n k where c: "config_in_force ad_env dm0 w cfg" "build_blocklist (se_read_list ad_env w) cfg = Inr (dm_blocklist dm0, n, k)"
    using start_rules [OF assms(1)] by (auto simp: rules_in_force_def)
  have "listed (se_read_list ad_env) w cfg ''ad.x''" using ad_listed [of dm0 cfg] c(1) assms(2) by simp
  then have "blocked (blocklist_match (rq_blocklist rq) (msg_qname msg))"
    using built_rules_block(1) [OF c(2), of "''ad.x''"] start_request_frame(3) [OF rq] msg(3) by simp
  with front_block_record [OF front msg(1,2,4)] obtain b where "p = Some (Replying rq b)" by auto
  with step_datagram [OF s(7) step_receive [OF r]]
  have "daemon_step ad_env dm0 (Datagram sample_query ()) (dm0\<lparr>dm_state := st, dm_phases := dm_phases dm0 @ [Replying rq b]\<rparr>)" by simp
  then show ?thesis
    by (intro exI [of _ "dm0\<lparr>dm_state := st, dm_phases := dm_phases dm0 @ [Replying rq b]\<rparr>"] exI [of _ rq] exI [of _ b] conjI) (simp_all add: s(2,7))
qed

lemma sample_reply_run:
  assumes "start_server ad_env sample_server_config sample_resolver [] () = (Inr dm0, ())" "dm_cfg dm0 = sample_server_config"
  shows "\<exists>dm b. run_steps (daemon_step ad_env) dm0 [Datagram sample_query (), HandlerEvent (Resume 0)] dm \<and> ((), b) \<in> set (sv_sent (dm_state dm))"
proof -
  obtain dm1 rq b where d: "daemon_step ad_env dm0 (Datagram sample_query ()) dm1" "dm_running dm1" "dm_phases dm1 = [Replying rq b]"
    using sample_blocked_reply [OF assms] by blast
  from daemon_send_step [OF d(2,3), of ad_env]
  obtain dm where e: "daemon_step ad_env dm1 (HandlerEvent (Resume 0)) dm" "(rq_from rq, b) \<in> set (sv_sent (dm_state dm))"
    by blast
  have r1: "run_steps (daemon_step ad_env) dm1 [HandlerEvent (Resume 0)] dm" by (rule run_one, rule e(1))
  have "run_steps (daemon_step ad_env) dm0 [Datagram sample_query (), HandlerEvent (Resume 0)] dm"
    by (rule run_front, rule r1, rule d(1))
  moreover have "((), b) \<in> set (sv_sent (dm_state dm))" using e(2) by simp
  ultimately show ?thesis by (intro exI conjI)
qed

theorem replies_earned_witness:
  "\<exists>dm0 dm b q bl0. run_steps (daemon_step ad_env) dm0 [Datagram sample_query (), HandlerEvent (Resume 0)] dm \<and> ((), b) \<in> set (sv_sent (dm_state dm)) \<and>
     rules_in_force ad_env dm0 bl0 \<and> earned (dm_blocklist dm0) q bl0 b"
proof -
  obtain dm0 where d: "start_server ad_env sample_server_config sample_resolver [] () = (Inr dm0, ())" "dm_cfg dm0 = sample_server_config"
    using sample_start_rules [of "\<lambda>_. Some ''0 ad.x''" "cfg_logging sample_server_config" sample_resolver "[]"] by auto
  obtain dm b where run: "run_steps (daemon_step ad_env) dm0 [Datagram sample_query (), HandlerEvent (Resume 0)] dm" "((), b) \<in> set (sv_sent (dm_state dm))"
    using sample_reply_run [OF d] by blast
  have "resolver_shape sample_resolver" by (simp add: resolver_shape_def sample_resolver_def)
  moreover have "0 < cs_max_entries (cfg_cache (dm_cfg dm0))" using d(2) sample_max_entries by simp
  ultimately show ?thesis using replies_earned [OF d(1) _ _ run] run by blast
qed

end
