(* ===== verification/HandlerSpec.thy ===== *)
theory HandlerSpec
  imports Handler
begin

text \<open>
  \<^verbatim>\<open>handle\<close> read straight through, with \<^verbatim>\<open>co_await resolver.forward_with_source(...)\<close> and
  \<^verbatim>\<open>co_await uncloaker.uncloak(...)\<close> as calls. This is the text of the function for one query that nobody
  interrupts; the machine of phases, resumed until it is done, computes the same. The properties of a single query
  are proved over it.
\<close>

section \<open>Definitions\<close>

definition send_reply :: "('f, 'w) handler_env \<Rightarrow> 'f request \<Rightarrow> bytes \<Rightarrow> ('f, 'w) server_state \<Rightarrow> ('f, 'w) server_state" where
  [eval_simps]: "send_reply env rq response st =
     (case send_to env response (rq_from rq) st of
        (Inl e, st) \<Rightarrow> handler_error e st
      | (Inr _, st) \<Rightarrow> st)"

text \<open>The inner \<^verbatim>\<open>try\<close> block and its handler: the response, and the state in which it is sent.\<close>

definition resolve_straight :: "('f, 'w) handler_env \<Rightarrow> 'f request \<Rightarrow> dns_message \<Rightarrow> ('f, 'w) server_state \<Rightarrow> ('f phase \<times> ('f, 'w) server_state) option" where
  [eval_simps]: "resolve_straight env rq msg st =
     (case forward (he_draw_id env) (rq_query rq) (sv_resolver st) (sv_world st) of
        (Inl e, rs, w) \<Rightarrow> Some (forward_failed env rq msg e (st\<lparr>sv_resolver := rs, sv_world := w\<rparr>))
      | (Inr fwd, rs, w) \<Rightarrow>
          let st = st\<lparr>sv_resolver := rs, sv_world := w\<rparr> in
          if is_address_qtype (msg_qtype msg) then
            (case uncloak (he_draw_id env) (sv_uncloak_blocklist st) (sv_max_depth st) (msg_qname msg) (fwd_response fwd) (sv_resolver st) (sv_world st) of
               (result, rs, w) \<Rightarrow> finish_uncloak env rq msg fwd result (st\<lparr>sv_resolver := rs, sv_world := w\<rparr>))
          else map_option (\<lambda>st. (Replying rq (fwd_response fwd),
                 log_record env rq Allow (msg_qname msg) (msg_qtype msg) [] [] (Some (fwd_upstream fwd)) (Some (fwd_ech_status fwd))
                   (print_line (''forward '' @ msg_qname msg @ ''  qtype='' @ dec_string (unat (msg_qtype msg))) st)))
               (try_cache_insert env msg (fwd_response fwd) st))"

fun reply_of :: "'f phase \<Rightarrow> bytes" where
  "reply_of (Replying _ b) = b"
| "reply_of (ReplyingCached _ b _ _) = b"
| "reply_of _ = []"

definition answer_upstream :: "('f, 'w) handler_env \<Rightarrow> 'f request \<Rightarrow> dns_message \<Rightarrow> ('f, 'w) server_state \<Rightarrow> ('f, 'w) server_state option" where
  [eval_simps]: "answer_upstream env rq msg st =
     map_option (\<lambda>(p, st). send_reply env rq (reply_of p) st) (resolve_straight env rq msg st)"

definition handle_straight :: "('f, 'w) handler_env \<Rightarrow> bytes \<Rightarrow> 'f \<Rightarrow> blocklist \<Rightarrow> ('f, 'w) server_state \<Rightarrow> ('f, 'w) server_state option" where
  [eval_simps]: "handle_straight env query_buf from bl_snapshot st =
     (let (rq, st) = start_request env query_buf from bl_snapshot st in
      case parse query_buf of
        Inl e \<Rightarrow> Some (print_line (''drop malformed from '' @ he_show env from @ '': '' @ what e) st)
      | Inr msg \<Rightarrow>
          let qname = msg_qname msg; qtype = msg_qtype msg in
          if length (questions msg) \<noteq> 1 \<or> \<not> is_forwardable_qtype qtype then
            Some (send_reply env rq (build_refused_response query_buf msg)
              (log_record env rq Refuse qname qtype [] [] None None
                (print_line (''refuse  '' @ qname @ ''  qtype='' @ dec_string (unat qtype)) st)))
          else
            let hit = blocklist_match bl_snapshot qname in
            if blocked hit then
              Some (send_reply env rq (block_response qtype query_buf msg)
                (log_record env rq Block qname qtype (matched_rule hit) [] None None
                  (print_line (''block   '' @ qname @ ''  via '' @ matched_rule hit @ ''  qtype='' @ dec_string (unat qtype)) st)))
            else
              case make_cache_key msg of
                None \<Rightarrow> answer_upstream env rq msg st
              | Some key \<Rightarrow>
                  let (now, w) = he_steady env (sv_world st);
                      (cached, c) = cache_lookup now key (hdr_id (msg_header msg)) (sv_cache st);
                      st = st\<lparr>sv_cache := c, sv_world := w\<rparr> in
                  case cached of
                    None \<Rightarrow> answer_upstream env rq msg st
                  | Some b \<Rightarrow>
                      let delay = apply_jitter (he_dist env (sv_world st)) (jitter_max (cache_cfg (sv_cache st))) in
                      (case send_to env b from (st\<lparr>sv_world := he_sleep env delay (sv_world st)\<rparr>) of
                         (Inl e, st) \<Rightarrow> Some (handler_error e st)
                       | (Inr _, st) \<Rightarrow> Some (log_record env rq Cached qname qtype [] [] None None (print_line (''cached  '' @ qname) st))))"

section \<open>The machine and the text agree\<close>

lemma run_replying: "run_phases env (Replying rq b) st = Some (send_reply env rq b st)"
  by (simp add: run_phases.simps [of env "Replying rq b"] send_reply_def split: prod.split sum.split)

definition run_rest :: "('f, 'w) handler_env \<Rightarrow> ('f phase \<times> ('f, 'w) server_state) option \<Rightarrow> ('f, 'w) server_state option" where
  "run_rest env x = (case x of None \<Rightarrow> None | Some (p, st) \<Rightarrow> run_phases env p st)"

lemma run_rest_simps [simp]: "run_rest env None = None" "run_rest env (Some (p, st)) = run_phases env p st"
  by (simp_all add: run_rest_def)

lemma run_phases_step:
  "resume env p st = map_option (apfst Some) x \<Longrightarrow> run_phases env p st = run_rest env x"
  by (cases x) (auto simp: run_phases.simps [of env p] run_rest_def)

abbreviation moved :: "('f, 'w) server_state \<Rightarrow> 'w resolver \<Rightarrow> 'w \<Rightarrow> ('f, 'w) server_state" where
  "moved st rs w \<equiv> st\<lparr>sv_resolver := rs, sv_world := w\<rparr>"

lemma run_forwarding:
  "run_phases env (Forwarding rq msg fr) (moved st rs w) =
     (case run_forward fr rs w of
        (Inl e, rs, w) \<Rightarrow> run_rest env (Some (forward_failed env rq msg e (moved st rs w)))
      | (Inr fwd, rs, w) \<Rightarrow> run_rest env (after_forward env rq msg fwd (moved st rs w)))"
proof (induction fr rs w rule: run_forward.induct)
  case (1 fr rs w)
  obtain x rs1 w1 where x: "forward_exchange fr rs w = (x, rs1, w1)" by (metis prod.exhaust)
  note f = run_forward.simps [of fr rs w, unfolded x, simplified]
  consider e where "x = Inl e" | fwd where "x = Inr (Inl fwd)" | fr' where "x = Inr (Inr fr')" by (metis old.sum.exhaust)
  then show ?case
  proof cases
    case 1
    have "resume env (Forwarding rq msg fr) (moved st rs w) = map_option (apfst Some) (Some (forward_failed env rq msg e (moved st rs1 w1)))"
      using x 1 by simp
    from run_phases_step [OF this] f 1 show ?thesis by simp
  next
    case 2
    have "resume env (Forwarding rq msg fr) (moved st rs w) = map_option (apfst Some) (after_forward env rq msg fwd (moved st rs1 w1))"
      using x 2 by simp
    from run_phases_step [OF this] f 2 show ?thesis by simp
  next
    case 3
    have "resume env (Forwarding rq msg fr) (moved st rs w) = map_option (apfst Some) (Some (Forwarding rq msg fr', moved st rs1 w1))"
      using x 3 by simp
    from run_phases_step [OF this] "1.IH" [OF x [unfolded 3, symmetric] refl refl refl] f 3 show ?thesis by simp
  qed
qed

lemma run_uncloaking:
  "run_phases env (Uncloaking rq msg fwd uf fr) (moved st rs w) =
     (case run_uncloak (he_draw_id env) (sv_uncloak_blocklist st) (sv_max_depth st) uf fr rs w of
        (result, rs, w) \<Rightarrow> run_rest env (finish_uncloak env rq msg fwd result (moved st rs w)))"
proof (induction "he_draw_id env" "sv_uncloak_blocklist st" "sv_max_depth st" uf fr rs w rule: run_uncloak.induct)
  case (1 uf fr rs w)
  obtain x rs1 w1 where x: "uncloak_exchange (he_draw_id env) (sv_uncloak_blocklist st) (sv_max_depth st) uf fr rs w = (x, rs1, w1)"
    by (metis prod.exhaust)
  note f = run_uncloak.simps [of "he_draw_id env" "sv_uncloak_blocklist st" "sv_max_depth st" uf fr rs w, unfolded x, simplified]
  have "resume env (Uncloaking rq msg fwd uf fr) (moved st rs w) = map_option (apfst Some) (after_uncloak env rq msg fwd x (moved st rs1 w1))"
    using x by simp
  note step = run_phases_step [OF this]
  show ?case
  proof (cases x)
    case (Inl result)
    then show ?thesis using step f by (simp add: after_uncloak_def)
  next
    case (Inr y)
    then obtain uf' fr' where y: "x = Inr (uf', fr')" by (cases y) auto
    from "1.hyps" [OF x [unfolded y, symmetric] refl refl refl] step f y show ?thesis by (simp add: after_uncloak_def)
  qed
qed

text \<open>Where the inner \<^verbatim>\<open>try\<close> block ends, a reply is ready.\<close>

lemma resolve_replies: "resolve_straight env rq msg st = Some (p, st') \<Longrightarrow> \<exists>b. p = Replying rq b"
  by (auto simp: resolve_straight_def forward_failed_def Let_def dest: finish_uncloak_reply(2) split: prod.splits sum.splits if_splits)

lemma answer_upstream_eq: "answer_upstream env rq msg st = run_rest env (resolve_straight env rq msg st)"
proof (cases "resolve_straight env rq msg st")
  case (Some y)
  obtain p st' where y: "resolve_straight env rq msg st = Some (p, st')" using Some by (cases y) auto
  with resolve_replies obtain b where "p = Replying rq b" by blast
  with y show ?thesis by (simp add: answer_upstream_def run_replying)
qed (simp add: answer_upstream_def)

lemma run_after_forward:
  assumes "resolver_shape rs" "is_address_qtype (msg_qtype msg)"
  shows "run_rest env (after_forward env rq msg fwd (moved st rs w)) =
    (case uncloak (he_draw_id env) (sv_uncloak_blocklist st) (sv_max_depth st) (msg_qname msg) (fwd_response fwd) rs w of
       (result, rs, w) \<Rightarrow> run_rest env (finish_uncloak env rq msg fwd result (moved st rs w)))"
proof -
  obtain x w1 where x: "uncloak_begin (he_draw_id env) (sv_uncloak_blocklist st) (sv_max_depth st) (msg_qname msg) (fwd_response fwd) rs w = (x, w1)"
    by fastforce
  note u = call_uncloak_eq [OF assms(1), of "he_draw_id env" "sv_uncloak_blocklist st" "sv_max_depth st" "msg_qname msg" "fwd_response fwd" w,
      unfolded call_uncloak_def x, simplified, symmetric]
  show ?thesis
  proof (cases x)
    case (Inl result)
    then show ?thesis using u x assms(2) by (simp add: after_forward_def after_uncloak_def)
  next
    case (Inr y)
    then obtain uf fr where "x = Inr (uf, fr)" by (cases y) auto
    then show ?thesis using u x assms(2) run_uncloaking [of env rq msg fwd uf fr w1 rs st] by (simp add: after_forward_def after_uncloak_def)
  qed
qed

lemma run_begin_forward:
  assumes "resolver_shape (sv_resolver st)"
  shows "run_rest env (Some (begin_forward env rq msg st)) = run_rest env (resolve_straight env rq msg st)"
proof -
  let ?rs = "sv_resolver st"
  obtain x w1 where x: "forward_begin (he_draw_id env) (rq_query rq) ?rs (sv_world st) = (x, w1)" by fastforce
  note f = call_forward_eq [OF assms, of "he_draw_id env" "rq_query rq" "sv_world st", unfolded call_forward_def x, simplified, symmetric]
  show ?thesis
  proof (cases x)
    case (Inl e)
    then show ?thesis using f x by (simp add: begin_forward_def resolve_straight_def)
  next
    case (Inr fr)
    obtain r rs w where r: "run_forward fr ?rs w1 = (r, rs, w)" by (metis prod.exhaust)
    then have f': "forward (he_draw_id env) (rq_query rq) ?rs (sv_world st) = (r, rs, w)" using f Inr by simp
    have "run_rest env (Some (begin_forward env rq msg st)) = run_phases env (Forwarding rq msg fr) (moved st ?rs w1)"
      using x Inr by (simp add: begin_forward_def)
    also have "\<dots> = run_rest env (resolve_straight env rq msg st)"
    proof (cases r)
      case (Inl e)
      then show ?thesis using run_forwarding [of env rq msg fr w1 ?rs st] r f' by (simp add: resolve_straight_def)
    next
      case (Inr fwd)
      have shape: "resolver_shape rs" by (rule forward_shape [OF f' assms])
      show ?thesis
      proof (cases "is_address_qtype (msg_qtype msg)")
        case True
        then show ?thesis using run_forwarding [of env rq msg fr w1 ?rs st] r f' Inr run_after_forward [OF shape True, of env rq fwd w st]
          by (simp add: resolve_straight_def split: prod.split)
      next
        case False
        then show ?thesis using run_forwarding [of env rq msg fr w1 ?rs st] r f' Inr by (simp add: resolve_straight_def after_forward_def)
      qed
    qed
    finally show ?thesis .
  qed
qed

lemma handle_straight_eq:
  assumes "resolver_shape (sv_resolver st)"
  shows "handle env query from bl st = handle_straight env query from bl st"
proof -
  obtain rq st1 where rq: "start_request env query from bl st = (rq, st1)" by fastforce
  note s = start_request_frame [OF rq]
  have shape: "resolver_shape (sv_resolver st1)" by (subst s(4)) (simp add: assms)
  show ?thesis
  proof (cases "parse query")
    case (Inl e)
    then show ?thesis using rq s by (simp add: handle_def handle_straight_def handle_front_def)
  next
    case (Inr msg)
    have up: "run_rest env (Some (begin_forward env rq msg st2)) = answer_upstream env rq msg st2" if "resolver_shape (sv_resolver st2)" for st2
      using run_begin_forward [OF that] answer_upstream_eq by metis
    have handle: "handle env query from bl st = (case handle_front env rq st1 of (None, st) \<Rightarrow> Some st | (Some p, st) \<Rightarrow> run_rest env (Some (p, st)))"
      using rq by (simp add: handle_def split: prod.split option.split)
    consider (refuse) "length (questions msg) \<noteq> 1 \<or> \<not> is_forwardable_qtype (msg_qtype msg)"
      | (block) "length (questions msg) = 1" "is_forwardable_qtype (msg_qtype msg)" "blocked (blocklist_match bl (msg_qname msg))"
      | (pass) "length (questions msg) = 1" "is_forwardable_qtype (msg_qtype msg)" "\<not> blocked (blocklist_match bl (msg_qname msg))" by auto
    then show ?thesis
    proof cases
      case refuse
      then show ?thesis using rq s Inr by (auto simp: handle_def handle_straight_def handle_front_def Let_def run_replying)
    next
      case block
      then show ?thesis using rq s Inr by (simp add: handle_def handle_straight_def handle_front_def Let_def run_replying)
    next
      case pass
      obtain key where key: "make_cache_key msg = Some key" using single_question [OF pass(1)] by simp
      obtain now w where clock: "he_steady env (sv_world st1) = (now, w)" by fastforce
      obtain r c where l: "cache_lookup now key (hdr_id (msg_header msg)) (sv_cache st1) = (r, c)" by fastforce
      let ?st = "st1\<lparr>sv_cache := c, sv_world := w\<rparr>"
      have front: "handle_front env rq st1 = (case r of None \<Rightarrow> apfst Some (begin_forward env rq msg ?st)
          | Some b \<Rightarrow> (Some (ReplyingCached rq b (msg_qname msg) (msg_qtype msg)), ?st))"
        using Inr s pass key clock l by (simp add: handle_front_def Let_def)
      show ?thesis
      proof (cases r)
        case None
        obtain p st2 where b: "begin_forward env rq msg ?st = (p, st2)" by fastforce
        have "handle env query from bl st = answer_upstream env rq msg ?st"
          unfolding handle front None using up [of ?st] shape b by simp
        then show ?thesis using rq s Inr pass key clock l None by (simp add: handle_straight_def Let_def)
      next
        case (Some b)
        then show ?thesis unfolding handle front using rq s Inr pass key clock l
          by (simp add: handle_straight_def Let_def run_phases.simps split: prod.split sum.split)
      qed
    qed
  qed
qed

section \<open>Properties\<close>



text \<open>
  What is decided without the upstream: malformed datagrams, queries that are refused, and names the
  block rules catch.
\<close>

definition decided_locally :: "bytes \<Rightarrow> blocklist \<Rightarrow> bool" where
  [eval_simps]: "decided_locally query bl \<longleftrightarrow> (case parse query of
       Inl _ \<Rightarrow> True
     | Inr msg \<Rightarrow> length (questions msg) \<noteq> 1 \<or> \<not> is_forwardable_qtype (msg_qtype msg) \<or> blocked (blocklist_match bl (msg_qname msg)))"

definition local_reply :: "bytes \<Rightarrow> bytes list" where
  [eval_simps]: "local_reply query = (case parse query of
       Inl _ \<Rightarrow> []
     | Inr msg \<Rightarrow> [if length (questions msg) \<noteq> 1 \<or> \<not> is_forwardable_qtype (msg_qtype msg) then build_refused_response query msg
                   else block_response (msg_qtype msg) query msg])"

lemma log_record_resolver: "log_record env rq a qn qt r ch u e (st\<lparr>sv_resolver := rs\<rparr>) = (log_record env rq a qn qt r ch u e st)\<lparr>sv_resolver := rs\<rparr>"
  by (simp add: log_record_def Let_def split: prod.split)

lemma print_line_resolver: "print_line l (st\<lparr>sv_resolver := rs\<rparr>) = (print_line l st)\<lparr>sv_resolver := rs\<rparr>"
  by (simp add: print_line_def)

lemma send_reply_resolver: "send_reply env rq b (st\<lparr>sv_resolver := rs\<rparr>) = (send_reply env rq b st)\<lparr>sv_resolver := rs\<rparr>"
  by (simp add: send_reply_def send_to_def handler_error_def print_line_def Let_def split: prod.split sum.split)

lemma send_reply_frame [simp]:
  "sv_cache (send_reply env rq b st) = sv_cache st" "sv_sent (send_reply env rq b st) = sv_sent st @ [(rq_from rq, b)]"
  "sv_logged (send_reply env rq b st) = sv_logged st" "pinned (send_reply env rq b st) = pinned st"
proof -
  obtain r st1 where s: "send_to env b (rq_from rq) st = (r, st1)" by fastforce
  have "send_reply env rq b st = (case r of Inl e \<Rightarrow> print_line (''handler error: '' @ what e) st1 | Inr _ \<Rightarrow> st1)"
    by (simp add: send_reply_def s handler_error_def split: sum.split)
  then show "sv_cache (send_reply env rq b st) = sv_cache st" "sv_sent (send_reply env rq b st) = sv_sent st @ [(rq_from rq, b)]"
    "sv_logged (send_reply env rq b st) = sv_logged st" "pinned (send_reply env rq b st) = pinned st"
    using send_to_frame [OF s] pinned_send [OF s] by (simp_all split: sum.split)
qed

text \<open>C8: A blocked, refused or malformed query never leaves the machine and is never cached: what \<^verbatim>\<open>handle\<close> does
  with it is the same for every resolver, which stays untouched, and so does the cache; the reply is the
  sinkhole of the block rules for a blocked name, REFUSED for a query with other than one question or
  with a type that is not forwarded, and nothing for a malformed datagram.\<close>

theorem local_decisions_stay_local:
  assumes "decided_locally query bl"
  shows "\<exists>st'. (\<forall>rs. handle env query from bl (st\<lparr>sv_resolver := rs\<rparr>) = Some (st'\<lparr>sv_resolver := rs\<rparr>)) \<and>
    sv_cache st' = sv_cache st \<and> sv_sent st' = sv_sent st @ map (Pair from) (local_reply query)"
proof -
  obtain t0 w1 where t0: "he_steady env (sv_world st) = (t0, w1)" by fastforce
  obtain wall w2 where wall: "he_wall env w1 = (wall, w2)" by fastforce
  let ?rq = "\<lparr>rq_query = query, rq_from = from, rq_blocklist = bl, rq_t0 = t0, rq_wallclock_start = wall\<rparr>"
  let ?st = "st\<lparr>sv_world := w2\<rparr>"
  have start: "start_request env query from bl (st\<lparr>sv_resolver := rs\<rparr>) = (?rq, ?st\<lparr>sv_resolver := rs\<rparr>)" for rs
    by (simp add: start_request_def t0 wall)
  show ?thesis
  proof (cases "parse query")
    case (Inl e)
    let ?st1 = "print_line (''drop malformed from '' @ he_show env from @ '': '' @ what e) ?st"
    have "handle env query from bl (st\<lparr>sv_resolver := rs\<rparr>) = Some (?st1\<lparr>sv_resolver := rs\<rparr>)" for rs
      using Inl by (simp add: handle_def start handle_front_def print_line_resolver flip: print_line_resolver)
    then show ?thesis using Inl by (intro exI [of _ ?st1]) (simp add: local_reply_def)
  next
    case (Inr msg)
    have "\<exists>b a rule l. \<forall>rs. handle_front env ?rq (?st\<lparr>sv_resolver := rs\<rparr>) =
        (Some (Replying ?rq b), (log_record env ?rq a (msg_qname msg) (msg_qtype msg) rule [] None None (print_line l ?st))\<lparr>sv_resolver := rs\<rparr>) \<and>
        [b] = local_reply query"
      using assms Inr by (auto simp: handle_front_def decided_locally_def local_reply_def log_record_resolver print_line_resolver Let_def)
    then obtain b st1 where f: "\<And>rs. handle_front env ?rq (?st\<lparr>sv_resolver := rs\<rparr>) = (Some (Replying ?rq b), st1\<lparr>sv_resolver := rs\<rparr>)"
        "[b] = local_reply query" "sv_cache st1 = sv_cache st" "sv_sent st1 = sv_sent st" by force
    have "handle env query from bl (st\<lparr>sv_resolver := rs\<rparr>) = Some ((send_reply env ?rq b st1)\<lparr>sv_resolver := rs\<rparr>)" for rs
      by (simp add: handle_def start f(1) run_replying send_reply_resolver)
    then show ?thesis using f(2-4) by (intro exI [of _ "send_reply env ?rq b st1"]) (simp flip: f(2))
  qed
qed

lemma sample_blocked: "blocked (blocklist_match (empty_blocklist\<lparr>bl_exact := {''ad.x''}\<rparr>) ''ad.x'')"
  by (simp add: eval_simps find_suffix_from.simps)

theorem local_decisions_stay_local_witness:
  "\<exists>st'. (\<forall>rs. handle sample_handler_env sample_query () (empty_blocklist\<lparr>bl_exact := {''ad.x''}\<rparr>) (sample_state\<lparr>sv_resolver := rs\<rparr>)
       = Some (st'\<lparr>sv_resolver := rs\<rparr>)) \<and> length (sv_sent st') = 1"
proof -
  have "decided_locally sample_query (empty_blocklist\<lparr>bl_exact := {''ad.x''}\<rparr>)" "length (local_reply sample_query) = 1"
    unfolding decided_locally_def local_reply_def parse_sample_query using sample_blocked by (simp_all add: msg_qname_def)
  with local_decisions_stay_local [OF this(1), of sample_handler_env "()" sample_state] sample_state_ok(2) show ?thesis
    by (metis append_Nil length_map)
qed

text \<open>C9: A cloaked tracker is not served. When the cache has no answer, the upstream answered an address query and
  the uncloaker found a blocked name behind it, the client gets the sinkhole answer of its query type;
  when the uncloaker gave up, the client gets SERVFAIL. In neither case does the upstream's answer reach
  the client or the cache.\<close>

theorem cloaked_answers_withheld:
  assumes "resolver_shape (sv_resolver st)"
    and "start_request env query from bl st = (rq, st0)" "parse query = Inr msg" "\<not> decided_locally query bl"
    and "make_cache_key msg = Some key" "he_steady env (sv_world st0) = (now, w0)"
    and "cache_lookup now key (hdr_id (msg_header msg)) (sv_cache st0) = (None, c)"
    and "is_address_qtype (msg_qtype msg)"
    and "forward (he_draw_id env) query (sv_resolver st0) w0 = (Inr fwd, rs, w)"
    and "uncloak (he_draw_id env) (sv_uncloak_blocklist st0) (sv_max_depth st0) (msg_qname msg) (fwd_response fwd) rs w = (result, rs', w')"
    and "un_status result \<noteq> UnClean"
  shows "\<exists>st'. handle env query from bl st = Some st' \<and> sv_cache st' = c \<and>
    sv_sent st' = sv_sent st @ [(from, if un_status result = UnBlocked then block_response (msg_qtype msg) query msg else build_servfail_response query msg)]"
proof -
  note s = start_request_frame [OF assms(2)]
  let ?st1 = "st0\<lparr>sv_cache := c, sv_world := w0\<rparr>"
  let ?b = "if un_status result = UnBlocked then block_response (msg_qtype msg) query msg else build_servfail_response query msg"
  have sent: "sv_sent st0 = sv_sent st" by (subst s(4)) simp
  obtain st2 where f: "finish_uncloak env rq msg fwd result (moved ?st1 rs' w') = Some (Replying rq ?b, st2)" "sv_cache st2 = c" "sv_sent st2 = sv_sent st0"
    using assms(8,11) s by (cases "un_status result") (auto simp: finish_uncloak_def block_response_def is_address_qtype_def Let_def kTypeA_def kTypeAAAA_def)
  have "resolve_straight env rq msg ?st1 = Some (Replying rq ?b, st2)"
    using assms(8-10) s f(1) by (simp add: resolve_straight_def)
  then have "handle_straight env query from bl st = Some (send_reply env rq ?b st2)"
    using assms(2-7) by (simp add: handle_straight_def decided_locally_def answer_upstream_def Let_def)
  then show ?thesis using run_rest_def f(2,3) s sent handle_straight_eq [OF assms(1)] by simp
qed

abbreviation tracker_rules :: blocklist where
  "tracker_rules \<equiv> empty_blocklist\<lparr>bl_exact := {''t.y''}\<rparr>"

definition sample_request :: "unit request" where
  "sample_request = \<lparr>rq_query = sample_query, rq_from = (), rq_blocklist = tracker_rules, rq_t0 = 0, rq_wallclock_start = 0\<rparr>"

lemma tracker_match: "blocked (blocklist_match tracker_rules ''t.y'')" "\<not> blocked (blocklist_match tracker_rules ''ad.x'')"
  by (simp_all add: eval_simps find_suffix_from.simps)

lemma sample_walk: "\<exists>walk. walk_answers sample_message sample_response ''ad.x'' = Inr walk \<and> new_hops walk = [''t.y'']"
  by (simp add: walk_answers_def sample_message_def decode_name_at_def decode_name_def decode_name_loop.simps eval_simps char_of_eq_iff)

lemma sample_uncloak:
  "\<exists>result. uncloak sample_draw tracker_rules 8 ''ad.x'' sample_response rs () = (result, rs, ()) \<and> un_status result = UnBlocked"
proof -
  obtain walk where "walk_answers sample_message sample_response ''ad.x'' = Inr walk" "new_hops walk = [''t.y'']" using sample_walk by blast
  then show ?thesis using tracker_match(1)
    by (simp add: uncloak_def uncloak_loop.simps parse_sample_message Let_def)
qed

theorem cloaked_answers_withheld_witness:
  "\<exists>st' b. handle sample_handler_env sample_query () tracker_rules (sample_state\<lparr>sv_uncloak_blocklist := tracker_rules\<rparr>) = Some st' \<and>
     sv_sent st' = [((), build_block_a_response sample_query b)]"
proof -
  obtain msg where msg: "parse sample_query = Inr msg" "questions msg = [\<lparr>q_name = ''ad.x'', q_type = 1, q_class = 1\<rparr>]"
    using parse_sample_query by simp
  let ?st = "sample_state\<lparr>sv_uncloak_blocklist := tracker_rules\<rparr>"
  let ?rs = "sample_resolver\<lparr>rs_counters := [\<lparr>queries_answered = 1, timeouts = 0\<rparr>]\<rparr>"
  have shape: "resolver_shape (sv_resolver ?st)" using sample_state_ok(1) by (simp add: server_ok_def)
  have start: "start_request sample_handler_env sample_query () tracker_rules ?st = (sample_request, ?st)"
    by (simp add: start_request_def sample_handler_env_def sample_request_def)
  have q: "msg_qname msg = ''ad.x''" "msg_qtype msg = kTypeA" using msg(2) by (simp_all add: msg_qname_def msg_qtype_def kTypeA_def)
  have far: "\<not> decided_locally sample_query tracker_rules"
    using msg q tracker_match(2) by (simp add: decided_locally_def is_forwardable_qtype_def kTypeA_def)
  obtain key where key: "make_cache_key msg = Some key" using msg(2) by (simp add: make_cache_key_def)
  obtain c where miss: "cache_lookup 0 key (hdr_id (msg_header msg)) (sv_cache ?st) = (None, c)"
    by (simp add: cache_lookup_def sample_state_def empty_cache_def)
  have f: "forward (he_draw_id sample_handler_env) sample_query (sv_resolver ?st) () =
      (Inr \<lparr>fwd_response = sample_response, fwd_upstream = ''1.1.1.1:53'', fwd_ech_status = NotTried\<rparr>, ?rs, ())"
    using sample_forward by (simp add: sample_handler_env_def sample_state_def)
  obtain result where u: "uncloak sample_draw tracker_rules 8 ''ad.x'' sample_response ?rs () = (result, ?rs, ())" "un_status result = UnBlocked"
    using sample_uncloak by blast
  have clock: "he_steady sample_handler_env (sv_world ?st) = (0, ())" by (simp add: sample_handler_env_def)
  from cloaked_answers_withheld [OF shape start msg(1) far key clock miss _ f] u q show ?thesis
    by (auto simp: is_address_qtype_def sample_handler_env_def block_response_def sample_state_def)
qed

end
