(* ===== verification/Work.thy ===== *)
theory Work
  imports Handler
begin

text \<open>
  How much one query can cost. A phase is given the number of awaits its handler can still go through; every
  resume uses up at least one of them, whatever runs in between. With \<open>a\<close> attempts on the primary upstream, \<open>n\<close> upstreams and a
  chain of at most \<open>d\<close> names, a query leads to at most \<open>(a + n - 1) * d\<close> exchanges with upstreams and one send.
\<close>

section \<open>Exchanges of one forward\<close>

definition frame_cost :: "nat \<Rightarrow> fwd_frame \<Rightarrow> nat" where
  "frame_cost n fr = fr_left fr + (n - 1 - fr_adapter fr)"

definition forward_cost :: "'w resolver \<Rightarrow> nat" where
  "forward_cost rs = nat (1 + retries_on_primary (rs_cfg rs)) + (length (rs_adapters rs) - 1)"

lemma forward_seek_cost: "forward_seek n j i left = Inr fr \<Longrightarrow> frame_cost n fr \<le> left + (n - 1 - i)"
  by (auto simp: forward_seek_def frame_cost_def split: if_splits)

lemma forward_begin_cost:
  assumes "forward_begin draw_id query rs w = (Inr fr, w')"
  shows "frame_cost (length (rs_adapters rs)) fr \<le> forward_cost rs"
  using assms by (auto simp: forward_begin_def forward_cost_def Let_def dest!: forward_seek_cost split: if_splits prod.splits)

lemma forward_exchange_cost:
  assumes "forward_exchange fr rs w = (Inr (Inr fr'), rs', w')" "frame_ok (length (rs_adapters rs)) fr"
  shows "frame_cost (length (rs_adapters rs)) fr' < frame_cost (length (rs_adapters rs)) fr"
proof -
  have "forward_seek (length (rs_adapters rs)) (fr_job fr) (fr_adapter fr) (fr_left fr - 1) = Inr fr'"
    using assms(1) by (cases rule: forward_exchange_cases) (auto simp: map_sum_Inr_iff dest: sym)
  from forward_seek_cost [OF this] assms(2) show ?thesis by (auto simp: frame_cost_def frame_ok_def)
qed

lemma frame_cost_pos: "frame_ok n fr \<Longrightarrow> 0 < frame_cost n fr"
  by (simp add: frame_ok_def frame_cost_def)

section \<open>Awaits of one handler\<close>

fun phase_cost :: "('f, 'w) server_state \<Rightarrow> 'f phase \<Rightarrow> nat" where
  "phase_cost st (Replying _ _) = 1"
| "phase_cost st (ReplyingCached _ _ _ _) = 1"
| "phase_cost st (Forwarding _ _ fr) = 1 + frame_cost (length (rs_adapters (sv_resolver st))) fr + nat (sv_max_depth st - 1) * forward_cost (sv_resolver st)"
| "phase_cost st (Uncloaking _ _ _ uf fr) =
     1 + frame_cost (length (rs_adapters (sv_resolver st))) fr + chain_left (sv_max_depth st) uf * forward_cost (sv_resolver st)"

definition query_cost :: "('f, 'w) server_state \<Rightarrow> nat" where
  "query_cost st = 1 + forward_cost (sv_resolver st) * nat (max 1 (sv_max_depth st))"

lemma phase_cost_pinned:
  assumes "pinned st' = pinned st"
  shows "phase_cost st' p = phase_cost st p" "query_cost st' = query_cost st"
  by (cases p) (simp_all add: forward_cost_def query_cost_def pinned_eq [OF assms])

lemma phase_cost_pos: "0 < phase_cost st p"
  by (cases p) simp_all

lemma one_more_turn:
  assumes "c' < c" "x \<le> (F :: nat)"
  shows "x + c' * F \<le> c * F"
proof -
  have "x + c' * F \<le> Suc c' * F" using assms(2) by simp
  also have "\<dots> \<le> c * F" using assms(1) by (intro mult_le_mono1) simp
  finally show ?thesis .
qed

lemma continue_cost:
  assumes "uncloak_continue draw_id bl d current uf rs w = (Inr (uf', fr), w')"
  shows "frame_cost (length (rs_adapters rs)) fr + chain_left d uf' * forward_cost rs \<le> chain_left d uf * forward_cost rs"
proof (rule one_more_turn [OF uncloak_continue_frame(1) [OF assms]])
  show "frame_cost (length (rs_adapters rs)) fr \<le> forward_cost rs"
    using assms forward_begin_cost by (auto simp: uncloak_continue_def split: sum.splits prod.splits)
qed

lemma begin_forward_cost:
  assumes "begin_forward env rq msg st = (p, st')"
  shows "phase_cost st' p \<le> query_cost st"
proof -
  have pin: "pinned st' = pinned st" using begin_forward_pinned [of env rq msg st] assms by simp
  obtain x w where x: "forward_begin (he_draw_id env) (rq_query rq) (sv_resolver st) (sv_world st) = (x, w)" by fastforce
  show ?thesis
  proof (cases x)
    case (Inr fr)
    let ?F = "forward_cost (sv_resolver st)"
    have "nat (max 1 (sv_max_depth st)) = Suc (nat (sv_max_depth st - 1))" by linarith
    then have "?F * nat (max 1 (sv_max_depth st)) = ?F + nat (sv_max_depth st - 1) * ?F" by (simp add: mult.commute)
    then show ?thesis using assms x Inr forward_begin_cost [OF x [unfolded Inr]]
      unfolding phase_cost_pinned(1) [OF pin] by (auto simp: begin_forward_def query_cost_def)
  qed (use assms x in \<open>auto simp: begin_forward_def forward_failed_def query_cost_def\<close>)
qed

lemma front_cost:
  assumes "handle_front env rq st = (Some p, st')"
  shows "phase_cost st' p \<le> query_cost st"
  using assms
proof (cases rule: handle_front_cases)
  case (CacheMiss msg key now w c p')
  have "pinned (st\<lparr>sv_cache := c, sv_world := w\<rparr>) = pinned st" using cache_lookup_cfg [OF CacheMiss(5)] by (simp add: pinned_cache)
  from begin_forward_cost [OF CacheMiss(7)] phase_cost_pinned(2) [OF this] CacheMiss(6) show ?thesis by simp
qed (simp_all add: query_cost_def)

lemma after_uncloak_cost:
  assumes "after_uncloak env rq msg fwd x st = Some (p, st')"
    and "\<And>uf fr. x = Inr (uf, fr) \<Longrightarrow>
      frame_cost (length (rs_adapters (sv_resolver st))) fr + chain_left (sv_max_depth st) uf * forward_cost (sv_resolver st) \<le> c"
  shows "phase_cost st' p \<le> 1 + c"
  using assms(1) by (cases rule: after_uncloak_cases) (use assms(2) in auto)

lemma resume_forward_cost:
  assumes "frame_ok (length (rs_adapters (sv_resolver st))) fr" "resume env (Forwarding rq msg fr) st = Some (Some p, st')"
  shows "phase_cost st' p < phase_cost st (Forwarding rq msg fr)"
proof -
  let ?n = "length (rs_adapters (sv_resolver st))" and ?F = "forward_cost (sv_resolver st)" and ?d = "sv_max_depth st"
  obtain x rs w where x: "forward_exchange fr (sv_resolver st) (sv_world st) = (x, rs, w)" by (metis prod.exhaust)
  let ?st = "st\<lparr>sv_resolver := rs, sv_world := w\<rparr>"
  have pin: "pinned ?st = pinned st" using pinned_exchange [OF x] by simp
  note same = phase_cost_pinned(1) [OF pin] and eq = pinned_eq [OF pin]
  consider e where "x = Inl e" | fwd where "x = Inr (Inl fwd)" | fr' where "x = Inr (Inr fr')" by (metis old.sum.exhaust)
  then show ?thesis
  proof cases
    case 1
    then show ?thesis using assms x frame_cost_pos by (auto simp: forward_failed_def)
  next
    case 2
    then have a: "after_forward env rq msg fwd ?st = Some (p, st')" using assms(2) x by auto
    have "phase_cost st' p \<le> 1 + nat (?d - 1) * ?F"
    proof (cases "is_address_qtype (msg_qtype msg)")
      case True
      obtain y w2 where y: "uncloak_begin (he_draw_id env) (sv_uncloak_blocklist ?st) (sv_max_depth ?st) (msg_qname msg) (fwd_response fwd) (sv_resolver ?st)
          (sv_world ?st) = (y, w2)" by fastforce
      have "frame_cost (length (rs_adapters (sv_resolver (?st\<lparr>sv_world := w2\<rparr>)))) fr' + chain_left (sv_max_depth (?st\<lparr>sv_world := w2\<rparr>)) uf * forward_cost (sv_resolver (?st\<lparr>sv_world := w2\<rparr>))
          \<le> nat (?d - 1) * ?F" if "y = Inr (uf, fr')" for uf fr'
        using continue_cost [OF y [unfolded that uncloak_begin_def]] eq
        by (simp add: chain_left_def uncloak_start_def forward_cost_def)
      moreover have "after_uncloak env rq msg fwd y (?st\<lparr>sv_world := w2\<rparr>) = Some (p, st')" using a True y by (simp add: after_forward_def)
      ultimately show ?thesis using after_uncloak_cost by blast
    qed (use a in \<open>auto simp: after_forward_def\<close>)
    then show ?thesis using frame_cost_pos [OF assms(1)] by simp
  next
    case 3
    then show ?thesis using assms x forward_exchange_cost [OF x [unfolded 3] assms(1)] same by auto
  qed
qed

lemma resume_uncloak_cost:
  assumes "frame_ok (length (rs_adapters (sv_resolver st))) fr" "resume env (Uncloaking rq msg fwd uf fr) st = Some (Some p, st')"
  shows "phase_cost st' p < phase_cost st (Uncloaking rq msg fwd uf fr)"
proof -
  let ?n = "length (rs_adapters (sv_resolver st))" and ?F = "forward_cost (sv_resolver st)" and ?d = "sv_max_depth st"
  obtain x rs w where x: "uncloak_exchange (he_draw_id env) (sv_uncloak_blocklist st) ?d uf fr (sv_resolver st) (sv_world st) = (x, rs, w)"
    by (metis prod.exhaust)
  let ?st = "st\<lparr>sv_resolver := rs, sv_world := w\<rparr>"
  note eq = pinned_eq [OF pinned_uncloak_exchange [OF x]]
  have F: "forward_cost rs = ?F" using uncloak_exchange_resolver [OF x] by (simp add: forward_cost_def)
  obtain y rs1 w1 where y: "forward_exchange fr (sv_resolver st) (sv_world st) = (y, rs1, w1)" by (metis prod.exhaust)
  have next_cost: "frame_cost ?n fr' + chain_left ?d uf' * ?F < frame_cost ?n fr + chain_left ?d uf * ?F" if nx: "x = Inr (uf', fr')" for uf' fr'
  proof -
    consider g where "y = Inr (Inl g)" "rs1 = rs" "uncloak_continue (he_draw_id env) (sv_uncloak_blocklist st) ?d (fwd_response g) uf rs1 w1 = (Inr (uf', fr'), w)"
      | "y = Inr (Inr fr')" "uf' = uf" using x y nx by (auto simp: uncloak_exchange_def split: sum.splits prod.splits)
    then show ?thesis
    proof cases
      case 1
      then show ?thesis using continue_cost [OF 1(3)] F uncloak_exchange_resolver(1) [OF x] frame_cost_pos [OF assms(1)] by simp
    next
      case 2
      then show ?thesis using forward_exchange_cost [OF _ assms(1)] y by simp
    qed
  qed
  have a: "after_uncloak env rq msg fwd x ?st = Some (p, st')" using assms(2) x by auto
  then show ?thesis
  proof (cases rule: after_uncloak_cases)
    case (Done b)
    then show ?thesis using frame_cost_pos [OF assms(1)] by simp
  next
    case (Waits uf' fr')
    then show ?thesis using next_cost [OF Waits(1)] F uncloak_exchange_resolver(1) [OF x] by simp
  qed
qed

lemma resume_cost:
  assumes "phase_ok st p" "resume env p st = Some (Some p', st')"
  shows "phase_cost st' p' < phase_cost st p"
proof (cases p)
  case (Replying rq b)
  then show ?thesis using assms(2) by (auto split: prod.splits sum.splits)
next
  case (ReplyingCached rq b n t)
  then show ?thesis using assms(2) by (auto simp: Let_def split: prod.splits sum.splits)
next
  case (Forwarding rq msg fr)
  then have "frame_ok (length (rs_adapters (sv_resolver st))) fr" using assms(1) by (simp add: waits_for_def)
  from resume_forward_cost [OF this] assms(2) Forwarding show ?thesis by blast
next
  case (Uncloaking rq msg fwd uf fr)
  then have "frame_ok (length (rs_adapters (sv_resolver st))) fr" using assms(1) by (auto simp: waits_for_def)
  from resume_uncloak_cost [OF this] assms(2) Uncloaking show ?thesis by blast
qed

section \<open>Awaits of a run\<close>

definition open_cost :: "('f, 'w) server_state \<Rightarrow> 'f phase list \<Rightarrow> nat" where
  "open_cost st ps = sum_list (map (phase_cost st) ps)"

lemma open_cost_pinned: "pinned st' = pinned st \<Longrightarrow> open_cost st' ps = open_cost st ps"
  using phase_cost_pinned(1) [of st' st] by (simp add: open_cost_def cong: map_cong)

lemma step_cost:
  assumes "handler_step env m ev m'" "machine_ok got m"
  shows "open_cost (fst m') (snd m') + (if is_resume ev then 1 else 0) \<le> open_cost (fst m) (snd m) + length (received [ev]) * query_cost (fst m)"
  using assms(1)
proof (cases rule: handler_step.cases)
  case (step_receive buf f bl st p st' ps)
  obtain rq st1 where rq: "start_request env (take kReceiveBuffer buf) f bl st = (rq, st1)" by fastforce
  have pin1: "pinned st1 = pinned st" by (subst start_request_frame(4) [OF rq]) simp
  have front: "handle_front env rq st1 = (p, st')" using step_receive(4) rq by (simp add: receive_def)
  have pin: "pinned st' = pinned st" using front_pinned [OF front] pin1 by simp
  show ?thesis using step_receive front_cost [of env rq st1 _ st'] front open_cost_pinned [OF pin, of ps] phase_cost_pinned(2) [OF pin1]
    by (cases p) (auto simp: open_cost_def)
next
  case (step_resume i ps st p st')
  have pin: "pinned st' = pinned st" using resume_pinned [OF step_resume(5)] .
  have ok: "phase_ok st (ps ! i)" using assms(2) step_resume machine_okD(2) by force
  have split: "open_cost st ps = phase_cost st (ps ! i) + open_cost st (take i ps @ drop (Suc i) ps)"
    using id_take_nth_drop [OF step_resume(4)] by (metis (no_types, lifting) map_append open_cost_def list.simps(9) sum_list.append sum_list.Cons add.left_commute)
  show ?thesis
  proof (cases p)
    case None
    then show ?thesis using step_resume split phase_cost_pos [of st "ps ! i"] open_cost_pinned [OF pin] by simp
  next
    case (Some p')
    then have "phase_cost st' p' < phase_cost st (ps ! i)" using resume_cost [OF ok] step_resume(5) by simp
    then show ?thesis using step_resume Some split open_cost_pinned [OF pin, of "take i ps @ drop (Suc i) ps"] by (simp add: open_cost_def)
  qed
next
  case (step_cache_sweep now st n c ps)
  have "cache_cfg c = cache_cfg (sv_cache st)" using sweep_expired_cfg [of now "sv_cache st"] step_cache_sweep(4) by simp
  then have "pinned (st\<lparr>sv_cache := c\<rparr>) = pinned st" by (rule pinned_cache)
  then show ?thesis using step_cache_sweep open_cost_pinned [of "st\<lparr>sv_cache := c\<rparr>" st ps] by simp
next
  case (step_write_log st lg fs ps)
  then show ?thesis using open_cost_pinned [of "st\<lparr>sv_logger := lg, sv_fs := fs\<rparr>" st ps] by (simp add: pinned_def)
next
  case (step_outside st ps w lines)
  then show ?thesis using open_cost_pinned [of "st\<lparr>sv_console := sv_console st @ lines, sv_world := w\<rparr>" st ps] by (simp add: pinned_def)
qed

lemma run_cost:
  assumes "run_steps (handler_step env) (st0, []) evs m" "server_ok st0" "sv_sent st0 = []"
  shows "length (filter is_resume evs) + open_cost (fst m) (snd m) \<le> length (received evs) * query_cost st0"
  using assms
proof (induction rule: run_steps.induct)
  case run_Nil
  then show ?case by (simp add: open_cost_def)
next
  case (run_snoc evs m ev m')
  have "machine_ok [] (st0, [])" using run_snoc.prems by (simp add: machine_ok_def)
  from run_ok [OF run_snoc.hyps(1) this] have ok: "machine_ok (received evs) m" .
  have "query_cost (fst m) = query_cost st0" using phase_cost_pinned(2) [OF handler_run_pinned [OF run_snoc.hyps(1)]] by simp
  then show ?case using step_cost [OF run_snoc.hyps(2) ok] run_snoc.IH [OF run_snoc.prems]
    by (cases "is_resume ev") (simp_all add: algebra_simps)
qed

end
