(* ===== verification/LogThreads.thy ===== *)
theory LogThreads
  imports QueryLog
begin

text \<open>
  The threads of \<^verbatim>\<open>query_log.cpp\<close> at the granularity of the mutex and of the condition variable: the writer, any
  number of threads that call \<^verbatim>\<open>log\<close> and \<^verbatim>\<open>flush\<close>, and the destructor. What runs under \<^verbatim>\<open>mu_\<close> is one step;
  waiting releases the mutex; \<^verbatim>\<open>notify_one\<close> comes after the mutex was released and wakes any one of the threads
  that wait, and a thread may wake for no reason. Seen from outside, the logger behaves as the atomic
  records and bursts of \<open>QueryLog\<close> say, queued records do not stay behind, and the destructor returns. A
  \<^verbatim>\<open>flush\<close> concurrent to \<^verbatim>\<open>log\<close> is the exception: it can take the wakeup meant for the writer.
\<close>

section \<open>Definitions\<close>

text \<open>The writer: about to test the loop condition, in \<^verbatim>\<open>cv_.wait\<close>, woken and about to test the predicate, returned.\<close>

datatype writer_pc = WLoop | WWait | WWoken | WDone

text \<open>A client: outside, in \<^verbatim>\<open>log\<close> in front of \<^verbatim>\<open>notify_one\<close>, in \<^verbatim>\<open>flush\<close> waiting, or woken there.\<close>

datatype client_pc = CIdle | CNotify | CFlushWait | CFlushWoken

record log_threads =
  lt_lg :: query_logger
  lt_fs :: log_fs
  lt_stopping :: bool
  lt_writer :: writer_pc
  lt_clients :: "client_pc list"
  lt_owner :: owner_pc

definition start_threads :: "log_env \<Rightarrow> logger_config \<Rightarrow> log_fs \<Rightarrow> nat \<Rightarrow> log_threads" where
  [eval_simps]: "start_threads env c fs n =
     (let (lg, fs) = make_logger env c fs in
      \<lparr>lt_lg = lg, lt_fs = fs, lt_stopping = False, lt_writer = if lg_writer lg then WLoop else WDone, lt_clients = replicate n CIdle, lt_owner = Alive\<rparr>)"

definition notify_all :: "log_threads \<Rightarrow> log_threads" where
  [eval_simps]: "notify_all s = s\<lparr>lt_writer := if lt_writer s = WWait then WWoken else lt_writer s,
     lt_clients := map (\<lambda>p. if p = CFlushWait then CFlushWoken else p) (lt_clients s)\<rparr>"

text \<open>The condition of the writer's loop and the predicate of its wait: where the writer stops, or \<open>None\<close> when it goes on to write.\<close>

definition wait_test :: "bool \<Rightarrow> string list \<Rightarrow> writer_pc option" where
  [eval_simps]: "wait_test stopping queue = (if stopping \<or> queue \<noteq> [] then None else Some WWait)"

definition loop_test :: "bool \<Rightarrow> string list \<Rightarrow> writer_pc option" where
  [eval_simps]: "loop_test stopping queue = (if \<not> stopping \<or> queue \<noteq> [] then wait_test stopping queue else Some WDone)"

text \<open>The writer from taking the mutex to releasing it, at a wait or at its end: at most one burst, behind which the queue is empty.\<close>

definition writer_turn :: "log_env \<Rightarrow> log_threads \<Rightarrow> log_threads" where
  [eval_simps]: "writer_turn env s =
     (case (if lt_writer s = WLoop then loop_test else wait_test) (lt_stopping s) (lg_queue (lt_lg s)) of
        Some pc \<Rightarrow> s\<lparr>lt_writer := pc\<rparr>
      | None \<Rightarrow>
          let (lg, fs) = drain env (lt_lg s) (lt_fs s); s = notify_all (s\<lparr>lt_lg := lg, lt_fs := fs\<rparr>) in
          s\<lparr>lt_writer := (case loop_test (lt_stopping s) (lg_queue lg) of Some pc \<Rightarrow> pc | None \<Rightarrow> WWoken)\<rparr>)"

text \<open>\<^verbatim>\<open>log\<close> reaches its \<^verbatim>\<open>notify_one\<close> when it has queued the line.\<close>

definition log_queues :: "query_logger \<Rightarrow> bool" where
  [eval_simps]: "log_queues lg \<longleftrightarrow> lc_path (lg_cfg lg) \<noteq> [] \<and> lc_async (lg_cfg lg) \<and> length (lg_queue lg) < lc_queue_size (lg_cfg lg)"

definition log_call :: "log_env \<Rightarrow> nat \<Rightarrow> query_log \<Rightarrow> log_threads \<Rightarrow> log_threads" where
  [eval_simps]: "log_call env i r s =
     (let (lg, fs) = log_query env r (lt_lg s) (lt_fs s) in
      s\<lparr>lt_lg := lg, lt_fs := fs, lt_clients := (lt_clients s)[i := if log_queues (lt_lg s) then CNotify else CIdle]\<rparr>)"

text \<open>\<^verbatim>\<open>flush\<close> with the mutex: done, or waiting.\<close>

definition flush_turn :: "nat \<Rightarrow> log_threads \<Rightarrow> log_threads" where
  [eval_simps]: "flush_turn i s = s\<lparr>lt_clients := (lt_clients s)[i := if lg_queue (lt_lg s) = [] then CIdle else CFlushWait]\<rparr>"

text \<open>The end of the destructor, behind the join.\<close>

definition destroy_rest :: "log_env \<Rightarrow> log_threads \<Rightarrow> log_threads" where
  [eval_simps]: "destroy_rest env s =
     (let (lg, fs) = drain env ((lt_lg s)\<lparr>lg_writer := False\<rparr>) (lt_fs s) in s\<lparr>lt_lg := lg, lt_fs := fs, lt_owner := Destroyed\<rparr>)"

datatype log_thread_event =
    WriterTurn
  | LogCall nat query_log
  | NotifyOne nat
  | FlushCall nat
  | FlushTurn nat
  | SpuriousWriter
  | SpuriousFlush nat
  | DestroyCall
  | DestroyNotify
  | DestroyJoin

text \<open>The destructor may only run when no other thread is inside the logger.\<close>

inductive log_thread_step :: "log_env \<Rightarrow> log_threads \<Rightarrow> log_thread_event \<Rightarrow> log_threads \<Rightarrow> bool" for env :: log_env where
  writer_run: "lt_writer s = WLoop \<or> lt_writer s = WWoken \<Longrightarrow> log_thread_step env s WriterTurn (writer_turn env s)"
| client_log: "lt_owner s = Alive \<Longrightarrow> i < length (lt_clients s) \<Longrightarrow> lt_clients s ! i = CIdle \<Longrightarrow>
    log_thread_step env s (LogCall i r) (log_call env i r s)"
| notify_writer: "i < length (lt_clients s) \<Longrightarrow> lt_clients s ! i = CNotify \<Longrightarrow> lt_writer s = WWait \<Longrightarrow>
    log_thread_step env s (NotifyOne i) (s\<lparr>lt_writer := WWoken, lt_clients := (lt_clients s)[i := CIdle]\<rparr>)"
| notify_flush: "i < length (lt_clients s) \<Longrightarrow> lt_clients s ! i = CNotify \<Longrightarrow> j < length (lt_clients s) \<Longrightarrow> lt_clients s ! j = CFlushWait \<Longrightarrow>
    log_thread_step env s (NotifyOne i) (s\<lparr>lt_clients := (lt_clients s)[i := CIdle, j := CFlushWoken]\<rparr>)"
| notify_nobody: "i < length (lt_clients s) \<Longrightarrow> lt_clients s ! i = CNotify \<Longrightarrow> lt_writer s \<noteq> WWait \<Longrightarrow> CFlushWait \<notin> set (lt_clients s) \<Longrightarrow>
    log_thread_step env s (NotifyOne i) (s\<lparr>lt_clients := (lt_clients s)[i := CIdle]\<rparr>)"
| client_flush: "lt_owner s = Alive \<Longrightarrow> i < length (lt_clients s) \<Longrightarrow> lt_clients s ! i = CIdle \<Longrightarrow>
    log_thread_step env s (FlushCall i) (flush_turn i s)"
| flush_again: "i < length (lt_clients s) \<Longrightarrow> lt_clients s ! i = CFlushWoken \<Longrightarrow> log_thread_step env s (FlushTurn i) (flush_turn i s)"
| spurious_writer: "lt_writer s = WWait \<Longrightarrow> log_thread_step env s SpuriousWriter (s\<lparr>lt_writer := WWoken\<rparr>)"
| spurious_flush: "i < length (lt_clients s) \<Longrightarrow> lt_clients s ! i = CFlushWait \<Longrightarrow>
    log_thread_step env s (SpuriousFlush i) (s\<lparr>lt_clients := (lt_clients s)[i := CFlushWoken]\<rparr>)"
| destroy_thread: "lt_owner s = Alive \<Longrightarrow> set (lt_clients s) \<subseteq> {CIdle} \<Longrightarrow> lg_writer (lt_lg s) \<Longrightarrow>
    log_thread_step env s DestroyCall (s\<lparr>lt_stopping := True, lt_owner := StopNotify\<rparr>)"
| destroy_plainly: "lt_owner s = Alive \<Longrightarrow> set (lt_clients s) \<subseteq> {CIdle} \<Longrightarrow> \<not> lg_writer (lt_lg s) \<Longrightarrow>
    log_thread_step env s DestroyCall (destroy_rest env s)"
| destroy_notify: "lt_owner s = StopNotify \<Longrightarrow> log_thread_step env s DestroyNotify ((notify_all s)\<lparr>lt_owner := Joining\<rparr>)"
| destroy_join: "lt_owner s = Joining \<Longrightarrow> lt_writer s = WDone \<Longrightarrow> log_thread_step env s DestroyJoin (destroy_rest env s)"

section \<open>What the operations leave alone\<close>

lemma write_one_keeps: "write_one env line lg fs = (lg', fs') \<Longrightarrow> lg_writer lg' = lg_writer lg \<and> lg_queue lg' = lg_queue lg \<and> lg_cfg lg' = lg_cfg lg"
  by (auto simp: write_one_def maybe_rotate_def Let_def split: if_splits prod.splits bool.splits)

lemma write_lines_keeps: "write_lines env lines lg fs = (lg', fs') \<Longrightarrow> lg_writer lg' = lg_writer lg \<and> lg_queue lg' = lg_queue lg \<and> lg_cfg lg' = lg_cfg lg"
proof (induction lines arbitrary: lg fs)
  case (Cons line lines)
  obtain lg1 fs1 where "write_one env line lg fs = (lg1, fs1)" by fastforce
  with Cons write_one_keeps [OF this] show ?case by auto
qed simp

lemma drain_keeps: "drain env lg fs = (lg', fs') \<Longrightarrow> lg_writer lg' = lg_writer lg \<and> lg_queue lg' = [] \<and> lg_cfg lg' = lg_cfg lg"
  using write_lines_keeps [of env "lg_queue lg" "lg\<lparr>lg_queue := []\<rparr>" fs lg' fs'] by (simp add: drain_def)

lemma drain_nothing: "lg_queue lg = [] \<Longrightarrow> drain env lg fs = (lg, fs)"
  by (simp add: drain_def)

lemma log_query_keeps: "log_query env r lg fs = (lg', fs') \<Longrightarrow> lg_writer lg' = lg_writer lg \<and> (\<not> log_queues lg \<longrightarrow> lg_queue lg' = lg_queue lg)"
  by (auto simp: log_query_def log_queues_def Let_def dest: write_one_keeps split: if_splits)

text \<open>A turn of the writer is a burst, which writes nothing when nothing is queued; then it waits, or ends if it has to stop.\<close>

lemma writer_turn_burst:
  assumes "lt_writer s = WLoop \<or> lt_writer s = WWoken" "writer_turn env s = s'"
  shows "drain env (lt_lg s) (lt_fs s) = (lt_lg s', lt_fs s')" "lt_writer s' = (if lt_stopping s then WDone else WWait)"
    "lt_stopping s' = lt_stopping s" "lt_owner s' = lt_owner s"
    "lt_clients s' = lt_clients s \<or> lt_clients s' = lt_clients (notify_all s)"
proof -
  obtain lg fs where d: "drain env (lt_lg s) (lt_fs s) = (lg, fs)" by fastforce
  let ?test = "(if lt_writer s = WLoop then loop_test else wait_test) (lt_stopping s) (lg_queue (lt_lg s))"
  have idle: "lg_queue (lt_lg s) = []" "pc = (if lt_stopping s then WDone else WWait)" if "?test = Some pc" for pc
    using that assms(1) by (auto simp: loop_test_def wait_test_def split: if_splits)
  have "s' = s\<lparr>lt_writer := if lt_stopping s then WDone else WWait\<rparr> \<and> (lg, fs) = (lt_lg s, lt_fs s) \<or>
      s' = (notify_all (s\<lparr>lt_lg := lg, lt_fs := fs\<rparr>))\<lparr>lt_writer := if lt_stopping s then WDone else WWait\<rparr>"
  proof (cases ?test)
    case None
    have "loop_test (lt_stopping s) [] = Some (if lt_stopping s then WDone else WWait)" by (simp add: loop_test_def wait_test_def)
    with None assms(2) d drain_keeps [OF d] show ?thesis by (auto simp: writer_turn_def notify_all_def)
  next
    case (Some pc)
    with assms(2) idle [OF Some] d drain_nothing [of "lt_lg s" env "lt_fs s"] show ?thesis by (auto simp: writer_turn_def)
  qed
  then show "drain env (lt_lg s) (lt_fs s) = (lt_lg s', lt_fs s')" "lt_writer s' = (if lt_stopping s then WDone else WWait)"
    "lt_stopping s' = lt_stopping s" "lt_owner s' = lt_owner s"
    "lt_clients s' = lt_clients s \<or> lt_clients s' = lt_clients (notify_all s)"
    using d by (auto simp: notify_all_def)
qed

lemma notify_all_clients:
  "set (lt_clients (notify_all s)) \<subseteq> {CIdle} \<longleftrightarrow> set (lt_clients s) \<subseteq> {CIdle}"
  "CNotify \<in> set (lt_clients (notify_all s)) \<longleftrightarrow> CNotify \<in> set (lt_clients s)"
  "length (lt_clients (notify_all s)) = length (lt_clients s)"
  by (force simp: notify_all_def split: if_splits)+

section \<open>The destructor and the writer\<close>

definition threads_ok :: "log_threads \<Rightarrow> bool" where
  "threads_ok s \<longleftrightarrow> (lt_owner s \<noteq> Destroyed \<longrightarrow> (lt_stopping s \<longleftrightarrow> lt_owner s \<noteq> Alive) \<and> (lt_stopping s \<longrightarrow> lg_writer (lt_lg s)) \<and>
       (lg_writer (lt_lg s) \<and> lt_writer s = WDone \<longrightarrow> lt_stopping s \<and> lg_queue (lt_lg s) = [])) \<and>
     (lt_owner s \<noteq> Alive \<longrightarrow> set (lt_clients s) \<subseteq> {CIdle}) \<and> (lt_owner s = Destroyed \<or> \<not> lg_writer (lt_lg s) \<longrightarrow> lt_writer s = WDone)"

lemma start_threads_ok: "threads_ok (start_threads env c fs n)"
  by (auto simp: threads_ok_def start_threads_def split: prod.split)

lemma busy_alive:
  assumes "threads_ok s" "i < length (lt_clients s)" "lt_clients s ! i \<noteq> CIdle"
  shows "lt_owner s = Alive"
proof (rule ccontr)
  assume "lt_owner s \<noteq> Alive"
  then have "set (lt_clients s) \<subseteq> {CIdle}" using assms(1) by (simp add: threads_ok_def)
  with nth_mem [OF assms(2)] assms(3) show False by blast
qed

lemma threads_ok_clients: "threads_ok s \<Longrightarrow> lt_owner s = Alive \<Longrightarrow> threads_ok (s\<lparr>lt_clients := ps\<rparr>)"
  by (auto simp: threads_ok_def)

lemma threads_ok_wake: "threads_ok s \<Longrightarrow> lt_writer s = WWait \<Longrightarrow> threads_ok (s\<lparr>lt_writer := WWoken\<rparr>)"
  by (auto simp: threads_ok_def)

lemma destroy_rest_ok:
  assumes "set (lt_clients s) \<subseteq> {CIdle}" "lt_writer s = WDone"
  shows "threads_ok (destroy_rest env s)"
  using assms by (simp add: threads_ok_def destroy_rest_def split: prod.split)

lemma threads_ok_step:
  assumes "log_thread_step env s ev s'" "threads_ok s"
  shows "threads_ok s'"
  using assms(1)
proof cases
  case writer_run
  note b = writer_turn_burst [OF writer_run(3) writer_run(2) [symmetric]]
  show ?thesis using assms(2) writer_run(3) b(2-5) drain_keeps [OF b(1)] notify_all_clients(1) [of s] unfolding threads_ok_def by auto
next
  case (client_log i r)
  obtain lg fs where "log_query env r (lt_lg s) (lt_fs s) = (lg, fs)" by fastforce
  with log_query_keeps [OF this] client_log assms(2) show ?thesis by (auto simp: threads_ok_def log_call_def)
next
  case (notify_writer i)
  then show ?thesis using threads_ok_clients [OF threads_ok_wake [OF assms(2)]] busy_alive [OF assms(2)] by simp
next
  case destroy_thread
  then show ?thesis using assms(2) by (auto simp: threads_ok_def)
next
  case destroy_plainly
  then show ?thesis using assms(2) by (intro destroy_rest_ok [THEN back_subst [of threads_ok]]) (auto simp: threads_ok_def)
next
  case destroy_notify
  then show ?thesis using assms(2) notify_all_clients(1) [of s] by (auto simp: threads_ok_def notify_all_def)
next
  case destroy_join
  then show ?thesis using assms(2) by (intro destroy_rest_ok [THEN back_subst [of threads_ok]]) (auto simp: threads_ok_def)
qed (use threads_ok_clients [OF assms(2)] threads_ok_wake [OF assms(2)] busy_alive [OF assms(2)] in \<open>auto simp: flush_turn_def\<close>)

lemma threads_ok_run: "run_steps (log_thread_step env) (start_threads env c fs n) evs s \<Longrightarrow> threads_ok s"
  by (induction rule: run_steps.induct) (auto intro: start_threads_ok threads_ok_step)

text \<open>The thread a destructor waits for.\<close>

abbreviation writer_awaited :: "log_threads \<Rightarrow> bool" where
  "writer_awaited s \<equiv> lt_owner s = Joining \<and> lt_stopping s"

interpretation writing: stoppable "log_thread_step env" writer_awaited "\<lambda>s. lt_writer s = WWait" "\<lambda>s. if lt_writer s = WDone then 0 else 1" WriterTurn for env
proof (unfold_locales, goal_cases)
  case (1 s ev s')
  from 1(1) show ?case
  proof cases
    case writer_run
    from writer_turn_burst(2-4) [OF writer_run(3) writer_run(2) [symmetric]] 1(2) show ?thesis by auto
  qed (use 1(2,3) in \<open>auto simp: log_call_def flush_turn_def destroy_rest_def notify_all_def split: prod.splits\<close>)
next
  case (2 s)
  then have pc: "lt_writer s = WLoop \<or> lt_writer s = WWoken" by (cases "lt_writer s") auto
  from writer_turn_burst(2-4) [OF pc refl, of env] 2(1) writer_run [OF pc, of env] pc show ?case
    by (intro exI [of _ "writer_turn env s"]) auto
qed

section \<open>The threads refine atomic records and bursts\<close>

text \<open>The records given to \<^verbatim>\<open>log\<close>, in the order in which their callers took the mutex.\<close>

fun log_calls :: "log_thread_event list \<Rightarrow> query_log list" where
  "log_calls [] = []"
| "log_calls (LogCall i r # evs) = r # log_calls evs"
| "log_calls (_ # evs) = log_calls evs"

lemma log_calls_append [simp]: "log_calls (xs @ ys) = log_calls xs @ log_calls ys"
  by (induction xs rule: log_calls.induct) auto

lemma destroy_after_join:
  assumes "threads_ok s" "lt_owner s \<noteq> Destroyed" "lt_writer s = WDone"
  shows "destroy_logger env (lt_lg s) (lt_fs s) = (lt_lg (destroy_rest env s), lt_fs (destroy_rest env s))"
proof -
  have "(if lg_writer (lt_lg s) then drain env (lt_lg s) (lt_fs s) else (lt_lg s, lt_fs s)) = (lt_lg s, lt_fs s)"
    using assms by (auto simp: threads_ok_def drain_nothing)
  then show ?thesis by (simp add: destroy_logger_def destroy_rest_def split: prod.split)
qed

lemma destroyed_stuck:
  assumes "log_thread_step env s ev s'" "threads_ok s"
  shows "lt_owner s \<noteq> Destroyed"
proof -
  have w: "lt_writer s = WDone" if "lt_owner s = Destroyed" using that assms(2) by (simp add: threads_ok_def)
  from assms(1) show ?thesis by cases (use w busy_alive [OF assms(2)] in auto)
qed

lemma log_step_refines:
  assumes "log_thread_step env s ev s'" "threads_ok s"
  shows "if lt_owner s' = Destroyed then destroy_logger env (lt_lg s) (lt_fs s) = (lt_lg s', lt_fs s') \<and> log_calls [ev] = []
    else \<exists>levs. foldl (log_event env) (lt_lg s, lt_fs s) levs = (lt_lg s', lt_fs s') \<and> List.map_filter id levs = log_calls [ev]"
proof -
  have none: "\<exists>levs. foldl (log_event env) x levs = x \<and> List.map_filter id levs = []" for x
    by (auto intro: exI [of _ "[]"] simp: List.map_filter_simps)
  from assms(1) show ?thesis
  proof cases
    case writer_run
    then have "lt_owner s \<noteq> Destroyed" using assms(2) by (auto simp: threads_ok_def)
    with writer_run writer_turn_burst(1,4) [OF writer_run(3) writer_run(2) [symmetric]] show ?thesis
      by (auto intro!: exI [of _ "[None]"] simp: log_event_def List.map_filter_simps)
  next
    case (client_log i r)
    then show ?thesis by (auto intro!: exI [of _ "[Some r]"] simp: log_event_def log_call_def List.map_filter_simps split: prod.splits)
  next
    case destroy_plainly
    then have "lt_writer s = WDone" using assms(2) by (simp add: threads_ok_def)
    with destroy_after_join [OF assms(2) _ this, of env] destroy_plainly show ?thesis by (simp add: destroy_rest_def split: prod.splits)
  next
    case destroy_join
    with destroy_after_join [OF assms(2) _ destroy_join(4), of env] show ?thesis by (simp add: destroy_rest_def split: prod.splits)
  qed (use destroyed_stuck [OF assms] none in \<open>auto simp: flush_turn_def notify_all_def\<close>)
qed

lemma log_run_refines:
  assumes "run_steps (log_thread_step env) (start_threads env c fs n) evs s"
  shows "\<exists>levs lg' fs'. foldl (log_event env) (make_logger env c fs) levs = (lg', fs') \<and> List.map_filter id levs = log_calls evs \<and>
    (if lt_owner s = Destroyed then destroy_logger env lg' fs' else (lg', fs')) = (lt_lg s, lt_fs s)"
  using assms
proof (induction rule: run_steps.induct)
  case run_Nil
  show ?case by (rule exI [of _ "[]"]) (auto simp: start_threads_def List.map_filter_simps split: prod.split)
next
  case (run_snoc evs s ev s')
  note ok = threads_ok_run [OF run_snoc.hyps(1)]
  from run_snoc.IH destroyed_stuck [OF run_snoc.hyps(2) ok] obtain levs where
    levs: "foldl (log_event env) (make_logger env c fs) levs = (lt_lg s, lt_fs s)" "List.map_filter id levs = log_calls evs" by (auto simp: id_def)
  note step = log_step_refines [OF run_snoc.hyps(2) ok]
  show ?case
  proof (cases "lt_owner s' = Destroyed")
    case True
    with step levs show ?thesis by (intro exI [of _ levs] exI [of _ "lt_lg s"] exI [of _ "lt_fs s"]) (simp add: id_def del: log_calls.simps)
  next
    case False
    with step obtain more where "foldl (log_event env) (lt_lg s, lt_fs s) more = (lt_lg s', lt_fs s')" "List.map_filter id more = log_calls [ev]" by auto
    with levs False show ?thesis
      by (intro exI [of _ "levs @ more"] exI [of _ "lt_lg s'"] exI [of _ "lt_fs s'"]) (simp add: List.map_filter_def id_def del: log_calls.simps)
  qed
qed

section \<open>No record stays behind\<close>

text \<open>
  A notification on its way cannot be taken by a \<^verbatim>\<open>flush\<close>: no thread is inside \<^verbatim>\<open>flush\<close>, or there is only one
  thread. A \<^verbatim>\<open>notify_one\<close> is due whenever the writer waits in front of a non-empty queue.
\<close>

definition flush_apart :: "log_threads \<Rightarrow> bool" where
  "flush_apart s \<longleftrightarrow> length (lt_clients s) \<le> 1 \<or> set (lt_clients s) \<subseteq> {CIdle, CNotify}"

definition wake_due :: "log_threads \<Rightarrow> bool" where
  "wake_due s \<longleftrightarrow> (lt_writer s = WWait \<and> lg_queue (lt_lg s) \<noteq> [] \<longrightarrow> CNotify \<in> set (lt_clients s))"

lemma flush_apart_clients:
  assumes "flush_apart s" "i < length (lt_clients s)" "lt_clients s ! i = CNotify"
  shows "CFlushWait \<notin> set (lt_clients s)"
proof (cases "length (lt_clients s) \<le> 1")
  case True
  then have "i = 0" "lt_clients s = [CNotify]" using assms(2,3) by (cases "lt_clients s"; auto)+
  then show ?thesis by simp
qed (use assms(1) in \<open>auto simp: flush_apart_def\<close>)

lemma clients_step:
  assumes "log_thread_step env s ev s'"
  shows "length (lt_clients s') = length (lt_clients s)"
  using assms
proof cases
  case writer_run
  then show ?thesis using writer_turn_burst(5) [OF writer_run(3) refl, of env] notify_all_clients(3) [of s] by auto
qed (simp_all add: log_call_def flush_turn_def destroy_rest_def notify_all_clients(3) split: prod.split)

lemma flush_apart_step:
  assumes "log_thread_step env s ev s'" "flush_apart s" "length (lt_clients s) \<le> 1 \<or> (\<forall>i. ev \<noteq> FlushCall i)"
  shows "flush_apart s'"
proof (cases "length (lt_clients s) \<le> 1")
  case True
  with clients_step [OF assms(1)] show ?thesis by (simp add: flush_apart_def)
next
  case False
  then have few: "set (lt_clients s) \<subseteq> {CIdle, CNotify}" using assms(2) by (simp add: flush_apart_def)
  then have same: "lt_clients (notify_all s) = lt_clients s" by (auto simp: notify_all_def intro!: map_idI)
  have no_flush: "lt_clients s ! i \<noteq> CFlushWait" "lt_clients s ! i \<noteq> CFlushWoken" if "i < length (lt_clients s)" for i
    using few nth_mem [OF that] by auto
  have upd: "set ((lt_clients s)[i := p]) \<subseteq> {CIdle, CNotify}" if "p \<in> {CIdle, CNotify}" for i p
    using few that set_update_subset_insert [of "lt_clients s" i p] by blast
  from assms(1) have "set (lt_clients s') \<subseteq> {CIdle, CNotify}"
  proof cases
    case writer_run
    then show ?thesis using writer_turn_burst(5) [OF writer_run(3) refl, of env] few same by auto
  qed (use few same upd assms(3) False no_flush in \<open>auto simp: log_call_def destroy_rest_def split: prod.split\<close>)
  then show ?thesis by (simp add: flush_apart_def)
qed

lemma wake_due_awake: "lt_writer s \<noteq> WWait \<or> lg_queue (lt_lg s) = [] \<Longrightarrow> wake_due s"
  by (auto simp: wake_due_def)

lemma wake_due_clients:
  assumes "wake_due s" "i < length (lt_clients s)" "lt_clients s ! i \<noteq> CNotify"
  shows "wake_due (s\<lparr>lt_clients := (lt_clients s)[i := p]\<rparr>)"
proof -
  have "CNotify \<in> set ((lt_clients s)[i := p])" if n: "CNotify \<in> set (lt_clients s)"
  proof -
    obtain j where "j < length (lt_clients s)" "lt_clients s ! j = CNotify" using n by (auto simp: in_set_conv_nth)
    moreover from this assms(3) have "i \<noteq> j" by auto
    ultimately show ?thesis by (auto simp: in_set_conv_nth intro!: exI [of _ j])
  qed
  with assms(1) show ?thesis by (simp add: wake_due_def)
qed

lemma wake_due_log:
  assumes "wake_due s" "i < length (lt_clients s)" "lt_clients s ! i = CIdle"
  shows "wake_due (log_call env i r s)"
proof -
  obtain lg fs where q: "log_query env r (lt_lg s) (lt_fs s) = (lg, fs)" by fastforce
  show ?thesis
  proof (cases "log_queues (lt_lg s)")
    case True
    then show ?thesis using q set_update_memI [OF assms(2), of CNotify] by (simp add: wake_due_def log_call_def)
  next
    case False
    then show ?thesis using q log_query_keeps [OF q] wake_due_clients [OF assms(1,2), of CIdle] assms(3) by (simp add: wake_due_def log_call_def)
  qed
qed

lemma destroy_rest_empty: "lg_queue (lt_lg (destroy_rest env s)) = []" "lt_owner (destroy_rest env s) = Destroyed"
  using drain_keeps by (auto simp: destroy_rest_def split: prod.split)

lemma wake_due_step:
  assumes "log_thread_step env s ev s'" "flush_apart s" "wake_due s"
  shows "wake_due s'"
  using assms(1)
proof cases
  case writer_run
  from drain_keeps [OF writer_turn_burst(1) [OF writer_run(3) writer_run(2) [symmetric]]] show ?thesis by (intro wake_due_awake disjI2) simp
next
  case (client_log i r)
  then show ?thesis using wake_due_log [OF assms(3)] by simp
next
  case (notify_flush i j)
  then show ?thesis using flush_apart_clients [OF assms(2) notify_flush(3,4)] nth_mem [of j "lt_clients s"] by simp
next
  case (client_flush i)
  then show ?thesis using wake_due_clients [OF assms(3), of i] by (simp add: flush_turn_def)
next
  case (flush_again i)
  then show ?thesis using wake_due_clients [OF assms(3), of i] by (simp add: flush_turn_def)
next
  case (spurious_flush i)
  then show ?thesis using wake_due_clients [OF assms(3), of i] by simp
next
  case destroy_thread
  then show ?thesis using assms(3) by (simp add: wake_due_def)
next
  case destroy_plainly
  then show ?thesis using destroy_rest_empty [of env s] by (intro wake_due_awake disjI2) simp
next
  case destroy_join
  then show ?thesis using destroy_rest_empty [of env s] by (intro wake_due_awake disjI2) simp
next
  case destroy_notify
  then show ?thesis by (intro wake_due_awake) (simp add: notify_all_def)
qed (simp_all add: wake_due_awake)

lemma wake_due_run:
  assumes "run_steps (log_thread_step env) (start_threads env c fs n) evs s" "n \<le> 1 \<or> (\<forall>i. FlushCall i \<notin> set evs)"
  shows "flush_apart s \<and> wake_due s \<and> length (lt_clients s) = n"
  using assms
proof (induction rule: run_steps.induct)
  case run_Nil
  show ?case by (auto simp: start_threads_def flush_apart_def wake_due_def split: prod.split)
next
  case (run_snoc evs s ev s')
  then have IH: "flush_apart s" "wake_due s" "length (lt_clients s) = n" by auto
  moreover have "length (lt_clients s') = length (lt_clients s)"
    by (rule clients_step [OF run_snoc.hyps(2)])
  ultimately show ?case using flush_apart_step [OF run_snoc.hyps(2)] wake_due_step [OF run_snoc.hyps(2)] run_snoc.prems by auto
qed

text \<open>With a notification due, two steps bring the queue to the file.\<close>

lemma queue_served:
  assumes "threads_ok s" "wake_due s" "lt_owner s \<noteq> Destroyed" "lg_writer (lt_lg s)" "lg_queue (lt_lg s) \<noteq> []"
  shows "\<exists>evs s'. length evs \<le> 2 \<and> set evs \<subseteq> insert WriterTurn (range NotifyOne) \<and> run_steps (log_thread_step env) s evs s' \<and> lg_queue (lt_lg s') = []"
proof -
  have turn: "run_steps (log_thread_step env) s1 [WriterTurn] (writer_turn env s1) \<and> lg_queue (lt_lg (writer_turn env s1)) = []"
    if "lt_writer s1 = WLoop \<or> lt_writer s1 = WWoken" for s1
    using run_one [where step = "log_thread_step env", OF writer_run [OF that]] drain_keeps [OF writer_turn_burst(1) [OF that refl, of env]] by simp
  show ?thesis
  proof (cases "lt_writer s = WWait")
    case True
    then obtain i where i: "i < length (lt_clients s)" "lt_clients s ! i = CNotify" using assms(2,5) by (auto simp: wake_due_def in_set_conv_nth)
    let ?s = "s\<lparr>lt_writer := WWoken, lt_clients := (lt_clients s)[i := CIdle]\<rparr>"
    have "run_steps (log_thread_step env) ?s [WriterTurn] (writer_turn env ?s)" "lg_queue (lt_lg (writer_turn env ?s)) = []"
      using turn [of ?s] by simp_all
    with run_front [OF this(1) notify_writer [OF i True]] show ?thesis
      by (intro exI [of _ "[NotifyOne i, WriterTurn]"] exI [of _ "writer_turn env ?s"]) simp
  next
    case False
    moreover have "lt_writer s \<noteq> WDone" using assms(1,3,4,5) by (auto simp: threads_ok_def)
    ultimately have "lt_writer s = WLoop \<or> lt_writer s = WWoken" by (cases "lt_writer s") auto
    from turn [OF this] show ?thesis by (intro exI [of _ "[WriterTurn]"] exI [of _ "writer_turn env s"]) simp
  qed
qed

section \<open>Properties\<close>

text \<open>C14: The threads of the logger do what its atomic operations say. However the writer thread, threads in
  \<^verbatim>\<open>log\<close> and \<^verbatim>\<open>flush\<close>, notifications, spurious wakeups and the destructor interleave, the logger and its files
  are in a state that some sequence of atomic records and bursts reaches from the constructor, with the
  records in the order in which their callers took the mutex; and when the destructor is through, what
  that sequence and then the atomic destructor leave.\<close>

theorem log_threads_refine:
  assumes "run_steps (log_thread_step env) (start_threads env c fs n) evs s"
  shows "\<exists>levs lg' fs'. foldl (log_event env) (make_logger env c fs) levs = (lg', fs') \<and> List.map_filter id levs = log_calls evs \<and>
    (if lt_owner s = Destroyed then destroy_logger env lg' fs' else (lg', fs')) = (lt_lg s, lt_fs s)"
  by (rule log_run_refines [OF assms])

lemma sample_threads_run:
  "\<exists>s. run_steps (log_thread_step all_ok) (start_threads all_ok sample_log_config empty_fs n) [WriterTurn] s \<and>
     lt_writer s = WWait \<and> lt_owner s = Alive \<and> lt_clients s = replicate n CIdle \<and> lg_queue (lt_lg s) = [] \<and> lg_cfg (lt_lg s) = sample_log_config \<and> lg_writer (lt_lg s)"
proof -
  let ?s = "start_threads all_ok sample_log_config empty_fs n"
  have s: "lt_writer ?s = WLoop" "lt_owner ?s = Alive" "lt_clients ?s = replicate n CIdle" "lg_queue (lt_lg ?s) = []" "lg_cfg (lt_lg ?s) = sample_log_config"
      "lg_writer (lt_lg ?s)" "\<not> lt_stopping ?s"
    by (auto simp: start_threads_def make_logger_def sample_log_config_def all_ok_def open_append_def Let_def split: prod.split)
  have "writer_turn all_ok ?s = ?s\<lparr>lt_writer := WWait\<rparr>" using s by (simp add: writer_turn_def loop_test_def wait_test_def)
  with run_one [where step = "log_thread_step all_ok", OF writer_run [of ?s]] s show ?thesis by (intro exI [of _ "?s\<lparr>lt_writer := WWait\<rparr>"]) simp
qed

lemma sample_queues:
  assumes "lt_owner s = Alive" "i < length (lt_clients s)" "lt_clients s ! i = CIdle" "lg_queue (lt_lg s) = []" "lg_cfg (lt_lg s) = sample_log_config"
  shows "\<exists>s' line. log_thread_step env s (LogCall i r) s' \<and> lt_clients s' = (lt_clients s)[i := CNotify] \<and> lg_queue (lt_lg s') = [line] \<and>
    lg_cfg (lt_lg s') = sample_log_config \<and> lt_owner s' = Alive \<and> lt_writer s' = lt_writer s \<and> lg_writer (lt_lg s') = lg_writer (lt_lg s)"
  using client_log [OF assms(1-3), of env r] assms
  by (auto simp: log_call_def log_query_def log_queues_def sample_log_config_def Let_def split: prod.splits if_splits)

theorem log_threads_refine_witness:
  "\<exists>s levs lg' fs'. run_steps (log_thread_step all_ok) (start_threads all_ok sample_log_config empty_fs 1) [WriterTurn] s \<and>
     foldl (log_event all_ok) (make_logger all_ok sample_log_config empty_fs) levs = (lg', fs') \<and> List.map_filter id levs = [] \<and> (lg', fs') = (lt_lg s, lt_fs s)"
proof -
  obtain s where s: "run_steps (log_thread_step all_ok) (start_threads all_ok sample_log_config empty_fs 1) [WriterTurn] s" "lt_owner s = Alive"
    using sample_threads_run by blast
  from log_threads_refine [OF s(1)] s show ?thesis by (auto simp: id_def)
qed

text \<open>C15: No record stays behind and the destructor returns. As long as \<^verbatim>\<open>flush\<close> is not called concurrently to
  other threads (there is a single caller, or nobody flushes), whenever the queue is not empty the writer
  is awake or a notification is under way: a notification and a turn of the writer are enough to empty
  the queue, with no further record and no spurious wakeup. And when the destructor waits for the writer,
  at most one turn of the writer later the join returns and the destructor ends with an empty queue.\<close>

theorem log_writer_never_stranded:
  assumes "run_steps (log_thread_step env) (start_threads env c fs n) evs s" "n \<le> 1 \<or> (\<forall>i. FlushCall i \<notin> set evs)"
  shows "(lt_owner s \<noteq> Destroyed \<and> lg_writer (lt_lg s) \<and> lg_queue (lt_lg s) \<noteq> [] \<longrightarrow>
      (\<exists>evs' s'. length evs' \<le> 2 \<and> set evs' \<subseteq> insert WriterTurn (range NotifyOne) \<and> run_steps (log_thread_step env) s evs' s' \<and> lg_queue (lt_lg s') = [])) \<and>
    (lt_owner s = Joining \<longrightarrow>
      (\<exists>k s' s''. k \<le> 1 \<and> run_steps (log_thread_step env) s (replicate k WriterTurn) s' \<and> log_thread_step env s' DestroyJoin s'' \<and>
        lt_owner s'' = Destroyed \<and> lg_queue (lt_lg s'') = []))"
proof (intro conjI impI)
  note ok = threads_ok_run [OF assms(1)]
  show "\<exists>evs' s'. length evs' \<le> 2 \<and> set evs' \<subseteq> insert WriterTurn (range NotifyOne) \<and> run_steps (log_thread_step env) s evs' s' \<and> lg_queue (lt_lg s') = []"
    if "lt_owner s \<noteq> Destroyed \<and> lg_writer (lt_lg s) \<and> lg_queue (lt_lg s) \<noteq> []"
    using queue_served [OF ok] wake_due_run [OF assms] that by blast
  assume "lt_owner s = Joining"
  then have "writer_awaited s" using ok by (simp add: threads_ok_def)
  moreover have "\<not> writer_awaited (start_threads env c fs n)" by (simp add: start_threads_def split: prod.split)
  ultimately obtain k s' where k: "k \<le> (if lt_writer s = WDone then 0 else 1)" "run_steps (log_thread_step env) s (replicate k WriterTurn) s'" "writer_awaited s'"
      "(if lt_writer s' = WDone then 0 else 1) = (0::nat)"
    using writing.join_returns [OF assms(1)] by blast
  then have "lt_owner s' = Joining" "lt_writer s' = WDone" "k \<le> 1" by (auto split: if_splits)
  with k(2) destroy_join [of s' env] destroy_rest_empty [of env s']
  show "\<exists>k s' s''. k \<le> 1 \<and> run_steps (log_thread_step env) s (replicate k WriterTurn) s' \<and> log_thread_step env s' DestroyJoin s'' \<and>
      lt_owner s'' = Destroyed \<and> lg_queue (lt_lg s'') = []" by blast
qed

theorem log_writer_never_stranded_witness:
  "\<exists>s evs' s'. run_steps (log_thread_step all_ok) (start_threads all_ok sample_log_config empty_fs 1) [WriterTurn, LogCall 0 sample_record] s \<and> lg_queue (lt_lg s) \<noteq> [] \<and>
     length evs' \<le> 2 \<and> run_steps (log_thread_step all_ok) s evs' s' \<and> lg_queue (lt_lg s') = []"
proof -
  obtain s0 where s0: "run_steps (log_thread_step all_ok) (start_threads all_ok sample_log_config empty_fs 1) [WriterTurn] s0" "lt_owner s0 = Alive"
      "lt_clients s0 = replicate 1 CIdle" "lg_queue (lt_lg s0) = []" "lg_cfg (lt_lg s0) = sample_log_config" "lg_writer (lt_lg s0)"
    using sample_threads_run [of 1] by blast
  obtain s line where s: "log_thread_step all_ok s0 (LogCall 0 sample_record) s" "lg_queue (lt_lg s) = [line]" "lt_owner s = Alive" "lg_writer (lt_lg s)"
    using sample_queues [of s0 0 all_ok sample_record] s0 by auto
  have run: "run_steps (log_thread_step all_ok) (start_threads all_ok sample_log_config empty_fs 1) [WriterTurn, LogCall 0 sample_record] s"
    using run_snoc [OF s0(1) s(1)] by simp
  have "lt_owner s \<noteq> Destroyed \<and> lg_writer (lt_lg s) \<and> lg_queue (lt_lg s) \<noteq> []" using s(2-4) by simp
  with log_writer_never_stranded [OF run] run show ?thesis by blast
qed

section \<open>A wakeup that is lost\<close>

text \<open>The writer and a flush wait in front of a full queue, and nobody is about to notify them.\<close>

definition stuck :: "log_threads \<Rightarrow> bool" where
  "stuck s \<longleftrightarrow> lt_writer s = WWait \<and> lt_owner s = Alive \<and> lg_queue (lt_lg s) \<noteq> [] \<and> \<not> log_queues (lt_lg s) \<and> lc_path (lg_cfg (lt_lg s)) \<noteq> [] \<and>
     lc_async (lg_cfg (lt_lg s)) \<and> length (lt_clients s) = 2 \<and> lt_clients s ! 1 = CFlushWait \<and> lt_clients s ! 0 \<in> {CIdle, CFlushWait}"

fun spurious :: "log_thread_event \<Rightarrow> bool" where
  "spurious SpuriousWriter \<longleftrightarrow> True"
| "spurious (SpuriousFlush _) \<longleftrightarrow> True"
| "spurious _ \<longleftrightarrow> False"

lemma stuck_clients: "stuck s \<Longrightarrow> i < length (lt_clients s) \<Longrightarrow> lt_clients s ! i \<in> {CIdle, CFlushWait} \<and> (lt_clients s ! i = CIdle \<longrightarrow> i = 0)"
  by (auto simp: stuck_def less_2_cases_iff)

lemma stuck_nobody: "stuck s \<Longrightarrow> i < length (lt_clients s) \<Longrightarrow> lt_clients s ! i \<noteq> CNotify \<and> lt_clients s ! i \<noteq> CFlushWoken"
  using stuck_clients [of s i] by auto

lemma stuck_step:
  assumes "log_thread_step env s ev s'" "stuck s" "\<not> spurious ev"
  shows "stuck s'"
  using assms(1)
proof cases
  case (client_log i r)
  then have i: "i = 0" using stuck_clients [OF assms(2)] by simp
  have "log_query env r (lt_lg s) (lt_fs s) = ((lt_lg s)\<lparr>lg_dropped := lg_dropped (lt_lg s) + 1\<rparr>, lt_fs s)"
    using assms(2) by (auto simp: log_query_def stuck_def log_queues_def Let_def)
  with assms(2) client_log(2) i show ?thesis by (auto simp: log_call_def stuck_def log_queues_def)
next
  case (client_flush i)
  then have i: "i = 0" using stuck_clients [OF assms(2)] by simp
  with assms(2) client_flush(2) show ?thesis by (simp add: flush_turn_def stuck_def)
next
  case destroy_thread
  have "CFlushWait \<in> set (lt_clients s)" using assms(2) nth_mem [of 1 "lt_clients s"] by (simp add: stuck_def)
  with destroy_thread show ?thesis by auto
next
  case destroy_plainly
  have "CFlushWait \<in> set (lt_clients s)" using assms(2) nth_mem [of 1 "lt_clients s"] by (simp add: stuck_def)
  with destroy_plainly show ?thesis by auto
next
  case writer_run
  then show ?thesis using assms(2) by (simp add: stuck_def)
next
  case destroy_notify
  then show ?thesis using assms(2) by (simp add: stuck_def)
next
  case destroy_join
  then show ?thesis using assms(2) by (simp add: stuck_def)
qed (use assms(3) stuck_nobody [OF assms(2)] in auto)

lemma stuck_run: "run_steps (log_thread_step env) s evs s' \<Longrightarrow> stuck s \<Longrightarrow> \<forall>ev \<in> set evs. \<not> spurious ev \<Longrightarrow> stuck s'"
  by (induction rule: run_steps.induct) (auto intro: stuck_step)

lemma stuck_reached:
  assumes "lt_writer s = WWait" "lt_owner s = Alive" "lt_clients s = [CIdle, CIdle]" "lg_queue (lt_lg s) = []" "lg_cfg (lt_lg s) = sample_log_config"
  shows "\<exists>s'. run_steps (log_thread_step env) s [LogCall 0 r, FlushCall 1, NotifyOne 0, FlushTurn 1] s' \<and> stuck s'"
proof -
  obtain s1 line where s1: "log_thread_step env s (LogCall 0 r) s1" "lt_clients s1 = [CNotify, CIdle]" "lg_queue (lt_lg s1) = [line]" "lg_cfg (lt_lg s1) = sample_log_config"
      "lt_owner s1 = Alive" "lt_writer s1 = WWait"
    using sample_queues [of s 0 env r] assms by auto
  let ?s2 = "flush_turn 1 s1"
  let ?s3 = "?s2\<lparr>lt_clients := (lt_clients ?s2)[0 := CIdle, 1 := CFlushWoken]\<rparr>"
  have c2: "lt_clients ?s2 = [CNotify, CFlushWait]" using s1 by (simp add: flush_turn_def)
  have "log_thread_step env s1 (FlushCall 1) ?s2" using s1 by (intro client_flush) simp_all
  moreover have "log_thread_step env ?s2 (NotifyOne 0) ?s3" using c2 by (intro notify_flush) simp_all
  moreover have "log_thread_step env ?s3 (FlushTurn 1) (flush_turn 1 ?s3)" using c2 by (intro flush_again) simp_all
  ultimately have "run_steps (log_thread_step env) s [LogCall 0 r, FlushCall 1, NotifyOne 0, FlushTurn 1] (flush_turn 1 ?s3)"
    using s1(1) by (intro run_front [OF run_front [OF run_front [OF run_one]]])
  moreover have "stuck (flush_turn 1 ?s3)" using s1 c2 by (simp add: stuck_def flush_turn_def log_queues_def sample_log_config_def)
  ultimately show ?thesis by blast
qed

text \<open>A \<^verbatim>\<open>flush\<close> next to a \<^verbatim>\<open>log\<close> can hang, and the record with it. With two callers, a \<^verbatim>\<open>flush\<close> that begins to
  wait between the push and the \<^verbatim>\<open>notify_one\<close> of a \<^verbatim>\<open>log\<close> can take the only wakeup; then the writer sleeps in
  front of a full queue, and whatever the callers do, without a spurious wakeup it sleeps forever: the
  record is never written, every further record is dropped and \<^verbatim>\<open>flush\<close> does not return.\<close>

theorem flush_lost_wakeup:
  "\<exists>evs s. run_steps (log_thread_step all_ok) (start_threads all_ok sample_log_config empty_fs 2) evs s \<and> (\<forall>ev \<in> set evs. \<not> spurious ev) \<and>
     (\<forall>evs' s'. run_steps (log_thread_step all_ok) s evs' s' \<and> (\<forall>ev \<in> set evs'. \<not> spurious ev) \<longrightarrow>
        lt_writer s' = WWait \<and> lg_queue (lt_lg s') \<noteq> [] \<and> lt_clients s' ! 1 = CFlushWait)"
proof -
  obtain s0 where s0: "run_steps (log_thread_step all_ok) (start_threads all_ok sample_log_config empty_fs 2) [WriterTurn] s0" "lt_writer s0 = WWait" "lt_owner s0 = Alive"
      "lt_clients s0 = replicate 2 CIdle" "lg_queue (lt_lg s0) = []" "lg_cfg (lt_lg s0) = sample_log_config"
    using sample_threads_run [of 2] by blast
  have two: "lt_clients s0 = [CIdle, CIdle]" using s0(4) by (simp add: numeral_2_eq_2)
  obtain s where s: "run_steps (log_thread_step all_ok) s0 [LogCall 0 sample_record, FlushCall 1, NotifyOne 0, FlushTurn 1] s" "stuck s"
    using stuck_reached [OF s0(2,3) two s0(5,6)] by blast
  have "run_steps (log_thread_step all_ok) (start_threads all_ok sample_log_config empty_fs 2)
      ([WriterTurn] @ [LogCall 0 sample_record, FlushCall 1, NotifyOne 0, FlushTurn 1]) s"
    by (rule run_trans [OF s0(1) s(1)])
  moreover have "lt_writer s' = WWait \<and> lg_queue (lt_lg s') \<noteq> [] \<and> lt_clients s' ! 1 = CFlushWait"
    if "run_steps (log_thread_step all_ok) s evs' s'" "\<forall>ev \<in> set evs'. \<not> spurious ev" for evs' s'
    using stuck_run [OF that(1) s(2) that(2)] by (simp add: stuck_def)
  ultimately show ?thesis
    by (intro exI [of _ "[WriterTurn, LogCall 0 sample_record, FlushCall 1, NotifyOne 0, FlushTurn 1]"] exI [of _ s]) auto
qed

end
