(* ===== verification/Sweeper.thy ===== *)
theory Sweeper
  imports Cache
begin

text \<open>
  The thread of \<^verbatim>\<open>cache.cpp\<close> that sweeps expired entries, at the granularity of its mutexes and of its condition
  variable. What runs between taking and releasing a mutex is one step; waiting releases the mutex, and a
  thread that waits can be woken by the destructor, by the timer, or for no reason. Seen from outside, the
  cache with its sweeper behaves as the atomic operations of \<open>Cache\<close> say, and the destructor returns.
\<close>

section \<open>Definitions\<close>

text \<open>
  Where the sweeper is: about to test the loop condition; in \<^verbatim>\<open>wait_for\<close>; behind it, because the interval is
  over or because it was woken, and about to take the mutex again; sweeping, with \<^verbatim>\<open>shutdown_mu_\<close> released;
  returned.
\<close>

datatype sweeper_pc = SwLoop | SwWait | SwTimeout | SwWoken | SwSweep | SwDone

record sweeper =
  sw_cache :: dns_cache
  sw_stopping :: bool
  sw_pc :: sweeper_pc
  sw_owner :: owner_pc

definition make_cache :: "cache_config \<Rightarrow> sweeper" where
  [eval_simps]: "make_cache cfg = \<lparr>sw_cache = empty_cache cfg, sw_stopping = False, sw_pc = SwLoop, sw_owner = Alive\<rparr>"

text \<open>
  The sweeper between two waits. The predicate of \<^verbatim>\<open>wait_for\<close> is tested before waiting and whenever the thread
  wakes; when the interval is over the loop goes on whatever it says.
\<close>

definition sweeper_turn :: "int \<Rightarrow> sweeper \<Rightarrow> sweeper" where
  [eval_simps]: "sweeper_turn now s =
     (case sw_pc s of
        SwLoop \<Rightarrow> s\<lparr>sw_pc := if sw_stopping s then SwDone else SwWait\<rparr>
      | SwWoken \<Rightarrow> s\<lparr>sw_pc := if sw_stopping s then SwDone else SwWait\<rparr>
      | SwTimeout \<Rightarrow> s\<lparr>sw_pc := if sw_stopping s then SwDone else SwSweep\<rparr>
      | SwSweep \<Rightarrow> s\<lparr>sw_cache := snd (sweep_expired now (sw_cache s)), sw_pc := SwLoop\<rparr>
      | _ \<Rightarrow> s)"

datatype sweeper_event =
    CacheCall cache_event
  | SweeperTurn int
  | IntervalOver
  | SpuriousWake
  | StopSweeper
  | NotifySweeper
  | JoinSweeper

inductive sweeper_step :: "sweeper \<Rightarrow> sweeper_event \<Rightarrow> sweeper \<Rightarrow> bool" where
  cache_call: "sw_owner s = Alive \<Longrightarrow> \<forall>now n. ev \<noteq> EvSweep now n \<Longrightarrow> cache_step (sw_cache s) ev c \<Longrightarrow>
    sweeper_step s (CacheCall ev) (s\<lparr>sw_cache := c\<rparr>)"
| sweeper_run: "sw_pc s \<notin> {SwWait, SwDone} \<Longrightarrow> sweeper_step s (SweeperTurn now) (sweeper_turn now s)"
| interval_over: "sw_pc s = SwWait \<Longrightarrow> sweeper_step s IntervalOver (s\<lparr>sw_pc := SwTimeout\<rparr>)"
| spurious_wake: "sw_pc s = SwWait \<Longrightarrow> sweeper_step s SpuriousWake (s\<lparr>sw_pc := SwWoken\<rparr>)"
| stop_sweeper: "sw_owner s = Alive \<Longrightarrow> sweeper_step s StopSweeper (s\<lparr>sw_stopping := True, sw_owner := StopNotify\<rparr>)"
| notify_sweeper: "sw_owner s = StopNotify \<Longrightarrow>
    sweeper_step s NotifySweeper (s\<lparr>sw_pc := if sw_pc s = SwWait then SwWoken else sw_pc s, sw_owner := Joining\<rparr>)"
| join_sweeper: "sw_owner s = Joining \<Longrightarrow> sw_pc s = SwDone \<Longrightarrow> sweeper_step s JoinSweeper (s\<lparr>sw_owner := Destroyed\<rparr>)"

inductive_simps sweeper_step_simps:
  "sweeper_step s (CacheCall ev) s'" "sweeper_step s (SweeperTurn now) s'" "sweeper_step s IntervalOver s'" "sweeper_step s SpuriousWake s'"
  "sweeper_step s StopSweeper s'" "sweeper_step s NotifySweeper s'" "sweeper_step s JoinSweeper s'"

section \<open>Stopping\<close>

text \<open>How many turns a sweeper that is told to stop still takes.\<close>

fun sweeper_left :: "sweeper_pc \<Rightarrow> nat" where
  "sweeper_left SwDone = 0"
| "sweeper_left SwSweep = 2"
| "sweeper_left _ = 1"

abbreviation sweeper_awaited :: "sweeper \<Rightarrow> bool" where
  "sweeper_awaited s \<equiv> sw_owner s = Joining \<and> sw_stopping s"

lemma sweeper_left_0 [simp]: "sweeper_left pc = 0 \<longleftrightarrow> pc = SwDone"
  by (cases pc) auto

interpretation sweeping: stoppable sweeper_step sweeper_awaited "\<lambda>s. sw_pc s = SwWait" "\<lambda>s. sweeper_left (sw_pc s)" "SweeperTurn now" for now
proof (unfold_locales, goal_cases)
  case (1 s ev s')
  then show ?case by cases (auto simp: sweeper_turn_def split: sweeper_pc.splits)
next
  case (2 s)
  then show ?case by (cases "sw_pc s") (auto simp: sweeper_step_simps sweeper_turn_def)
qed

lemma stopping_iff:
  assumes "run_steps sweeper_step (make_cache cfg) evs s"
  shows "sw_stopping s \<longleftrightarrow> sw_owner s \<noteq> Alive"
  using assms
proof (induction rule: run_steps.induct)
  case (run_snoc evs s ev s')
  from run_snoc.hyps(2) run_snoc.IH show ?case by cases (auto simp: sweeper_turn_def split: sweeper_pc.splits)
qed (simp add: make_cache_def)

section \<open>The sweeper refines atomic sweeps\<close>

text \<open>The calls from other threads, in the order in which they took the mutex.\<close>

fun cache_calls :: "sweeper_event list \<Rightarrow> cache_event list" where
  "cache_calls [] = []"
| "cache_calls (CacheCall ev # evs) = ev # cache_calls evs"
| "cache_calls (_ # evs) = cache_calls evs"

lemma cache_calls_append [simp]: "cache_calls (xs @ ys) = cache_calls xs @ cache_calls ys"
  by (induction xs rule: cache_calls.induct) auto

fun is_sweep :: "cache_event \<Rightarrow> bool" where
  "is_sweep (EvSweep _ _) \<longleftrightarrow> True"
| "is_sweep _ \<longleftrightarrow> False"

lemma sweeper_step_refines:
  assumes "sweeper_step s ev s'"
  shows "sw_cache s' = sw_cache s \<and> cache_calls [ev] = [] \<or>
    (\<exists>cev. cache_step (sw_cache s) cev (sw_cache s') \<and> cache_calls [ev] = filter (\<lambda>e. \<not> is_sweep e) [cev])"
  using assms
proof cases
  case (cache_call cev c)
  then have "\<not> is_sweep cev" by (cases cev) auto
  with cache_call show ?thesis by auto
next
  case (sweeper_run now)
  show ?thesis
  proof (cases "sw_pc s = SwSweep")
    case True
    obtain n c where "sweep_expired now (sw_cache s) = (n, c)" by fastforce
    with True sweeper_run show ?thesis by (intro disjI2 exI [of _ "EvSweep now n"]) (auto simp: sweeper_turn_def intro: step_sweep)
  qed (use sweeper_run in \<open>auto simp: sweeper_turn_def split: sweeper_pc.splits\<close>)
qed auto

lemma sweeper_run_refines:
  assumes "run_steps sweeper_step (make_cache cfg) evs s"
  shows "\<exists>cevs. run_steps cache_step (empty_cache cfg) cevs (sw_cache s) \<and> filter (\<lambda>e. \<not> is_sweep e) cevs = cache_calls evs"
  using assms
proof (induction rule: run_steps.induct)
  case run_Nil
  show ?case by (intro exI [of _ "[]"]) (simp add: make_cache_def run_steps.run_Nil)
next
  case (run_snoc evs s ev s')
  then obtain cevs where cevs: "run_steps cache_step (empty_cache cfg) cevs (sw_cache s)" "filter (\<lambda>e. \<not> is_sweep e) cevs = cache_calls evs" by blast
  from sweeper_step_refines [OF run_snoc.hyps(2)] show ?case
  proof (elim disjE conjE exE)
    fix cev
    assume "cache_step (sw_cache s) cev (sw_cache s')" "cache_calls [ev] = filter (\<lambda>e. \<not> is_sweep e) [cev]"
    with run_steps.run_snoc [OF cevs(1)] cevs(2) show ?thesis by (intro exI [of _ "cevs @ [cev]"]) (auto simp del: cache_calls.simps)
  qed (use cevs in \<open>auto simp del: cache_calls.simps\<close>)
qed

section \<open>Properties\<close>

text \<open>C16: The sweeper thread changes nothing but when sweeps happen, and it can be stopped. However the thread,
  its timer, spurious wakeups and calls of other threads interleave, the cache is in a state that the same
  calls, in the order in which they took the mutex, reach with atomic sweeps between them; and once the
  destructor has told the thread to stop, the thread is not left asleep: at most two turns of it later it
  has returned and the destructor's join returns.\<close>

theorem sweeper_sound:
  assumes "run_steps sweeper_step (make_cache cfg) evs s"
  shows "(\<exists>cevs. run_steps cache_step (empty_cache cfg) cevs (sw_cache s) \<and> filter (\<lambda>e. \<not> is_sweep e) cevs = cache_calls evs) \<and>
    (sw_owner s = Joining \<longrightarrow> (\<exists>n s' s''. n \<le> 2 \<and> run_steps sweeper_step s (replicate n (SweeperTurn now)) s' \<and>
       sweeper_step s' JoinSweeper s'' \<and> sw_owner s'' = Destroyed))"
proof (intro conjI impI)
  show "\<exists>cevs. run_steps cache_step (empty_cache cfg) cevs (sw_cache s) \<and> filter (\<lambda>e. \<not> is_sweep e) cevs = cache_calls evs"
    by (rule sweeper_run_refines [OF assms])
  assume "sw_owner s = Joining"
  then have "sweeper_awaited s" using stopping_iff [OF assms] by simp
  moreover have "\<not> sweeper_awaited (make_cache cfg)" by (simp add: make_cache_def)
  ultimately obtain n s' where n: "n \<le> sweeper_left (sw_pc s)" "run_steps sweeper_step s (replicate n (SweeperTurn now)) s'" "sweeper_awaited s'" "sw_pc s' = SwDone"
    using sweeping.join_returns [OF assms] by fastforce
  have "sweeper_left (sw_pc s) \<le> 2" by (cases "sw_pc s") auto
  with n show "\<exists>n s' s''. n \<le> 2 \<and> run_steps sweeper_step s (replicate n (SweeperTurn now)) s' \<and> sweeper_step s' JoinSweeper s'' \<and> sw_owner s'' = Destroyed"
    using join_sweeper [of s'] by (intro exI [of _ n] exI [of _ s'] exI [of _ "s'\<lparr>sw_owner := Destroyed\<rparr>"]) simp
qed

lemma sample_sweeper_run:
  "\<exists>s. run_steps sweeper_step (make_cache sample_config)
     [SweeperTurn 0, CacheCall (EvInsert 0 sample_key sample_response sample_message 300), StopSweeper, NotifySweeper] s \<and> sw_owner s = Joining \<and> sw_cache s = sample_cache"
proof -
  let ?s0 = "make_cache sample_config"
  let ?s1 = "sweeper_turn 0 ?s0"
  let ?s2 = "?s1\<lparr>sw_cache := sample_cache\<rparr>"
  let ?s3 = "?s2\<lparr>sw_stopping := True, sw_owner := StopNotify\<rparr>"
  let ?s4 = "?s3\<lparr>sw_pc := if sw_pc ?s3 = SwWait then SwWoken else sw_pc ?s3, sw_owner := Joining\<rparr>"
  have s: "sw_owner ?s1 = Alive" "sw_cache ?s1 = empty_cache sample_config" by (simp_all add: make_cache_def sweeper_turn_def)
  have "sweeper_step ?s0 (SweeperTurn 0) ?s1" by (rule sweeper_run) (simp add: make_cache_def)
  moreover have "sweeper_step ?s1 (CacheCall (EvInsert 0 sample_key sample_response sample_message 300)) ?s2"
    using s by (intro cache_call) (simp_all add: step_insert [OF sample_insert])
  moreover have "sweeper_step ?s2 StopSweeper ?s3" using s by (intro stop_sweeper) simp
  moreover have "sweeper_step ?s3 NotifySweeper ?s4" by (rule notify_sweeper) simp
  ultimately have "run_steps sweeper_step ?s0 [SweeperTurn 0, CacheCall (EvInsert 0 sample_key sample_response sample_message 300), StopSweeper, NotifySweeper] ?s4"
    by (intro run_front [OF run_front [OF run_front [OF run_front [OF run_Nil]]]])
  then show ?thesis by (intro exI [of _ ?s4]) simp
qed

theorem sweeper_sound_witness:
  "\<exists>s n s' s''. sw_cache s = sample_cache \<and> n \<le> 2 \<and> run_steps sweeper_step s (replicate n (SweeperTurn 0)) s' \<and> sweeper_step s' JoinSweeper s'' \<and> sw_owner s'' = Destroyed"
proof -
  obtain s where "run_steps sweeper_step (make_cache sample_config)
      [SweeperTurn 0, CacheCall (EvInsert 0 sample_key sample_response sample_message 300), StopSweeper, NotifySweeper] s" "sw_owner s = Joining" "sw_cache s = sample_cache"
    using sample_sweeper_run by blast
  with sweeper_sound [of sample_config _ s 0] show ?thesis by blast
qed

end
