(* ===== verification/Spec2Isabelle.thy ===== *)
theory Spec2Isabelle
  imports Replies HandlerSpec LogAudit Work LogThreads Sweeper
begin

text \<open>
  \<^bold>\<open>CloakDNS\<close> is a local DNS server. It answers queries for blocked names with a sinkhole address, forwards
  the rest to an upstream resolver over UDP, DNS over TLS or DNS over HTTPS, looks behind CNAME chains for
  blocked names, caches what it forwards, and logs every query. This development models the C++ program
  under \<^verbatim>\<open>src/src\<close> and \<^verbatim>\<open>src/include/cloakdns\<close> and proves what makes it correct.

  \<^bold>\<open>How the parts work together.\<close> \<^verbatim>\<open>main\<close> (\<open>main_start\<close>) chooses a configuration, builds the resolver and starts
  the server (\<open>start_server\<close>), which loads the block rules, fetches ECH parameters if configured, opens the
  log, binds its socket and gives up root. Every datagram starts a handler (\<open>receive\<close>): it is parsed, checked
  against the rules, looked up in the cache, forwarded, uncloaked, cached and answered (\<open>handle_front\<close>,
  \<open>resume\<close>); it gives up control at every exchange with an upstream and at every send. A signal reloads
  configuration and rules (\<open>on_reload\<close>), another stops the server, which then writes out its log
  (\<open>on_stop_signal\<close>, \<open>stop_server\<close>). Handlers, the cache's sweeper, the log's writer thread and reloads
  interleave (\<open>handler_step\<close>, \<open>daemon_step\<close>).

  \<^bold>\<open>Theories and sources.\<close>
  \<^item> \<open>Prelude\<close>: exceptions and results, octets and characters, searching in strings, runs of labelled steps,
    the locale \<open>written_store\<close> of stores in which the latest write of a key wins.
  \<^item> \<open>Wire\<close>: \<^verbatim>\<open>wire_endian.hpp\<close>, \<^verbatim>\<open>dns_message.hpp\<close>. \<open>Parser\<close>: \<^verbatim>\<open>dns_parser.cpp\<close>; a packet that parses has all its
    names, offsets and data inside the packet. \<open>Writer\<close>: \<^verbatim>\<open>dns_writer.cpp\<close>; every synthesized packet parses back.
  \<^item> \<open>Etld\<close>: \<^verbatim>\<open>etld.cpp\<close>, the registrable domain against its specification. \<open>Blocklist\<close>: \<^verbatim>\<open>blocklist.cpp\<close>; the
    longest rule wins, loading adds exactly the valid names (locale \<open>rule_store\<close>, interpreted for the block and
    the allow rules).
  \<^item> \<open>Cache\<close>: \<^verbatim>\<open>cache.cpp\<close>; the invariant of table and recency list over all runs, where a hit comes from, the
    refinement of a textbook LRU list, the lifetime bounds. \<open>Sweeper\<close>: its sweeper thread, which refines atomic
    sweeps and can always be stopped.
  \<^item> \<open>Padding\<close>: \<^verbatim>\<open>edns_padding.cpp\<close>. \<open>Tls\<close>: \<^verbatim>\<open>tls.cpp\<close>, \<^verbatim>\<open>tls_adapter.hpp\<close>; pins, connection set-up, base64.
    \<open>Resolver\<close>: \<^verbatim>\<open>resolver.cpp\<close>; only replies to the question get through, the schedule of attempts (locale
    \<open>quiet_adapter\<close>, the documented contract of an adapter). \<open>Http\<close>: \<^verbatim>\<open>http_client.cpp\<close>. \<open>Adapters\<close>:
    \<^verbatim>\<open>udp_adapter.cpp\<close>, \<^verbatim>\<open>dot_adapter.cpp\<close>, \<^verbatim>\<open>doh_adapter.cpp\<close>, \<^verbatim>\<open>resolver_factory.cpp\<close>; the contract is interpreted
    for DoT and DoH and shown to fail for UDP.
  \<^item> \<open>Uncloaker\<close>: \<^verbatim>\<open>uncloaker.cpp\<close>; every verdict is right about the rules and the walk always ends.
    \<open>Coroutines\<close>: \<^verbatim>\<open>forward\<close> of \<^verbatim>\<open>resolver.cpp\<close> and \<^verbatim>\<open>uncloak\<close> once more, as coroutines with the frames they keep
    while they wait for an exchange; left alone they compute what the straight definitions say.
  \<^item> \<open>Text\<close>, \<open>Config\<close>: number formats and \<^verbatim>\<open>config.cpp\<close>; a configuration that loads is valid.
  \<^item> \<open>EchBootstrap\<close>: \<^verbatim>\<open>ech_bootstrap.cpp\<close>; bootstrapped bytes were served for the host name.
  \<^item> \<open>QueryLog\<close>: \<^verbatim>\<open>query_log.cpp\<close>; lines read back, the bounded queue (locale \<open>bounded_fifo\<close>, interpreted for the
    asynchronous logger), rotation. \<open>LogThreads\<close>: the writer thread, the callers of \<^verbatim>\<open>log\<close> and \<^verbatim>\<open>flush\<close> and the
    destructor, step by step; they refine atomic records and bursts, no record stays behind for the single caller
    the program has, and a concurrent \<^verbatim>\<open>flush\<close> can lose a wakeup. (Both threads are interpretations of the
    locale \<open>stoppable\<close> of \<open>Prelude\<close>.)
  \<^item> \<open>Platform\<close>: \<^verbatim>\<open>paths.cpp\<close>, \<^verbatim>\<open>privilege.cpp\<close>.
  \<^item> \<open>Handler\<close>: \<^verbatim>\<open>handle\<close> and \<^verbatim>\<open>serve\<close> of \<^verbatim>\<open>server.cpp\<close>, cut at their awaits, with the lines they print; one
    reply per query, and an invariant over all interleavings. \<open>HandlerSpec\<close>: the handler written straight
    through, and that it equals the one cut at its awaits; blocked queries stay local, cloaked answers are
    withheld. \<open>LogAudit\<close>: every record of the log is true of a query received, and records and open queries
    balance. \<open>Work\<close>: the exchanges a query can lead to. \<open>Server\<close>: \<^verbatim>\<open>Server::Impl\<close> and \<^verbatim>\<open>main.cpp\<close>; start-up,
    reload, stopping, and that every run of the daemon is a run of the handlers. \<open>Filtering\<close>: from the list files
    to the answer, which queries are blocked at any point of a run. \<open>Replies\<close>: every packet sent is a reply the
    query gives a reason for, or a vetted answer of an upstream to that question.
  \<^item> this theory: properties of the whole program.

  \<^bold>\<open>Conventions.\<close> A struct is a record and an enum a datatype with the source's names; octets and wire fields are
  words of their width, sizes are naturals; a thrown exception is the left side of a result. What is not under
  \<^verbatim>\<open>src/\<close>, such as sockets, clocks, OpenSSL, the TOML library and the system calls, is a record of functions over
  a type \<open>'w\<close> of outside worlds, a parameter of every definition that uses it, so each theorem holds for every
  such outside; assumptions about it are written in the theorem. An operation that runs under a mutex is one
  atomic step; for the two threads besides the event loop this is proved from their steps in \<open>Sweeper\<close> and
  \<open>LogThreads\<close>.

  \<^bold>\<open>Loops.\<close> Every loop is a terminating function but two. The loop that makes room in the cache
  (\<open>make_room\<close>) can run forever, with \<open>None\<close> as its value then: it returns whenever the limit is positive and
  never when it is zero. The event loop is a step relation. No definition uses fuel: the parser's walk is
  bounded by its hop counter and the packet, the uncloaker by its depth limit, a suspended forward by the
  attempts left on its adapter and the adapters behind it, the handler by the lexicographic order of its phase,
  the depth left and the exchanges left (\<open>phase_order\<close>), and loops over datagrams by the list of those that
  arrive before the deadline. \<open>Work\<close> turns this into a bound on the resumes of a handler.

  \<^bold>\<open>Not modelled.\<close> Lines on \<^verbatim>\<open>std::cerr\<close>; memory exhaustion; the Windows branches of the preprocessor; buffering
  of the log stream; the hash function of the cache table; the memory model below the granularity of the
  mutexes and of the awaits of the handler (within one exchange with an upstream, and within one bootstrap, the
  socket operations are one step of the interleaving). The tests, the Python tools under \<^verbatim>\<open>tools/\<close>, the lists
  and the deployment files are not part of the program.
\<close>

section \<open>Properties of the program\<close>

text \<open>C1: The program under any load. Start it with any arguments; if it comes up and its cache limit is
  positive, then however datagrams, the steps of the open handlers, cache sweeps, the log writer, reload
  signals and re-bootstraps interleave: every packet sent carries the id of a datagram received from that
  same address, and there are never more replies and open handlers than datagrams; every open handler can
  be carried on; every response in the cache was a reply to exactly the question of its key, of a type the
  server forwards, and for an address type no CNAME hop it shows is blocked by the rules of the start; and
  the cache keeps its configured limit.\<close>

theorem cloakdns_run_safe:
  assumes "main_start env argv w = (Inr dm0, w0)" "0 < cs_max_entries (cfg_cache (dm_cfg dm0))"
    and "run_steps (daemon_step env) dm0 evs dm"
  shows "(\<forall>(f, b) \<in> set (sv_sent (dm_state dm)). \<exists>q. (f, q) \<in> set (datagrams evs) \<and> echoes q b) \<and>
    length (sv_sent (dm_state dm)) + length (dm_phases dm) \<le> length (datagrams evs) \<and>
    (\<forall>i < length (dm_phases dm). \<exists>m. handler_step (se_handler env) (dm_state dm, dm_phases dm) (Resume i) m) \<and>
    (\<forall>key e. map_of (cmap (sv_cache (dm_state dm))) key = Some e \<longrightarrow> vetted_entry (dm_blocklist dm0) key (entry_response e)) \<and>
    cache_size (sv_cache (dm_state dm)) \<le> cs_max_entries (cfg_cache (dm_cfg dm0))"
proof -
  note m = main_start_state [OF assms(1)]
  obtain hevs st ps where run: "run_steps (handler_step (se_handler env)) (dm_state dm0, []) hevs (st, ps)" "received hevs = datagrams evs"
      "sv_sent (dm_state dm) = sv_sent st" "sv_cache (dm_state dm) = sv_cache st"
      "if dm_running dm then st = dm_state dm \<and> ps = dm_phases dm else dm_phases dm = []"
    using daemon_history [OF assms(3) m(6)] m(2) by (metis (mono_tags, lifting))
  note safe = server_run_safe [OF run(1) m(8) [OF assms(2)] m(1)]
  have pin: "pinned st = pinned (dm_state dm0)" using handler_run_pinned [OF run(1)] by simp
  have cfg: "cache_cfg (sv_cache (dm_state dm0)) = cache_config_of (dm_cfg dm0)" using m(4) by (simp add: empty_cache_def)
  have eqs: "sv_uncloak_blocklist st = dm_blocklist dm0" "max_entries (cache_cfg (sv_cache st)) = cs_max_entries (cfg_cache (dm_cfg dm0))"
    using pinned_eq(1,3) [OF pin] m(3) cfg by (simp_all add: cache_config_of_def)
  have go: "\<exists>m. handler_step (se_handler env) (dm_state dm, dm_phases dm) (Resume i) m" if "i < length (dm_phases dm)" for i
    using that run(5) safe by (cases "dm_running dm") auto
  have "length (dm_phases dm) \<le> length ps" using run(5) by (cases "dm_running dm") auto
  with safe go show ?thesis unfolding eqs run(2-4) by (intro conjI) auto
qed

lemma sample_main: "\<exists>dm. main_start sample_server_env [''cloakdns'', ''hosts''] () = (Inr dm, ()) \<and> dm_cfg dm = sample_server_config"
proof -
  have l: "load_or_default sample_server_env [''cloakdns'', ''hosts''] () = Inr sample_server_config"
    by (simp add: load_or_default_def path_extension_def filename_def rfind_char_def sample_server_config_def)
  obtain rs where b: "build_from_config (se_factory sample_server_env) (cfg_upstream sample_server_config) () = (Inr rs, ())"
    by (simp add: build_from_config_def build_udp_adapters_def factory_endpoint_def sample_server_env_def sample_factory_def sample_server_config_def
        default_config_def default_upstream_def make_resolver_def)
  obtain dm where d: "start_server sample_server_env sample_server_config rs (detect_reload_path sample_server_env [''cloakdns'', ''hosts''] ()) () = (Inr dm, ())"
      "dm_cfg dm = sample_server_config"
    using sample_start [of rs] by blast
  show ?thesis
    by (rule exI [of _ "print_first (config_lines sample_server_env [''cloakdns'', ''hosts''] ()) dm"]) (simp add: main_start_def l b d print_first_def)
qed

theorem cloakdns_run_safe_witness:
  "\<exists>dm0 dm. main_start sample_server_env [''cloakdns'', ''hosts''] () = (Inr dm0, ()) \<and>
     run_steps (daemon_step sample_server_env) dm0 [Datagram sample_query (), ReloadSignal] dm \<and> length (sv_sent (dm_state dm)) + length (dm_phases dm) \<le> 1"
proof -
  obtain dm0 where m: "main_start sample_server_env [''cloakdns'', ''hosts''] () = (Inr dm0, ())" "dm_cfg dm0 = sample_server_config"
    using sample_main by blast
  obtain p st where r: "receive (se_handler sample_server_env) sample_query () (dm_blocklist dm0) (dm_state dm0) = (p, st)" by fastforce
  let ?dm = "dm0\<lparr>dm_state := st, dm_phases := dm_phases dm0 @ option_list p\<rparr>"
  have on: "dm_running dm0" "dm_running ?dm" using main_start_state(6) [OF m(1)] by simp_all
  have "daemon_step sample_server_env dm0 (Datagram sample_query ()) ?dm" by (rule step_datagram [OF on(1) step_receive [OF r]])
  from run_snoc [where step = "daemon_step sample_server_env", OF run_snoc [where step = "daemon_step sample_server_env" and evs = "[]", OF run_Nil this] step_reload [OF on(2)]]
  have run: "run_steps (daemon_step sample_server_env) dm0 [Datagram sample_query (), ReloadSignal] (on_reload sample_server_env ?dm)" by simp
  have "0 < cs_max_entries (cfg_cache (dm_cfg dm0))" using m(2) sample_max_entries by simp
  from cloakdns_run_safe [OF m(1) this run] m(1) run show ?thesis
    by (intro exI [of _ dm0] exI [of _ "on_reload sample_server_env ?dm"]) simp
qed


lemma sample_datagram_run:
  assumes "dm_running dm0"
  shows "\<exists>dm. run_steps (daemon_step sample_server_env) dm0 [Datagram sample_query ()] dm \<and> dm_running dm"
proof -
  obtain p st where r: "receive (se_handler sample_server_env) sample_query () (dm_blocklist dm0) (dm_state dm0) = (p, st)" by fastforce
  let ?dm = "dm0\<lparr>dm_state := st, dm_phases := dm_phases dm0 @ option_list p\<rparr>"
  have "daemon_step sample_server_env dm0 (Datagram sample_query ()) ?dm" by (rule step_datagram [OF assms step_receive [OF r]])
  from run_snoc [where step = "daemon_step sample_server_env" and evs = "[]", OF run_Nil this] assms show ?thesis
    by (intro exI [of _ ?dm]) simp
qed

lemma sample_sends: "sends_ok (se_handler sample_server_env)"
  by (simp add: sends_ok_def sample_server_env_def sample_handler_env_def)


text \<open>C10: Nothing accepted by the log is lost at the end. When the server was started with an asynchronous log
  without rotation and it is stopped, by a signal or a call, at any point of any run, the log file is
  what it was at the start followed by whole lines, which are lines of the records given to the logger,
  in order; every record is there or was counted as dropped; and the queue is empty. (The file opens and
  its writes succeed.)\<close>

theorem log_complete_at_shutdown:
  assumes "start_server env cfg rs reload_path w = (Inr dm0, w0)" "resolver_shape rs" "0 < cs_max_entries (cfg_cache (dm_cfg dm0))"
    and "run_steps (daemon_step env) dm0 evs dm" "\<not> dm_running dm"
    and "log_path (cfg_logging (dm_cfg dm0)) \<noteq> []" "log_async (cfg_logging (dm_cfg dm0))" "log_max_size_bytes (cfg_logging (dm_cfg dm0)) = 0"
    and "\<forall>n. le_open_ok (he_log (se_handler env)) n \<and> le_write_ok (he_log (se_handler env)) n"
  shows "let c = logger_config_of (dm_cfg dm0); st = dm_state dm in
    \<exists>lines. file_content (sv_fs st) (lc_path c) = file_content (sv_fs (dm_state dm0)) (lc_path c) @ concat (map with_newline lines) \<and>
      subseq lines (map (log_line c) (sv_logged st)) \<and> length lines + dropped_count (sv_logger st) = length (sv_logged st) \<and>
      lg_queue (sv_logger st) = []"
proof -
  let ?env = "he_log (se_handler env)" and ?c = "logger_config_of (dm_cfg dm0)"
  note s = start_server_state [OF assms(1)]
  obtain fs where make: "(sv_logger (dm_state dm0), sv_fs (dm_state dm0)) = make_logger ?env ?c fs" using s(8) by blast
  obtain hevs st ps where run: "run_steps (handler_step (se_handler env)) (dm_state dm0, []) hevs (st, ps)" "sv_logged (dm_state dm) = sv_logged st"
      "(sv_logger (dm_state dm), sv_fs (dm_state dm)) = destroy_logger ?env (sv_logger st) (sv_fs st)"
    using daemon_history [OF assms(4) s(7)] s(2) assms(5) by (metis (mono_tags, lifting))
  have "audit_ok (se_handler env) (sv_logger (dm_state dm0), sv_fs (dm_state dm0)) (received_full hevs) (st, ps)"
    by (rule audit_run [OF run(1) s(9) [OF assms(3,2)] s(1,6)])
  then obtain levs where l: "foldl (log_event ?env) (make_logger ?env ?c fs) levs = (sv_logger st, sv_fs st)" "List.map_filter id levs = sv_logged st"
    unfolding audit_ok_def trail_def make by auto
  have c: "lc_path ?c \<noteq> []" "lc_async ?c" "lc_max_size_bytes ?c = 0" using assms(6-8) by (simp_all add: logger_config_of_def Let_def)
  note log = async_log_run [OF c _ _ l(1), unfolded l(2)] and dead = destroy_plain [OF _ run(3) [symmetric]]
  obtain sent where sent: "file_content (sv_fs st) (lc_path ?c) = file_content fs (lc_path ?c) @ concat (map with_newline sent)"
      "subseq (sent @ lg_queue (sv_logger st)) (map (log_line ?c) (sv_logged st))"
      "length sent + length (lg_queue (sv_logger st)) + dropped_count (sv_logger st) = length (sv_logged st)"
    using log(4) assms(9) by blast
  have "plain_async ?env (sv_logger st, sv_fs st)" "lg_cfg (sv_logger st) = ?c" using log(1,2) assms(9) by blast+
  then have "file_content (sv_fs (dm_state dm)) (lc_path ?c) = file_content fs (lc_path ?c) @ concat (map with_newline (sent @ lg_queue (sv_logger st)))"
      "lg_queue (sv_logger (dm_state dm)) = []" "dropped_count (sv_logger (dm_state dm)) = dropped_count (sv_logger st)"
    using dead sent(1) by simp_all
  moreover have "file_content (sv_fs (dm_state dm0)) (lc_path ?c) = file_content fs (lc_path ?c)"
    using make_logger_content [of ?env ?c fs "lc_path ?c"] by (simp flip: make)
  ultimately show ?thesis using sent(2,3) run(2) unfolding Let_def by (intro exI [of _ "sent @ lg_queue (sv_logger st)"]) simp
qed

theorem log_complete_at_shutdown_witness:
  "\<exists>dm0 dm lines. run_steps (daemon_step sample_server_env) dm0 [Datagram sample_query (), StopSignal] dm \<and> \<not> dm_running dm \<and>
     file_content (sv_fs (dm_state dm)) ''q.jsonl'' = file_content (sv_fs (dm_state dm0)) ''q.jsonl'' @ concat (map with_newline lines) \<and>
     length lines + dropped_count (sv_logger (dm_state dm)) = length (sv_logged (dm_state dm))"
proof -
  let ?l = "\<lparr>log_path = ''q.jsonl'', log_async = True, log_queue_size = 1, log_max_size_bytes = 0, log_redact_client = False\<rparr>"
  let ?cfg = "sample_server_config\<lparr>cfg_logging := ?l\<rparr>"
  obtain dm0 where d: "start_server sample_server_env ?cfg sample_resolver [] () = (Inr dm0, ())" "dm_cfg dm0 = ?cfg"
    using sample_start_log [of ?l sample_resolver "[]"] by blast
  obtain dm where run: "run_steps (daemon_step sample_server_env) dm0 [Datagram sample_query ()] dm" "dm_running dm"
    using sample_datagram_run [OF start_server_state(7) [OF d(1)]] by blast
  let ?dm = "on_stop_signal sample_server_env dm"
  have stop: "run_steps (daemon_step sample_server_env) dm0 [Datagram sample_query (), StopSignal] ?dm" "\<not> dm_running ?dm"
    using run_snoc [OF run(1) step_stop_signal [OF run(2)]] by (simp_all add: on_stop_signal_def stop_server_frame)
  have shape: "resolver_shape sample_resolver" by (simp add: resolver_shape_def sample_resolver_def)
  have "0 < cs_max_entries (cfg_cache (dm_cfg dm0))" using d(2) sample_max_entries by simp
  moreover have "\<forall>n. le_open_ok (he_log (se_handler sample_server_env)) n \<and> le_write_ok (he_log (se_handler sample_server_env)) n"
    by (simp add: sample_server_env_def sample_handler_env_def all_ok_def)
  moreover have "lc_path (logger_config_of (dm_cfg dm0)) = ''q.jsonl''" by (simp add: d(2) logger_config_of_def)
  ultimately obtain lines where "file_content (sv_fs (dm_state ?dm)) ''q.jsonl'' = file_content (sv_fs (dm_state dm0)) ''q.jsonl'' @ concat (map with_newline lines)"
      "length lines + dropped_count (sv_logger (dm_state ?dm)) = length (sv_logged (dm_state ?dm))"
    using log_complete_at_shutdown [OF d(1) shape _ stop] d(2) unfolding Let_def by auto
  with stop show ?thesis by blast
qed

text \<open>C11: What a query can cost. In every run of the program, the number of times a handler is resumed after an
  await is at most the number of datagrams received times one send plus the exchanges with upstreams a
  query can lead to: the attempts on the primary and one on each other upstream, for the query and for
  each re-query, of which the depth limit allows one less than its value. So every handler ends after a
  bounded number of resumes, and no answer of an upstream can make the server ask more than that.\<close>

theorem query_work_bounded:
  assumes "main_start env argv w = (Inr dm0, w0)" "0 < cs_max_entries (cfg_cache (dm_cfg dm0))"
    and "run_steps (daemon_step env) dm0 evs dm"
  shows "let rs = sv_resolver (dm_state dm0); attempts = nat (1 + retries_on_primary (rs_cfg rs)) + (length (rs_adapters rs) - 1) in
    length (filter daemon_resume evs) \<le> length (datagrams evs) * (1 + attempts * nat (max 1 (sv_max_depth (dm_state dm0))))"
proof -
  note m = main_start_state [OF assms(1)]
  obtain hevs st ps where run: "run_steps (handler_step (se_handler env)) (dm_state dm0, []) hevs (st, ps)" "received hevs = datagrams evs"
      "length (filter is_resume hevs) = length (filter daemon_resume evs)"
    using daemon_history [OF assms(3) m(6)] m(2) by (metis (mono_tags, lifting))
  from run_cost [OF run(1) m(8) [OF assms(2)] m(1)] run(2,3) show ?thesis
    by (simp add: query_cost_def forward_cost_def)
qed

theorem query_work_bounded_witness:
  "\<exists>dm0 dm. main_start sample_server_env [''cloakdns'', ''hosts''] () = (Inr dm0, ()) \<and> run_steps (daemon_step sample_server_env) dm0 [Datagram sample_query ()] dm \<and>
     length (filter daemon_resume [Datagram sample_query ()]) \<le> 1 + (nat (1 + retries_on_primary (rs_cfg (sv_resolver (dm_state dm0)))) +
       (length (rs_adapters (sv_resolver (dm_state dm0))) - 1)) * nat (max 1 (sv_max_depth (dm_state dm0)))"
proof -
  obtain dm0 where m: "main_start sample_server_env [''cloakdns'', ''hosts''] () = (Inr dm0, ())" "dm_cfg dm0 = sample_server_config"
    using sample_main by blast
  obtain dm where run: "run_steps (daemon_step sample_server_env) dm0 [Datagram sample_query ()] dm"
    using sample_datagram_run [OF main_start_state(6) [OF m(1)]] by blast
  have "0 < cs_max_entries (cfg_cache (dm_cfg dm0))" using m(2) sample_max_entries by simp
  from query_work_bounded [OF m(1) this run] m(1) run show ?thesis by (intro exI [of _ dm0] exI [of _ dm]) (simp add: Let_def)
qed

text \<open>C12: The frames of suspended handlers stay well-typed. In every state the program reaches, a handler that
  waits for an exchange waits for an upstream the resolver has, with at least one attempt left, and the
  packet it sends is the padded query it is working on, its client's or the A query for the last name of
  its chain, under a fresh id; the upstreams and their settings are those of the start, and there is one
  counter for each upstream.\<close>

theorem suspended_frames_valid:
  assumes "main_start env argv w = (Inr dm0, w0)" "0 < cs_max_entries (cfg_cache (dm_cfg dm0))"
    and "run_steps (daemon_step env) dm0 evs dm"
  shows "let rs = sv_resolver (dm_state dm); fits = (\<lambda>query fr. fr_adapter fr < length (rs_adapters rs) \<and> 0 < fr_left fr \<and> fr_adapter fr < length (rs_counters rs) \<and>
        (\<exists>i. outbound (fr_job fr) = outbound_for (rs_cfg rs) query i)) in
    rs_adapters rs = rs_adapters (sv_resolver (dm_state dm0)) \<and> rs_cfg rs = rs_cfg (sv_resolver (dm_state dm0)) \<and>
    length (rs_counters rs) = length (rs_adapters rs) \<and>
    (\<forall>p \<in> set (dm_phases dm). case p of
       Forwarding rq msg fr \<Rightarrow> fits (rq_query rq) fr
     | Uncloaking rq msg fwd uf fr \<Rightarrow> (\<exists>req. build_a_query (last (un_chain (uf_result uf))) 0 = Inr req \<and> fits req fr)
     | _ \<Rightarrow> True)"
proof -
  note m = main_start_state [OF assms(1)]
  note pin = pinned_eq [OF daemon_run_pinned [OF assms(3)]]
  have shape: "length (rs_counters (sv_resolver (dm_state dm))) = length (rs_adapters (sv_resolver (dm_state dm)))"
    using m(9) pin(4,6) by (simp add: resolver_shape_def)
  have ok: "phase_ok (dm_state dm) p" if "p \<in> set (dm_phases dm)" for p
  proof -
    obtain hevs st ps where run: "run_steps (handler_step (se_handler env)) (dm_state dm0, []) hevs (st, ps)"
        "if dm_running dm then st = dm_state dm \<and> ps = dm_phases dm else dm_phases dm = []"
      using daemon_history [OF assms(3) m(6)] m(2) by (metis (mono_tags, lifting))
    have "machine_ok [] (dm_state dm0, [])" using m(1) m(8) [OF assms(2)] by (simp add: machine_ok_def)
    from run_ok [OF run(1) this] have "machine_ok (received hevs) (st, ps)" .
    from machine_okD(2) [OF this] run(2) that show ?thesis by (cases "dm_running dm") auto
  qed
  show ?thesis unfolding Let_def
  proof (intro conjI ballI)
    fix p assume "p \<in> set (dm_phases dm)"
    from ok [OF this] shape show "case p of
       Forwarding rq msg fr \<Rightarrow> fr_adapter fr < length (rs_adapters (sv_resolver (dm_state dm))) \<and> 0 < fr_left fr \<and>
         fr_adapter fr < length (rs_counters (sv_resolver (dm_state dm))) \<and>
         (\<exists>i. outbound (fr_job fr) = outbound_for (rs_cfg (sv_resolver (dm_state dm))) (rq_query rq) i)
     | Uncloaking rq msg fwd uf fr \<Rightarrow> (\<exists>req. build_a_query (last (un_chain (uf_result uf))) 0 = Inr req \<and>
         fr_adapter fr < length (rs_adapters (sv_resolver (dm_state dm))) \<and> 0 < fr_left fr \<and>
         fr_adapter fr < length (rs_counters (sv_resolver (dm_state dm))) \<and>
         (\<exists>i. outbound (fr_job fr) = outbound_for (rs_cfg (sv_resolver (dm_state dm))) req i))
     | _ \<Rightarrow> True"
      by (cases p) (auto simp: waits_for_def frame_ok_def job_of_def)
  qed (use pin(4,5) shape in auto)
qed

theorem suspended_frames_valid_witness:
  "\<exists>dm0 dm. main_start sample_server_env [''cloakdns'', ''hosts''] () = (Inr dm0, ()) \<and> run_steps (daemon_step sample_server_env) dm0 [Datagram sample_query ()] dm \<and>
     rs_adapters (sv_resolver (dm_state dm)) = rs_adapters (sv_resolver (dm_state dm0))"
proof -
  obtain dm0 where m: "main_start sample_server_env [''cloakdns'', ''hosts''] () = (Inr dm0, ())" "dm_cfg dm0 = sample_server_config"
    using sample_main by blast
  obtain dm where run: "run_steps (daemon_step sample_server_env) dm0 [Datagram sample_query ()] dm"
    using sample_datagram_run [OF main_start_state(6) [OF m(1)]] by blast
  have "0 < cs_max_entries (cfg_cache (dm_cfg dm0))" using m(2) sample_max_entries by simp
  from suspended_frames_valid [OF m(1) this run] m(1) run show ?thesis unfolding Let_def by blast
qed

text \<open>A large retry count switches the upstream off. The configuration accepts any non-negative number of
  retries and casts it to 32 bits: 4294967295 becomes -1, and a resolver built from such a configuration
  with a single server fails every query without asking it.\<close>

theorem huge_retries_never_ask:
  assumes "set_retries 4294967295 c = Inr c'" "up_servers c = [server]" "build_from_config env c' w = (Inr rs, w1)" "12 \<le> length query"
  shows "forward draw_id query rs w2 = (Inl (RuntimeError ''resolver: all adapters exhausted''), rs, snd (draw_id w2))"
proof -
  have c': "up_retries_on_primary c' = - 1" "up_servers c' = [server]" using assms(1,2) by (auto simp: set_retries_def)
  note b = build_from_config_parts [OF assms(3)]
  obtain ad where ad: "rs_adapters rs = [ad]" using b c' by (cases "rs_adapters rs") auto
  obtain ctr where ctr: "rs_counters rs = [ctr]" using b c' by (cases "rs_counters rs") auto
  have "retries_on_primary (rs_cfg rs) < 0" using b c' by simp
  from negative_retries_skip_primary [OF ad ctr this assms(4)] show ?thesis .
qed

theorem huge_retries_never_ask_witness:
  "\<exists>rs. build_from_config sample_factory (default_upstream\<lparr>up_servers := [\<lparr>ep_host = ''1.1.1.1'', ep_port = 53\<rparr>], up_retries_on_primary := - 1\<rparr>) () = (Inr rs, ()) \<and>
     forward sample_draw sample_query rs () = (Inl (RuntimeError ''resolver: all adapters exhausted''), rs, ())"
proof -
  let ?c = "default_upstream\<lparr>up_servers := [\<lparr>ep_host = ''1.1.1.1'', ep_port = 53\<rparr>]\<rparr>"
  have s: "set_retries 4294967295 ?c = Inr (?c\<lparr>up_retries_on_primary := - 1\<rparr>)" by (simp add: set_retries_def)
  obtain rs where b: "build_from_config sample_factory (?c\<lparr>up_retries_on_primary := - 1\<rparr>) () = (Inr rs, ())"
    by (simp add: build_from_config_def build_udp_adapters_def factory_endpoint_def sample_factory_def default_upstream_def make_resolver_def)
  have "12 \<le> length sample_query" by (simp add: sample_query_def)
  from huge_retries_never_ask [OF s _ b this, of _ sample_draw "()"] b show ?thesis by (intro exI [of _ rs]) (simp add: sample_draw_def)
qed

end
